(* ===== verification/Prelude.thy ===== *)
theory Prelude
  imports Main "HOL-Library.Word"
begin

unbundle bit_operations_syntax

text \<open>
  What every component shares: names for the machine integers of \<open>types.h\<close>, the
  sequencing of operations that can fault, bounded loops, and byte-addressed memory with
  32-bit little-endian access.

  An operation that can fault returns \<open>fault + result\<close>; \<open>bindE\<close> runs the next operation on
  the result of the first and passes a fault on.  A loop over a known range is \<open>foldE\<close>.
\<close>

section \<open>Machine integers\<close>

type_synonym u8 = "8 word"
type_synonym u16 = "16 word"
type_synonym u32 = "32 word"

named_theorems run_simps \<open>how an operation runs when its memory accesses succeed\<close>
named_theorems frame_simps \<open>what an operation leaves unchanged\<close>
named_theorems mem_simps \<open>reads after writes\<close>

lemma word_Suc_less: "i < n \<Longrightarrow> unat (i + 1 :: u32) = Suc (unat i)"
  by unat_arith

lemma word_inc_le_iff: "i < n \<Longrightarrow> i + 1 \<le> j \<longleftrightarrow> i < (j :: u32)"
  by (simp add: word_le_nat_alt word_less_nat_alt word_Suc_less Suc_le_eq)

section \<open>Operations that can fault\<close>

definition bindE :: "'e + 'a \<Rightarrow> ('a \<Rightarrow> 'e + 'b) \<Rightarrow> 'e + 'b" where
  "bindE m f = (case m of Inl e \<Rightarrow> Inl e | Inr x \<Rightarrow> f x)"

lemma bindE_simps [simp]:
  "bindE (Inl e) f = Inl e"
  "bindE (Inr x) f = f x"
  by (simp_all add: bindE_def)

lemma bindE_eq_Inr: "bindE m f = Inr y \<longleftrightarrow> (\<exists>x. m = Inr x \<and> f x = Inr y)"
  by (cases m) simp_all

lemma bindE_assoc: "bindE (bindE m f) g = bindE m (\<lambda>x. bindE (f x) g)"
  by (cases m) simp_all

lemma bindE_cong [fundef_cong]:
  "m = m' \<Longrightarrow> (\<And>x. m' = Inr x \<Longrightarrow> f x = g x) \<Longrightarrow> bindE m f = bindE m' g"
  by (cases m') simp_all

primrec foldE :: "('a \<Rightarrow> 's \<Rightarrow> 'e + 's) \<Rightarrow> 'a list \<Rightarrow> 's \<Rightarrow> 'e + 's" where
  "foldE f [] s = Inr s"
| "foldE f (x # xs) s = bindE (f x s) (foldE f xs)"

text \<open>A loop whose body never faults under an invariant is the pure fold.\<close>

lemma foldE_Inr:
  assumes "I s"
    and "\<And>x s. x \<in> set xs \<Longrightarrow> I s \<Longrightarrow> f x s = Inr (g x s) \<and> I (g x s)"
  shows "foldE f xs s = Inr (fold g xs s) \<and> I (fold g xs s)"
  using assms
proof (induction xs arbitrary: s)
  case Nil
  then show ?case by simp
next
  case (Cons x xs)
  have "f x s = Inr (g x s)" and "I (g x s)"
    using Cons.prems by auto
  moreover have "foldE f xs (g x s) = Inr (fold g xs (g x s)) \<and> I (fold g xs (g x s))"
    by (rule Cons.IH) (use Cons.prems \<open>I (g x s)\<close> in auto)
  ultimately show ?case by simp
qed

lemma foldE_append: "foldE f (xs @ ys) s = bindE (foldE f xs s) (foldE f ys)"
  by (induction xs arbitrary: s) (simp_all add: bindE_def split: sum.splits)

text \<open>A counted loop, by the state \<open>g x\<close> it has reached when its counter is \<open>x\<close>.\<close>

lemma foldE_upt:
  assumes "m \<le> n" and "\<And>x. m \<le> x \<Longrightarrow> x < n \<Longrightarrow> f x (g x) = Inr (g (Suc x))"
  shows "foldE f [m..<n] (g m) = Inr (g n)"
  using assms by (induction n rule: dec_induct) (simp_all add: foldE_append)

text \<open>A counted loop that keeps an invariant.\<close>

lemma foldE_inv:
  assumes "m \<le> n" "I m s"
    and "\<And>x t. m \<le> x \<Longrightarrow> x < n \<Longrightarrow> I x t \<Longrightarrow> \<exists>t'. f x t = Inr t' \<and> I (Suc x) t'"
  shows "\<exists>s'. foldE f [m..<n] s = Inr s' \<and> I n s'"
  using assms(1,3)
proof (induction n rule: dec_induct)
  case base
  then show ?case using assms(2) by simp
next
  case (step n)
  then obtain t where t: "foldE f [m..<n] s = Inr t" "I n t" by fastforce
  with step.prems [of n t] step.hyps show ?case by (auto simp: foldE_append)
qed

section \<open>Byte memory\<close>

type_synonym memory = "u32 \<Rightarrow> u8"

definition rd32 :: "memory \<Rightarrow> u32 \<Rightarrow> u32" where
  "rd32 m a = ucast (m a) OR push_bit 8 (ucast (m (a + 1)))
     OR push_bit 16 (ucast (m (a + 2))) OR push_bit 24 (ucast (m (a + 3)))"

definition wr32 :: "u32 \<Rightarrow> u32 \<Rightarrow> memory \<Rightarrow> memory" where
  "wr32 a v m = m(a := ucast v, a + 1 := ucast (drop_bit 8 v),
     a + 2 := ucast (drop_bit 16 v), a + 3 := ucast (drop_bit 24 v))"

text \<open>Two four-byte cells do not overlap.\<close>

definition sep4 :: "u32 \<Rightarrow> u32 \<Rightarrow> bool" where
  "sep4 a b \<longleftrightarrow> (\<forall>i \<in> {0, 1, 2, 3}. \<forall>j \<in> {0, 1, 2, 3}. a + i \<noteq> b + j)"

lemma rd32_wr32_same [mem_simps]: "rd32 (wr32 a v m) a = v"
proof -
  have d: "a + 1 \<noteq> a" "a + 2 \<noteq> a" "a + 3 \<noteq> a" "a + 2 \<noteq> a + 1" "a + 3 \<noteq> a + 1" "a + 3 \<noteq> a + 2"
    by simp_all
  have "rd32 (wr32 a v m) a = ucast (ucast v :: u8) OR push_bit 8 (ucast (ucast (drop_bit 8 v) :: u8))
     OR push_bit 16 (ucast (ucast (drop_bit 16 v) :: u8))
     OR push_bit 24 (ucast (ucast (drop_bit 24 v) :: u8))"
    using d by (simp add: rd32_def wr32_def)
  also have "\<dots> = v"
  proof (rule bit_word_eqI)
    fix n :: nat
    assume "n < LENGTH(32)"
    then consider "n < 8" | "8 \<le> n" "n < 16" | "16 \<le> n" "n < 24" | "24 \<le> n" "n < 32"
      by fastforce
    then show "bit (ucast (ucast v :: u8) OR push_bit 8 (ucast (ucast (drop_bit 8 v) :: u8))
     OR push_bit 16 (ucast (ucast (drop_bit 16 v) :: u8))
     OR push_bit 24 (ucast (ucast (drop_bit 24 v) :: u8)) :: u32) n = bit v n"
      by cases (auto simp add: bit_simps less_diff_conv2)
  qed
  finally show ?thesis .
qed

lemma wr32_other: "\<forall>i \<in> {0, 1, 2, 3}. a + i \<noteq> b \<Longrightarrow> wr32 a v m b = m b"
  by (auto simp: wr32_def)

lemma rd32_wr32_sep [mem_simps]:
  assumes "sep4 a b"
  shows "rd32 (wr32 a v m) b = rd32 m b"
proof -
  have "wr32 a v m (b + j) = m (b + j)" if "j \<in> {0, 1, 2, 3}" for j
    using assms that by (intro wr32_other) (auto simp: sep4_def)
  from this [of 0] this [of 1] this [of 2] this [of 3] show ?thesis
    by (simp add: rd32_def)
qed

lemma unat_mod4_add: "unat (a + b :: u32) mod 4 = (unat a + unat b) mod 4"
  by (simp add: unat_word_ariths mod_mod_cancel)

lemma sep4_aligned:
  assumes "unat a mod 4 = 0" and "unat b mod 4 = 0" and "a \<noteq> (b :: u32)"
  shows "sep4 a b"
proof -
  have low: "unat (c + i) mod 4 = unat i" if "unat c mod 4 = 0" "i \<in> {0, 1, 2, 3}" for c i :: u32
  proof -
    have "unat (c + i) mod 4 = (unat c mod 4 + unat i) mod 4"
      by (simp add: unat_mod4_add mod_simps)
    then show ?thesis using that by auto
  qed
  have "a + i \<noteq> b + j" if "i \<in> {0, 1, 2, 3}" "j \<in> {0, 1, 2, 3}" for i j
  proof
    assume eq: "a + i = b + j"
    with low [OF assms(1) that(1)] low [OF assms(2) that(2)] have "i = j"
      by (metis unsigned_word_eqI)
    with eq assms(3) show False by simp
  qed
  then show ?thesis by (simp add: sep4_def)
qed

section \<open>Page frames\<close>

text \<open>
  The frame of an address drops its low 12 bits; a frame holds 1024 word cells.
\<close>

definition frame_of :: "u32 \<Rightarrow> u32" where
  "frame_of a = a AND 0xFFFFF000"

definition cell :: "u32 \<Rightarrow> u32 \<Rightarrow> u32" where
  "cell p i = p + 4 * i"

lemma frame_of_bits: "bit (frame_of a) n \<longleftrightarrow> bit a n \<and> 12 \<le> n"
proof -
  have m: "(0xFFFFF000 :: u32) = push_bit 12 (mask 20)"
    by (simp add: mask_eq_exp_minus_1 push_bit_eq_mult)
  have "bit (frame_of a) n \<longleftrightarrow> bit a n \<and> 12 \<le> n \<and> n - 12 < 20 \<and> n < 32"
    unfolding frame_of_def m by (auto simp: bit_simps)
  also have "\<dots> \<longleftrightarrow> bit a n \<and> 12 \<le> n"
    using bit_imp_le_length [of a n] by auto
  finally show ?thesis .
qed

lemma frame_of_idem [simp]: "frame_of (frame_of a) = frame_of a"
  by (rule bit_word_eqI) (simp add: frame_of_bits)

lemma small_bits: "x < 4096 \<Longrightarrow> bit (x :: u32) n \<Longrightarrow> n < 12"
proof -
  assume "x < 4096" "bit x n"
  then have "take_bit 12 x = x"
    using less_mask_eq [of x 12] by (simp add: take_bit_eq_mask)
  with \<open>bit x n\<close> show "n < 12" by (metis bit_take_bit_iff)
qed

lemma frame_plus: "frame_of p = p \<Longrightarrow> x < 4096 \<Longrightarrow> p + x = p OR x"
proof -
  assume p: "frame_of p = p" and x: "x < 4096"
  have "p AND x = 0"
  proof (rule bit_word_eqI)
    fix n
    show "bit (p AND x) n = bit 0 n"
      using frame_of_bits [of p n] small_bits [OF x, of n] p by (auto simp: bit_simps)
  qed
  then show ?thesis by (rule disjunctive_add_eq_or)
qed

lemma frame_of_plus: "frame_of p = p \<Longrightarrow> x < 4096 \<Longrightarrow> frame_of (p + x) = p"
proof -
  assume p: "frame_of p = p" and x: "x < 4096"
  show ?thesis
  proof (rule bit_word_eqI)
    fix n
    show "bit (frame_of (p + x)) n = bit p n"
      using frame_of_bits [of p n] small_bits [OF x, of n] p
      by (auto simp: frame_plus [OF p x] frame_of_bits bit_simps)
  qed
qed

lemma low_bits_plus: "frame_of p = p \<Longrightarrow> x < 4096 \<Longrightarrow> (p + x) AND 0xFFF = x"
proof -
  assume p: "frame_of p = p" and x: "x < 4096"
  have m: "(0xFFF :: u32) = mask 12" by (simp add: mask_eq_exp_minus_1)
  show ?thesis
  proof (rule bit_word_eqI)
    fix n
    show "bit ((p + x) AND 0xFFF) n = bit x n"
      using frame_of_bits [of p n] small_bits [OF x, of n] p bit_imp_le_length [of x n]
      by (auto simp: frame_plus [OF p x] m bit_simps)
  qed
qed

lemma frame_unat: "frame_of p = p \<Longrightarrow> unat p mod 4096 = 0"
proof -
  assume p: "frame_of p = p"
  have "take_bit 12 p = 0"
  proof (rule bit_word_eqI)
    fix n
    show "bit (take_bit 12 p) n = bit 0 n"
      using frame_of_bits [of p n] p by (auto simp: bit_simps)
  qed
  then have "take_bit 12 (unat p) = 0" by (metis unsigned_take_bit_eq unsigned_0)
  then show ?thesis by (simp add: take_bit_eq_mod)
qed

lemma unat_cell_offset: "i < 1024 \<Longrightarrow> unat (4 * i :: u32) = 4 * unat i"
  by (subst unat_mult_lem [THEN iffD1]) (auto simp: word_less_nat_alt)

lemma cell_offset: "i < 1024 \<Longrightarrow> 4 * i < (4096 :: u32)"
  by (simp add: word_less_nat_alt unat_cell_offset)

lemma frame_of_cell: "frame_of p = p \<Longrightarrow> i < 1024 \<Longrightarrow> frame_of (cell p i) = p"
  unfolding cell_def by (rule frame_of_plus) (auto intro: cell_offset)

lemma cell_aligned:
  assumes "frame_of p = p" and "i < 1024"
  shows "unat (cell p i) mod 4 = 0"
proof -
  have "unat p mod 4 = 0"
    using frame_unat [OF assms(1)] mod_mod_cancel [of 4 4096 "unat p"] by simp
  then show ?thesis
    by (simp add: cell_def unat_mod4_add unat_cell_offset [OF assms(2)])
qed

lemma cell_inject: "i < 1024 \<Longrightarrow> j < 1024 \<Longrightarrow> cell p i = cell p j \<longleftrightarrow> i = j"
  unfolding cell_def
  by (metis add_left_cancel unat_cell_offset mult_left_cancel unsigned_word_eqI zero_neq_numeral)

text \<open>Distinct cells, of one frame or of two, do not overlap.\<close>

lemma sep4_cells:
  assumes "frame_of p = p" "frame_of q = q" "i < 1024" "j < 1024" "p \<noteq> q \<or> i \<noteq> j"
  shows "sep4 (cell p i) (cell q j)"
proof (rule sep4_aligned)
  show "cell p i \<noteq> cell q j"
    using assms frame_of_cell [of p i] frame_of_cell [of q j] cell_inject [of i j p] by auto
qed (use assms cell_aligned in auto)

end
