(* ===== verification/Machine.thy ===== *)
theory Machine
  imports Prelude
begin

text \<open>
  The machine the kernel runs on, as far as the C code observes it: byte-addressed RAM, the
  control registers \<open>CR0\<close> and \<open>CR3\<close>, and the trace of the externally visible actions in the
  order the code performs them (console calls, port writes, TLB invalidations).  The components
  extend the record \<open>cpu\<close> with their own static variables, so one state value flows through
  calls between components as the C globals do.

  While paging is off an address is physical; once bit 31 of \<open>CR0\<close> is set every access goes
  through the two-level page walk of the IA-32 architecture (4 KiB pages), and an access to a
  page that is not present is the value \<open>Inl (Page_Fault a)\<close>.
\<close>

section \<open>Constants of config.h\<close>

definition KERNEL_END :: u32 where "KERNEL_END = 0x01000000"
definition BITMAP_START :: u32 where "BITMAP_START = 0x01000000"
definition KERNEL_LOAD :: u32 where "KERNEL_LOAD = 0x00100000"
definition TEST_HEAP_VIRT :: u32 where "TEST_HEAP_VIRT = 0xC0100000"
definition PAGE_SIZE :: u32 where "PAGE_SIZE = 4096"
definition VMM_PD_ADDR :: u32 where "VMM_PD_ADDR = 0x2000000"
definition HEAP_INIT_PAGES :: u32 where "HEAP_INIT_PAGES = 4"
definition PG_PRESENT :: u32 where "PG_PRESENT = push_bit 0 1"
definition PG_WRITABLE :: u32 where "PG_WRITABLE = push_bit 1 1"
definition COM1_PORT :: u16 where "COM1_PORT = 0x3F8"
definition COM2_PORT :: u16 where "COM2_PORT = 0x2F8"

lemmas config_defs = KERNEL_END_def BITMAP_START_def KERNEL_LOAD_def TEST_HEAP_VIRT_def
  PAGE_SIZE_def VMM_PD_ADDR_def HEAP_INIT_PAGES_def

definition LOG_INFO :: string where "LOG_INFO = ''[INFO]''"
definition LOG_WARN :: string where "LOG_WARN = ''[WARN]''"
definition LOG_ERROR :: string where "LOG_ERROR = ''[ERROR]''"
definition LOG_DEBUG :: string where "LOG_DEBUG = ''[DEBUG]''"
definition LOG_VMM :: string where "LOG_VMM = ''[VMM]''"
definition LOG_HEAP :: string where "LOG_HEAP = ''[HEAP]''"

definition CR :: char where "CR = CHR 0x0D"
definition LF :: char where "LF = CHR 0x0A"
definition crlf :: string where "crlf = [CR, LF]"

section \<open>Visible actions and faults\<close>

text \<open>A variadic argument is a 32-bit value or a string pointer.\<close>

datatype arg = ArgW u32 | ArgS string

datatype event =
    Kprintf string "arg list"
  | Print string
  | Printl string
  | Printc char
  | Serial_Line u16 string
  | Serial_Init u16
  | Vga_Init
  | Vga_Colors u8 u8
  | Vga_Print string
  | Vga_Char char
  | Outb u16 u8
  | Invlpg u32

datatype fault =
    Page_Fault u32
  | Bad_Pointer u32
  | Undefined_Behaviour
  | No_Return

section \<open>State, memory access and the page walk\<close>

record cpu =
  ram :: memory
  cr0 :: u32
  cr3 :: u32
  trace :: "event list"

definition emit :: "event \<Rightarrow> 'a cpu_scheme \<Rightarrow> 'a cpu_scheme" where
  "emit e s = s\<lparr>trace := trace s @ [e]\<rparr>"

definition paging :: "'a cpu_scheme \<Rightarrow> bool" where
  "paging s \<longleftrightarrow> cr0 s AND 0x80000000 \<noteq> 0"

definition hw_walk :: "memory \<Rightarrow> u32 \<Rightarrow> u32 \<Rightarrow> u32 option" where
  "hw_walk m pd va =
     (let pde = rd32 m (cell (frame_of pd) (drop_bit 22 va AND 0x3FF))
      in if pde AND 1 = 0 then None
         else let pte = rd32 m (cell (frame_of pde) (drop_bit 12 va AND 0x3FF))
           in if pte AND 1 = 0 then None
              else Some (frame_of pte OR (va AND 0xFFF)))"

definition xlate :: "'a cpu_scheme \<Rightarrow> u32 \<Rightarrow> u32 option" where
  "xlate s va = (if paging s then hw_walk (ram s) (cr3 s) va else Some va)"

definition ld8 :: "u32 \<Rightarrow> 'a cpu_scheme \<Rightarrow> fault + u8" where
  "ld8 a s = (case xlate s a of None \<Rightarrow> Inl (Page_Fault a) | Some p \<Rightarrow> Inr (ram s p))"

definition st8 :: "u32 \<Rightarrow> u8 \<Rightarrow> 'a cpu_scheme \<Rightarrow> fault + 'a cpu_scheme" where
  "st8 a v s = (case xlate s a of None \<Rightarrow> Inl (Page_Fault a)
     | Some p \<Rightarrow> Inr (s\<lparr>ram := (ram s)(p := v)\<rparr>))"

text \<open>A 32-bit access is its four byte accesses, lowest address first.\<close>

definition ld32 :: "u32 \<Rightarrow> 'a cpu_scheme \<Rightarrow> fault + u32" where
  "ld32 a s =
     bindE (ld8 a s) (\<lambda>b0. bindE (ld8 (a + 1) s) (\<lambda>b1.
     bindE (ld8 (a + 2) s) (\<lambda>b2. bindE (ld8 (a + 3) s) (\<lambda>b3.
     Inr (ucast b0 OR push_bit 8 (ucast b1) OR push_bit 16 (ucast b2) OR push_bit 24 (ucast b3))))))"

definition st32 :: "u32 \<Rightarrow> u32 \<Rightarrow> 'a cpu_scheme \<Rightarrow> fault + 'a cpu_scheme" where
  "st32 a v s =
     bindE (st8 a (ucast v) s) (\<lambda>s. bindE (st8 (a + 1) (ucast (drop_bit 8 v)) s) (\<lambda>s.
     bindE (st8 (a + 2) (ucast (drop_bit 16 v)) s) (\<lambda>s.
     st8 (a + 3) (ucast (drop_bit 24 v)) s)))"

section \<open>Direct access\<close>

text \<open>While paging is off no access faults, and the accesses are plain RAM reads and writes.\<close>

lemma xlate_direct [run_simps]: "\<not> paging s \<Longrightarrow> xlate s a = Some a"
  by (simp add: xlate_def)

lemma ld8_direct [run_simps]: "\<not> paging s \<Longrightarrow> ld8 a s = Inr (ram s a)"
  by (simp add: ld8_def xlate_direct)

lemma st8_direct [run_simps]: "\<not> paging s \<Longrightarrow> st8 a v s = Inr (s\<lparr>ram := (ram s)(a := v)\<rparr>)"
  by (simp add: st8_def xlate_direct)

lemma paging_update [simp]:
  "paging (s\<lparr>ram := m\<rparr>) = paging s"
  "paging (s\<lparr>trace := t\<rparr>) = paging s"
  "paging (s\<lparr>cr3 := c\<rparr>) = paging s"
  by (simp_all add: paging_def)

lemma ld32_direct [run_simps]: "\<not> paging s \<Longrightarrow> ld32 a s = Inr (rd32 (ram s) a)"
  by (simp add: ld32_def run_simps rd32_def)

lemma st32_direct [run_simps]:
  "\<not> paging s \<Longrightarrow> st32 a v s = Inr (s\<lparr>ram := wr32 a v (ram s)\<rparr>)"
  by (simp add: st32_def run_simps wr32_def)

text \<open>The same with the memory of the state explicit, for longer runs.\<close>

lemma ram_run:
  assumes "\<not> paging s"
  shows "ld8 a (s\<lparr>ram := m\<rparr>) = Inr (m a)" "ld32 a (s\<lparr>ram := m\<rparr>) = Inr (rd32 m a)"
    "st8 a w (s\<lparr>ram := m\<rparr>) = Inr (s\<lparr>ram := m(a := w)\<rparr>)"
    "st32 a v (s\<lparr>ram := m\<rparr>) = Inr (s\<lparr>ram := wr32 a v m\<rparr>)"
  using assms by (simp_all add: run_simps)

lemma emit_simps [simp]:
  "ram (emit e s) = ram s" "cr0 (emit e s) = cr0 s" "cr3 (emit e s) = cr3 s"
  "trace (emit e s) = trace s @ [e]" "paging (emit e s) = paging s"
  "cpu.more (emit e s) = cpu.more s"
  by (simp_all add: emit_def)

text \<open>An access to a page that the walk does not find faults before it changes anything.\<close>

lemma ld8_unmapped: "xlate s a = None \<Longrightarrow> ld8 a s = Inl (Page_Fault a)"
  by (simp add: ld8_def)

lemma ld32_unmapped: "xlate s a = None \<Longrightarrow> ld32 a s = Inl (Page_Fault a)"
  by (simp add: ld32_def ld8_unmapped)

lemma st8_unmapped: "xlate s a = None \<Longrightarrow> st8 a v s = Inl (Page_Fault a)"
  by (simp add: st8_def)

text \<open>Filling a range of memory.\<close>

lemma fold_wr8:
  "fold (\<lambda>i m. m(b + of_nat i := v)) [0..<n] m a = (if \<exists>i<n. a = b + of_nat i then v else (m a :: u8))"
  for a b :: u32
  by (induction n) (auto simp: less_Suc_eq)

end
