(* ===== verification/Utils.thy ===== *)
theory Utils
  imports Machine "HOL-Library.Signed_Division"
begin

text \<open>
  Number formatting: \<open>utils.c\<close> (\<open>itoa\<close>, \<open>hex_to_str\<close>) of the kernel and \<open>old/Include/UTILS.c\<close>
  (\<open>int_to_str\<close>, the older \<open>hex_to_str\<close>).  A written buffer is the string up to its NUL.
  \<open>itoa\<close> divides before it knows the base is usable and loops until the quotient is zero, so its
  loop is a partial function: \<open>None\<close> stands for a division by zero, a read outside the digit
  table, a quotient that does not fit an \<open>int\<close>, or a loop that never ends (base 1).
\<close>

section \<open>itoa\<close>

definition itoa_table :: string where
  "itoa_table = ''zyxwvutsrqponmlkjihgfedcba9876543210123456789abcdefghijklmnopqrstuvwxyz'' @ [CHR 0x00]"

definition int32 :: "int \<Rightarrow> bool" where
  "int32 v \<longleftrightarrow> - (2 ^ 31) \<le> v \<and> v < 2 ^ 31"

partial_function (option) itoa_loop :: "int \<Rightarrow> int \<Rightarrow> string \<Rightarrow> (string \<times> int) option" where
  "itoa_loop v base out =
     (if base = 0 \<or> \<not> int32 (v sdiv base) then None
      else if 35 + (v - (v sdiv base) * base) < 0
           \<or> int (length itoa_table) \<le> 35 + (v - (v sdiv base) * base) then None
      else if v sdiv base \<noteq> 0
        then itoa_loop (v sdiv base) base (out @ [itoa_table ! nat (35 + (v - (v sdiv base) * base))])
        else Some (out @ [itoa_table ! nat (35 + (v - (v sdiv base) * base))], v))"

text \<open>The in-place reversal: \<open>ptr1\<close> is index \<open>i\<close>, \<open>ptr\<close> is index \<open>j\<close>.\<close>

function itoa_swap :: "string \<Rightarrow> nat \<Rightarrow> nat \<Rightarrow> string" where
  "itoa_swap str i j =
     (if i < j then itoa_swap (str[j := str ! i, i := str ! j]) (i + 1) (j - 1) else str)"
  by pat_completeness auto
termination
  by (relation "measure (\<lambda>(str, i, j). j - i)") auto

definition itoa :: "int \<Rightarrow> int \<Rightarrow> string option" where
  "itoa v base =
     (case itoa_loop v base [] of
        None \<Rightarrow> None
      | Some (out, tmp_value) \<Rightarrow>
          let out = (if tmp_value < 0 then out @ ''-'' else out)
          in Some (itoa_swap out 0 (length out - 1)))"

text \<open>A caller that goes on after \<open>itoa\<close>.\<close>

definition itoaE :: "u32 \<Rightarrow> int \<Rightarrow> fault + string" where
  "itoaE v base = (case itoa (sint v) base of None \<Rightarrow> Inl Undefined_Behaviour | Some b \<Rightarrow> Inr b)"

declare itoa_swap.simps [simp del]

section \<open>hex_to_str\<close>

definition hex_digit :: "u32 \<Rightarrow> char" where
  "hex_digit d = (if d < 10 then char_of (48 + unat d) else char_of (65 + unat d - 10))"

definition hex_to_str :: "u32 \<Rightarrow> string" where
  "hex_to_str n = ''0x'' @ map (\<lambda>i. hex_digit (drop_bit (28 - i * 4) n AND 0xF)) [0..<8]"

section \<open>old/Include/UTILS.c\<close>

definition hex_digits :: string where
  "hex_digits = ''0123456789ABCDEF''"

definition old_hex_to_str :: "u32 \<Rightarrow> string" where
  "old_hex_to_str value =
     snd (fold (\<lambda>i (v, buffer). (drop_bit 4 v, buffer[9 - i := hex_digits ! unat (v AND 0xF)]))
       [0..<8] (value, ''0x'' @ replicate 8 (CHR 0x00)))"

function int_to_str_loop :: "u32 \<Rightarrow> string \<Rightarrow> string" where
  "int_to_str_loop n temp =
     (if n > 0 then int_to_str_loop (n div 10) (temp @ [char_of (48 + unat (n mod 10))]) else temp)"
  by pat_completeness auto
termination
  by (relation "measure (\<lambda>(n, temp). unat n)")
    (auto simp: word_less_nat_alt unat_div intro: div_less_dividend)

declare int_to_str_loop.simps [simp del]

definition int_to_str :: "u32 \<Rightarrow> string" where
  "int_to_str num =
     (if num = 0 then ''0''
      else let temp = int_to_str_loop num [] in map (\<lambda>j. temp ! (length temp - j - 1)) [0..<length temp])"

section \<open>Reading numbers back\<close>

definition digit_val :: "char \<Rightarrow> nat" where
  "digit_val c = (let n = of_char c in
     if 48 \<le> n \<and> n \<le> 57 then n - 48 else if 97 \<le> n \<and> n \<le> 122 then n - 87
     else if 65 \<le> n \<and> n \<le> 90 then n - 55 else 0)"

definition parse_nat :: "nat \<Rightarrow> string \<Rightarrow> nat" where
  "parse_nat b s = foldl (\<lambda>a c. a * b + digit_val c) 0 s"

definition parse_int :: "nat \<Rightarrow> string \<Rightarrow> int" where
  "parse_int b s = (if s \<noteq> [] \<and> hd s = CHR ''-'' then - int (parse_nat b (tl s)) else int (parse_nat b s))"

text \<open>Reference printer: the digits of a number, least significant first.\<close>

definition digit_chr :: "nat \<Rightarrow> char" where
  "digit_chr d = (if d < 10 then char_of (48 + d) else char_of (87 + d))"

function digits_of :: "nat \<Rightarrow> nat \<Rightarrow> string" where
  "digits_of b n = (if n < b \<or> b < 2 then [digit_chr n] else digit_chr (n mod b) # digits_of b (n div b))"
  by pat_completeness auto
termination
  by (relation "measure (\<lambda>(b, n). n)") auto

declare digits_of.simps [simp del]

lemma itoa_table_sym:
  assumes "k < 36"
  shows "itoa_table ! (35 + k) = digit_chr k" "itoa_table ! (35 - k) = digit_chr k"
proof -
  have "\<forall>k \<in> set [0..<36]. itoa_table ! (35 + k) = digit_chr k \<and> itoa_table ! (35 - k) = digit_chr k"
    by code_simp
  with assms show "itoa_table ! (35 + k) = digit_chr k" "itoa_table ! (35 - k) = digit_chr k"
    by auto
qed

lemma digit_val_chr: "d < 36 \<Longrightarrow> digit_val (digit_chr d) = d"
  by (simp add: digit_val_def digit_chr_def Let_def)

lemma digit_chr_not_minus: "d < 36 \<Longrightarrow> digit_chr d \<noteq> CHR ''-''"
proof -
  have "\<forall>d \<in> set [0..<36]. digit_chr d \<noteq> CHR ''-''" by code_simp
  then show "d < 36 \<Longrightarrow> digit_chr d \<noteq> CHR ''-''" by auto
qed

section \<open>What itoa computes\<close>

lemma sdiv_rem:
  assumes "0 < (b :: int)"
  shows "v sdiv b = sgn v * (\<bar>v\<bar> div b)" and "v - (v sdiv b) * b = sgn v * (\<bar>v\<bar> mod b)"
proof -
  show d: "v sdiv b = sgn v * (\<bar>v\<bar> div b)"
    using assms by (simp add: signed_divide_int_def)
  have "v = sgn v * \<bar>v\<bar>" by (simp add: sgn_mult_abs)
  then have "v - (v sdiv b) * b = sgn v * (\<bar>v\<bar> - (\<bar>v\<bar> div b) * b)"
    by (simp add: d algebra_simps)
  then show "v - (v sdiv b) * b = sgn v * (\<bar>v\<bar> mod b)"
    by (simp add: minus_div_mult_eq_mod)
qed

lemma itoa_table_rem:
  assumes "\<bar>r\<bar> < 36"
  shows "0 \<le> 35 + r" "35 + r < int (length itoa_table)"
    "itoa_table ! nat (35 + r) = digit_chr (nat \<bar>r\<bar>)"
proof -
  have len: "length itoa_table = 72" by (simp add: itoa_table_def)
  show "0 \<le> 35 + r" "35 + r < int (length itoa_table)" using assms len by auto
  show "itoa_table ! nat (35 + r) = digit_chr (nat \<bar>r\<bar>)"
  proof (cases "0 \<le> r")
    case True
    then have "nat (35 + r) = 35 + nat \<bar>r\<bar>" by simp
    with itoa_table_sym(1) [of "nat \<bar>r\<bar>"] assms show ?thesis by simp
  next
    case False
    then have "nat (35 + r) = 35 - nat \<bar>r\<bar>" using assms by simp
    with itoa_table_sym(2) [of "nat \<bar>r\<bar>"] assms show ?thesis by simp
  qed
qed

text \<open>The quotient and remainder of one round.\<close>

lemma sdiv_round:
  assumes "2 \<le> b" "b \<le> 36" "int32 v"
  defines "q \<equiv> v sdiv int b"
  shows "nat \<bar>v - q * int b\<bar> = nat \<bar>v\<bar> mod b" "\<bar>v - q * int b\<bar> < 36" "nat \<bar>q\<bar> = nat \<bar>v\<bar> div b"
    "int32 q" "q \<noteq> 0 \<Longrightarrow> q < 0 \<longleftrightarrow> v < 0"
proof -
  let ?q = "v sdiv int b" and ?r = "v - (v sdiv int b) * int b"
  have q: "?q = sgn v * (\<bar>v\<bar> div int b)" and r: "?r = sgn v * (\<bar>v\<bar> mod int b)"
    using sdiv_rem [of "int b" v] assms(1) by auto
  have ar: "nat \<bar>?r\<bar> = nat \<bar>v\<bar> mod b" and "\<bar>?r\<bar> < 36"
  proof -
    have m: "0 \<le> \<bar>v\<bar> mod int b" "\<bar>v\<bar> mod int b < int b" using assms(1) by simp_all
    have "\<bar>?r\<bar> = \<bar>v\<bar> mod int b" by (cases "v = 0") (simp_all add: r abs_mult abs_sgn_eq m(1))
    moreover have "int b \<le> 36" using assms(2) by simp
    ultimately show "nat \<bar>?r\<bar> = nat \<bar>v\<bar> mod b" "\<bar>?r\<bar> < 36"
      using m(2) by (simp add: nat_mod_as_int, linarith)
  qed
  have aq: "nat \<bar>?q\<bar> = nat \<bar>v\<bar> div b"
    using assms(1) by (simp add: q abs_mult nat_div_as_int pos_imp_zdiv_nonneg_iff abs_sgn_eq)
  have k0: "0 \<le> \<bar>v\<bar> div int b" using assms(1) by (simp add: pos_imp_zdiv_nonneg_iff)
  have half: "\<bar>v\<bar> div int b * 2 \<le> \<bar>v\<bar>"
  proof -
    have "\<bar>v\<bar> div int b * 2 \<le> \<bar>v\<bar> div int b * int b"
      using assms(1) k0 by (intro mult_left_mono) auto
    also have "\<dots> \<le> \<bar>v\<bar>"
      using minus_div_mult_eq_mod [of "\<bar>v\<bar>" "int b"] pos_mod_sign [of "int b" "\<bar>v\<bar>"] assms(1)
      by linarith
    finally show ?thesis .
  qed
  have i32: "int32 ?q"
  proof -
    have "\<bar>?q\<bar> \<le> \<bar>v\<bar> div int b" using k0 by (simp add: q abs_mult abs_sgn_eq)
    moreover have "\<bar>v\<bar> \<le> 2 ^ 31" using assms(3) by (auto simp: int32_def)
    ultimately show ?thesis using half k0 by (simp add: int32_def) linarith
  qed
  show "nat \<bar>v - q * int b\<bar> = nat \<bar>v\<bar> mod b" "\<bar>v - q * int b\<bar> < 36" "nat \<bar>q\<bar> = nat \<bar>v\<bar> div b" "int32 q"
    unfolding q_def by (fact ar \<open>\<bar>?r\<bar> < 36\<close> aq i32)+
  show "q < 0 \<longleftrightarrow> v < 0" if "q \<noteq> 0"
    using that k0 unfolding q_def by (auto simp: q sgn_if split: if_splits)
qed

lemma itoa_loop_digits:
  assumes "2 \<le> b" "b \<le> 36" "int32 v"
  shows "\<exists>t. itoa_loop v (int b) out = Some (out @ digits_of b (nat \<bar>v\<bar>), t) \<and> (t < 0 \<longleftrightarrow> v < 0)"
  using assms(3)
proof (induction "nat \<bar>v\<bar>" arbitrary: v out rule: less_induct)
  case less
  let ?q = "v sdiv int b" and ?r = "v - (v sdiv int b) * int b"
  note round = sdiv_round [OF assms(1,2) less.prems]
  note ar = round(1) and aq = round(3) and i32 = round(4)
  note idx = itoa_table_rem [OF round(2)]
  show ?case
  proof (cases "?q = 0")
    case True
    then have "nat \<bar>v\<bar> < b" using aq assms(1) by (simp add: div_eq_0_iff)
    then have "digits_of b (nat \<bar>v\<bar>) = [digit_chr (nat \<bar>v\<bar>)]" and "nat \<bar>?r\<bar> = nat \<bar>v\<bar>"
      using ar by (simp_all add: digits_of.simps)
    then show ?thesis
      using True idx i32 assms(1) by (auto simp: itoa_loop.simps [of v])
  next
    case False
    then have "nat \<bar>v\<bar> div b \<noteq> 0" using aq by simp
    then have nb: "\<not> nat \<bar>v\<bar> < b" by auto
    have "nat \<bar>?q\<bar> < nat \<bar>v\<bar>"
      using aq nb assms(1) by (simp add: div_less_dividend)
    from less.hyps [OF this i32, of "out @ [digit_chr (nat \<bar>?r\<bar>)]"]
    obtain t where t: "itoa_loop ?q (int b) (out @ [digit_chr (nat \<bar>?r\<bar>)]) =
        Some (out @ digit_chr (nat \<bar>?r\<bar>) # digits_of b (nat \<bar>?q\<bar>), t)" "t < 0 \<longleftrightarrow> ?q < 0"
      by auto
    have "?q < 0 \<longleftrightarrow> v < 0" by (rule round(5) [OF False])
    moreover have "digits_of b (nat \<bar>v\<bar>) = digit_chr (nat \<bar>?r\<bar>) # digits_of b (nat \<bar>?q\<bar>)"
      using nb assms(1) by (simp add: digits_of.simps [of b "nat \<bar>v\<bar>"] ar aq)
    ultimately show ?thesis
      using t False idx i32 assms(1) by (auto simp: itoa_loop.simps [of v])
  qed
qed

text \<open>The swap loop reverses: after \<open>k\<close> rounds the outer \<open>k\<close> characters are exchanged.\<close>

lemma itoa_swap_rev:
  "i + j + 1 = length s0 \<Longrightarrow> length str = length s0 \<Longrightarrow> i \<le> j + 1 \<Longrightarrow>
   (\<forall>k < length s0. str ! k = (if k < i \<or> j < k then rev s0 ! k else s0 ! k)) \<Longrightarrow>
   itoa_swap str i j = rev s0"
proof (induction str i j rule: itoa_swap.induct)
  case (1 str i j)
  show ?case
  proof (cases "i < j")
    case True
    have "itoa_swap (str[j := str ! i, i := str ! j]) (i + 1) (j - 1) = rev s0"
    proof (rule "1.IH" [OF True])
      show "\<forall>k<length s0. str[j := str ! i, i := str ! j] ! k =
          (if k < i + 1 \<or> j - 1 < k then rev s0 ! k else s0 ! k)"
      proof (intro allI impI)
        fix k assume k: "k < length s0"
        have "length s0 - Suc i = j" "length s0 - Suc j = i" "i < length s0" "j < length s0"
          using "1.prems"(1) True by auto
        then have "rev s0 ! i = s0 ! j" "rev s0 ! j = s0 ! i"
          by (simp_all add: rev_nth)
        then show "str[j := str ! i, i := str ! j] ! k =
          (if k < i + 1 \<or> j - 1 < k then rev s0 ! k else s0 ! k)"
          using "1.prems" True k by (auto simp: nth_list_update)
      qed
    qed (use "1.prems" True in auto)
    with True show ?thesis by (simp add: itoa_swap.simps [of str i j])
  next
    case False
    have "str ! k = rev s0 ! k" if "k < length s0" for k
    proof (cases "k < i \<or> j < k")
      case False
      then have "k = i" "k = j" using \<open>\<not> i < j\<close> by auto
      then have "length s0 - Suc k = k" using "1.prems"(1) by auto
      then have "rev s0 ! k = s0 ! k" using that by (simp add: rev_nth)
      with "1.prems"(4) that show ?thesis by auto
    qed (use "1.prems"(4) that in auto)
    then have "str = rev s0" using "1.prems"(2) by (simp add: list_eq_iff_nth_eq)
    with False show ?thesis by (simp add: itoa_swap.simps [of "rev s0" i j])
  qed
qed

lemma itoa_swap_all: "itoa_swap s 0 (length s - 1) = rev s"
proof (cases s)
  case (Cons c cs)
  then show ?thesis by (intro itoa_swap_rev) auto
qed (simp add: itoa_swap.simps)

lemma itoa_digits:
  assumes "2 \<le> b" "b \<le> 36" "int32 v"
  shows "itoa v (int b) = Some ((if v < 0 then ''-'' else []) @ rev (digits_of b (nat \<bar>v\<bar>)))"
proof -
  obtain t where "itoa_loop v (int b) [] = Some ([] @ digits_of b (nat \<bar>v\<bar>), t)" "t < 0 \<longleftrightarrow> v < 0"
    using itoa_loop_digits [OF assms, of "[]"] by blast
  then show ?thesis
    using itoa_swap_all [of "digits_of b (nat \<bar>v\<bar>)"]
      itoa_swap_all [of "digits_of b (nat \<bar>v\<bar>) @ ''-''"]
    by (auto simp: itoa_def Let_def)
qed

lemma int32_sint [simp]: "int32 (sint (w :: u32))"
  using sint_greater_eq [of w] sint_less [of w] by (simp add: int32_def)

lemma itoaE_10: "itoaE v 10 = Inr ((if sint v < 0 then ''-'' else []) @ rev (digits_of 10 (nat \<bar>sint v\<bar>)))"
  using itoa_digits [of 10 "sint v"] by (simp add: itoaE_def)

section \<open>The digits of a number\<close>

lemma parse_nat_snoc: "parse_nat b (s @ [c]) = parse_nat b s * b + digit_val c"
  by (simp add: parse_nat_def)

lemma parse_digits_of: "2 \<le> b \<Longrightarrow> b \<le> 36 \<Longrightarrow> parse_nat b (rev (digits_of b n)) = n"
proof (induction b n rule: digits_of.induct)
  case (1 b n)
  show ?case
  proof (cases "n < b")
    case True
    with "1.prems" show ?thesis
      by (simp add: digits_of.simps [of b n] parse_nat_def digit_val_chr)
  next
    case False
    with 1 have "parse_nat b (rev (digits_of b (n div b))) = n div b" by simp
    moreover have "n mod b < 36"
      using "1.prems" by (intro less_le_trans [OF mod_less_divisor]) auto
    ultimately show ?thesis
      using False "1.prems"
      by (simp add: digits_of.simps [of b n] parse_nat_snoc digit_val_chr)
  qed
qed

lemma digits_of_nonempty [simp]: "digits_of b n \<noteq> []"
  by (subst digits_of.simps) simp

lemma digits_of_chars: "2 \<le> b \<Longrightarrow> b \<le> 36 \<Longrightarrow> c \<in> set (digits_of b n) \<Longrightarrow> \<exists>d<36. c = digit_chr d"
proof (induction b n rule: digits_of.induct)
  case (1 b n)
  have m: "n mod b < 36" using "1.prems" by (intro less_le_trans [OF mod_less_divisor]) auto
  show ?case
  proof (cases "n < b")
    case True
    with 1 show ?thesis by (auto simp: digits_of.simps [of b n] intro!: exI [of _ n])
  next
    case False
    with 1 m show ?thesis by (auto simp: digits_of.simps [of b n])
  qed
qed

lemma length_digits_of: "2 \<le> b \<Longrightarrow> n < b ^ Suc k \<Longrightarrow> length (digits_of b n) \<le> Suc k"
proof (induction k arbitrary: n)
  case 0
  then show ?case by (simp add: digits_of.simps [of b n])
next
  case (Suc k)
  show ?case
  proof (cases "n < b")
    case False
    have "n div b < b ^ Suc k"
      using Suc.prems by (simp add: less_mult_imp_div_less mult.commute)
    with Suc.IH Suc.prems(1) False show ?thesis by (simp add: digits_of.simps [of b n])
  qed (simp add: digits_of.simps [of b n])
qed

lemma parse_int_itoa:
  assumes "2 \<le> b" "b \<le> 36"
  shows "parse_int b ((if v < 0 then ''-'' else []) @ rev (digits_of b (nat \<bar>v\<bar>))) = v"
proof -
  let ?d = "rev (digits_of b (nat \<bar>v\<bar>))"
  have "hd ?d \<in> set (digits_of b (nat \<bar>v\<bar>))" by (metis digits_of_nonempty hd_in_set rev_is_Nil_conv set_rev)
  with digits_of_chars [OF assms] have "hd ?d \<noteq> CHR ''-''" using digit_chr_not_minus by metis
  then show ?thesis
    by (cases "v < 0") (auto simp: parse_int_def parse_digits_of [OF assms])
qed

section \<open>Hexadecimal\<close>

lemma hex_digit_val: "d < 16 \<Longrightarrow> digit_val (hex_digit d) = unat d"
proof -
  assume "d < 16"
  then have "unat d < 16" by (simp add: word_less_nat_alt)
  then show ?thesis
    by (auto simp: hex_digit_def digit_val_def Let_def word_less_nat_alt)
qed

lemma nibble_less: "(x :: u32) AND 0xF < 16"
  using word_and_le1 [of x "0xF"] by (rule le_less_trans) simp

lemma nibble_unat: "unat ((x :: u32) AND 0xF) = unat x mod 16"
proof -
  have "x AND 0xF = take_bit 4 x" by (simp add: take_bit_eq_mask mask_eq_exp_minus_1)
  then have "unat (x AND 0xF) = take_bit 4 (unat x)" by (simp only: unsigned_take_bit_eq)
  then show ?thesis by (simp only: take_bit_eq_mod) simp
qed

lemma hex_digit_table: "d < 16 \<Longrightarrow> hex_digits ! unat d = hex_digit d"
proof -
  have "\<forall>k \<in> set [0..<16]. hex_digits ! k = hex_digit (of_nat k)" by code_simp
  moreover assume "d < 16"
  then have "unat d \<in> set [0..<16]" by (simp add: word_less_nat_alt)
  ultimately have "hex_digits ! unat d = hex_digit (of_nat (unat d))" by blast
  then show ?thesis by simp
qed

lemma drop_bit_nibbles:
  "parse_nat 16 (map (\<lambda>i. hex_digit (drop_bit (28 - i * 4) n AND 0xF)) [0..<k])
     = unat n div 2 ^ (32 - 4 * k)" if "k \<le> 8" for n :: u32
  using that
proof (induction k)
  case 0
  have "unat n < 2 ^ 32" using unsigned_less [of n] by simp
  then show ?case by (simp add: parse_nat_def)
next
  case (Suc k)
  let ?e = "28 - 4 * k" and ?f = "\<lambda>i. hex_digit (drop_bit (28 - i * 4) n AND 0xF)"
  have e: "32 - 4 * k = ?e + 4" "32 - 4 * Suc k = ?e" using Suc.prems by auto
  have d: "digit_val (?f k) = unat n div 2 ^ ?e mod 16"
    by (simp add: hex_digit_val nibble_less nibble_unat unat_drop_bit_eq mult.commute
        drop_bit_eq_div [of _ "unat n"])
  have ih: "parse_nat 16 (map ?f [0..<k]) = unat n div 2 ^ (?e + 4)"
    unfolding e(1) [symmetric] by (rule Suc.IH) (use Suc.prems in simp)
  have "parse_nat 16 (map ?f [0..<Suc k]) = parse_nat 16 (map ?f [0..<k]) * 16 + digit_val (?f k)"
    by (simp add: parse_nat_snoc)
  also have "\<dots> = unat n div 2 ^ ?e"
    using div_mult_mod_eq [of "unat n div 2 ^ ?e" 16] unfolding ih d
    by (simp add: power_add div_mult2_eq)
  finally show ?case by (simp only: e)
qed

text \<open>The writes of the older loop, from the last digit backwards, one per round.\<close>

lemma old_hex_eq: "old_hex_to_str v = hex_to_str v"
proof -
  have nib: "hex_digits ! unat (x AND 0xF) = hex_digit (x AND 0xF)" for x :: u32
    by (rule hex_digit_table) (rule nibble_less)
  show ?thesis
    by (simp add: old_hex_to_str_def hex_to_str_def nib upt_rec_numeral numeral_eq_Suc)
qed

lemma sint_cases:
  "n < 0x80000000 \<and> 0 \<le> sint n \<and> sint n = int (unat n) \<or> \<not> n < (0x80000000 :: u32) \<and> sint n < 0"
proof -
  define k where "k = int (unat n)"
  have "unat n < 4294967296" using unsigned_less [of n] by simp
  then have k: "0 \<le> k" "k < 4294967296" "n < 0x80000000 \<longleftrightarrow> k < 2147483648"
    unfolding k_def word_less_nat_alt by linarith+ (simp del: of_nat_unat)
  have s: "sint n = (k + 2147483648) mod 4294967296 - 2147483648"
    by (simp add: k_def sint_uint signed_take_bit_eq_take_bit_shift take_bit_eq_mod)
  show ?thesis
  proof (cases "k < 2147483648")
    case True
    then have "(k + 2147483648) mod 4294967296 = k + 2147483648"
      using k by (intro mod_pos_pos_trivial) auto
    then show ?thesis using s True k by (simp add: k_def)
  next
    case False
    then have "(k + 2147483648) mod 4294967296 = k + 2147483648 - 4294967296"
      using k by (subst mod_pos_geq) (auto intro!: mod_pos_pos_trivial)
    then show ?thesis using s False k by simp
  qed
qed

section \<open>The older decimal printer\<close>

lemma int_to_str_loop_digits:
  "int_to_str_loop n temp = temp @ (if n = 0 then [] else digits_of 10 (unat n))"
proof (induction n temp rule: int_to_str_loop.induct)
  case (1 n temp)
  show ?case
  proof (cases "n = 0")
    case True
    then show ?thesis by (simp add: int_to_str_loop.simps)
  next
    case False
    then have n: "n > 0" by (simp add: word_neq_0_conv)
    have d: "unat (n div 10) = unat n div 10" "unat (n mod 10) = unat n mod 10"
      by (simp_all add: unat_div unat_mod)
    have c: "char_of (48 + unat n mod 10) = digit_chr (unat n mod 10)" by (simp add: digit_chr_def)
    have "int_to_str_loop n temp = int_to_str_loop (n div 10) (temp @ [digit_chr (unat n mod 10)])"
      using n by (simp add: int_to_str_loop.simps [of n] d c)
    also have "\<dots> = temp @ digit_chr (unat n mod 10) # (if n div 10 = 0 then [] else digits_of 10 (unat n div 10))"
      using "1.IH" [OF n] by (simp add: d c)
    also have "n div 10 = 0 \<longleftrightarrow> unat n < 10"
      by (metis d(1) div_eq_0_iff unat_0_iff zero_neq_numeral)
    finally show ?thesis using False by (auto simp: digits_of.simps [of 10 "unat n"])
  qed
qed

lemma int_to_str_digits: "int_to_str n = rev (digits_of 10 (unat n))"
proof (cases "n = 0")
  case True
  have "digits_of 10 0 = ''0''" by code_simp
  with True show ?thesis by (simp add: int_to_str_def)
next
  case False
  have "map (\<lambda>j. xs ! (length xs - j - 1)) [0..<length xs] = rev xs" for xs :: string
    by (rule nth_equalityI) (simp_all add: rev_nth)
  with False show ?thesis by (simp add: int_to_str_def int_to_str_loop_digits Let_def)
qed

section \<open>Properties\<close>

text \<open>
  C10. \<open>itoa\<close> prints what it is given: for every base from 2 to 36 and every \<open>int\<close> it terminates,
  stays inside its digit table, and the text it leaves reads back as the same number, sign
  included; in base 10 it fits the 12-byte buffers of its callers with its terminating NUL.
\<close>

theorem itoa_roundtrip:
  assumes "2 \<le> b" "b \<le> 36" "int32 v"
  shows "\<exists>str. itoa v (int b) = Some str \<and> parse_int b str = v \<and> (b = 10 \<longrightarrow> length str + 1 \<le> 12)"
proof -
  let ?s = "(if v < 0 then ''-'' else []) @ rev (digits_of b (nat \<bar>v\<bar>))"
  have "nat \<bar>v\<bar> < 10 ^ Suc 9" using assms(3) by (auto simp: int32_def)
  then have "length (digits_of 10 (nat \<bar>v\<bar>)) \<le> Suc 9" by (intro length_digits_of) simp_all
  then have "b = 10 \<longrightarrow> length ?s + 1 \<le> 12" by auto
  then show ?thesis using itoa_digits [OF assms] parse_int_itoa [OF assms(1,2)] by blast
qed

theorem itoa_roundtrip_witness:
  "\<exists>str. itoa (- 2147483648) 10 = Some str \<and> parse_int 10 str = - 2147483648"
  using itoa_roundtrip [of 10 "- 2147483648"] by (auto simp: int32_def)

text \<open>
  Hexadecimal printing: \<open>hex_to_str\<close> writes \<open>0x\<close> and eight digits that read back as the number,
  and the older version, which fills the buffer from the end, writes the same text.
\<close>

lemma hex_to_str_roundtrip:
  "take 2 (hex_to_str n) = ''0x'' \<and> length (hex_to_str n) = 10 \<and>
   parse_nat 16 (drop 2 (hex_to_str n)) = unat n \<and> old_hex_to_str n = hex_to_str n"
  using drop_bit_nibbles [of 8 n] by (simp add: old_hex_eq) (simp add: hex_to_str_def)

text \<open>
  The two decimal printers agree: on every number below 2147483648 the unsigned \<open>int_to_str\<close> of
  the old kernel and the signed \<open>itoa\<close> that replaced it write the same digits; from there on
  \<open>itoa\<close>, which \<open>kprintf\<close> also uses for \<open>%u\<close>, writes a negative number instead.
\<close>

lemma int_to_str_itoa:
  "parse_nat 10 (int_to_str n) = unat n \<and>
   (itoa (sint n) 10 = Some (int_to_str n) \<longleftrightarrow> n < 0x80000000) \<and>
   (n \<ge> 0x80000000 \<longrightarrow> (\<exists>str. itoa (sint n) 10 = Some (CHR ''-'' # str)))"
proof -
  have s: "sint n < 0 \<longleftrightarrow> \<not> n < 0x80000000" "n < 0x80000000 \<Longrightarrow> sint n = int (unat n)"
    using sint_cases [of n] by auto
  have p: "parse_nat 10 (int_to_str n) = unat n" by (simp add: int_to_str_digits parse_digits_of)
  have i: "itoa (sint n) 10 = Some ((if sint n < 0 then ''-'' else []) @ rev (digits_of 10 (nat \<bar>sint n\<bar>)))"
    using itoa_digits [of 10 "sint n"] by simp
  have "hd (int_to_str n) \<noteq> CHR ''-''"
  proof -
    have "hd (int_to_str n) \<in> set (digits_of 10 (unat n))"
      unfolding int_to_str_digits by (metis digits_of_nonempty hd_in_set rev_is_Nil_conv set_rev)
    then show ?thesis using digits_of_chars [of 10] digit_chr_not_minus by force
  qed
  then have ne: "rev (digits_of 10 (unat n)) \<noteq> CHR ''-'' # x" for x
    unfolding int_to_str_digits by (metis list.sel(1))
  show ?thesis
  proof (cases "n < 0x80000000")
    case True
    then have "\<not> n \<ge> 0x80000000" by (simp only: not_le)
    then show ?thesis using True s i p by (simp add: int_to_str_digits)
  next
    case False
    have m: "itoa (sint n) 10 = Some (CHR ''-'' # rev (digits_of 10 (nat \<bar>sint n\<bar>)))"
      using s(1) False i by simp
    then have "itoa (sint n) 10 \<noteq> Some (int_to_str n)" using ne by (metis int_to_str_digits option.inject)
    with m False p show ?thesis by blast
  qed
qed

end
