(* ===== verification/Frame_Allocator.thy ===== *)
theory Frame_Allocator
  imports Prelude
begin

text \<open>
  The contract of a physical frame allocator, as its clients (page tables, heap, page-fault
  handler) use it: which frames it manages, which of them are handed out, and what one
  allocation and one release change.  An allocation that finds nothing returns the address 0,
  as both allocators of the repository do.
\<close>

primrec alloc_many :: "('s \<Rightarrow> 'e + u32 \<times> 's) \<Rightarrow> nat \<Rightarrow> 's \<Rightarrow> 'e + u32 list \<times> 's" where
  "alloc_many alloc 0 s = Inr ([], s)"
| "alloc_many alloc (Suc n) s =
     bindE (alloc s) (\<lambda>(p, s). bindE (alloc_many alloc n s) (\<lambda>(ps, s). Inr (p # ps, s)))"

locale frame_allocator =
  fixes inv :: "'s \<Rightarrow> bool"
    and pool :: "'s \<Rightarrow> u32 set"
    and owned :: "'s \<Rightarrow> u32 set"
    and alloc :: "'s \<Rightarrow> 'e + u32 \<times> 's"
    and free :: "u32 \<Rightarrow> 's \<Rightarrow> 'e + 's"
  assumes owned_pool: "inv s \<Longrightarrow> owned s \<subseteq> pool s"
    and pool_nonzero: "inv s \<Longrightarrow> 0 \<notin> pool s"
    and alloc_fresh: "inv s \<Longrightarrow> owned s \<noteq> pool s \<Longrightarrow>
      \<exists>p s'. alloc s = Inr (p, s') \<and> inv s' \<and> p \<in> pool s - owned s \<and>
        owned s' = insert p (owned s) \<and> pool s' = pool s"
    and alloc_exhausted: "inv s \<Longrightarrow> owned s = pool s \<Longrightarrow>
      \<exists>s'. alloc s = Inr (0, s') \<and> inv s' \<and> owned s' = owned s \<and> pool s' = pool s"
    and free_owned: "inv s \<Longrightarrow> p \<in> owned s \<Longrightarrow>
      \<exists>s'. free p s = Inr s' \<and> inv s' \<and> owned s' = owned s - {p} \<and> pool s' = pool s"
begin

lemma free_count: "inv s \<Longrightarrow> owned s \<noteq> pool s \<longleftrightarrow> 0 < card (pool s - owned s)"
  using owned_pool [of s] by (auto simp: card_gt_0_iff)

text \<open>The result 0 means exactly that every managed frame is handed out.\<close>

lemma alloc_zero_iff: "inv s \<Longrightarrow> alloc s = Inr (p, s') \<Longrightarrow> p = 0 \<longleftrightarrow> owned s = pool s"
  using alloc_fresh [of s] alloc_exhausted [of s] pool_nonzero [of s] by fastforce

lemma alloc_inv: "inv s \<Longrightarrow> alloc s = Inr (p, s') \<Longrightarrow> inv s'"
  using alloc_fresh [of s] alloc_exhausted [of s] by fastforce

text \<open>Releasing a frame makes the next allocation succeed.\<close>

lemma alloc_after_free:
  assumes "inv s" "p \<in> owned s"
  shows "\<exists>s1 q s2. free p s = Inr s1 \<and> alloc s1 = Inr (q, s2) \<and> q \<noteq> 0 \<and> inv s2"
proof -
  obtain s1 where s1: "free p s = Inr s1" "inv s1" "owned s1 = owned s - {p}" "pool s1 = pool s"
    using free_owned [OF assms] by blast
  then have "owned s1 \<noteq> pool s1" using assms owned_pool [OF assms(1)] by auto
  then obtain q s2 where "alloc s1 = Inr (q, s2)" "inv s2" "q \<in> pool s1"
    using alloc_fresh [OF s1(2)] by blast
  with s1 pool_nonzero show ?thesis by metis
qed

text \<open>Allocating and releasing a frame leaves the set of frames in use as it was.\<close>

lemma free_alloc:
  assumes "inv s" "alloc s = Inr (p, s')" "p \<noteq> 0"
  shows "\<exists>s''. free p s' = Inr s'' \<and> inv s'' \<and> owned s'' = owned s \<and> pool s'' = pool s"
proof -
  have "owned s \<noteq> pool s" using alloc_zero_iff assms by blast
  then have s': "inv s'" "p \<notin> owned s" "owned s' = insert p (owned s)" "pool s' = pool s"
    using alloc_fresh [OF assms(1)] assms(2) by fastforce+
  then obtain s'' where "free p s' = Inr s''" "inv s''" "owned s'' = owned s' - {p}" "pool s'' = pool s'"
    using free_owned [of s' p] by auto
  with s' show ?thesis by auto
qed

text \<open>As many allocations as there are free frames succeed, on pairwise distinct frames.\<close>

lemma alloc_many_distinct:
  "inv s \<Longrightarrow> n \<le> card (pool s - owned s) \<Longrightarrow>
   \<exists>ps s'. alloc_many alloc n s = Inr (ps, s') \<and> length ps = n \<and> distinct ps \<and>
     set ps \<subseteq> pool s - owned s \<and> inv s' \<and> owned s' = owned s \<union> set ps \<and> pool s' = pool s"
proof (induction n arbitrary: s)
  case 0
  then show ?case by auto
next
  case (Suc n)
  then have "owned s \<noteq> pool s" by auto
  then obtain p s1 where s1: "alloc s = Inr (p, s1)" "inv s1" "p \<in> pool s - owned s"
      "owned s1 = insert p (owned s)" "pool s1 = pool s"
    using alloc_fresh [OF Suc.prems(1)] by blast
  have "pool s1 - owned s1 = (pool s - owned s) - {p}" using s1 by auto
  then have "card (pool s1 - owned s1) = card (pool s - owned s) - 1"
    using s1(3) by (simp add: card_Diff_singleton)
  with Suc.prems(2) have "n \<le> card (pool s1 - owned s1)" by linarith
  then obtain ps s' where "alloc_many alloc n s1 = Inr (ps, s')" "length ps = n" "distinct ps"
     "set ps \<subseteq> pool s1 - owned s1" "inv s'" "owned s' = owned s1 \<union> set ps" "pool s' = pool s1"
    using Suc.IH [OF s1(2)] by blast
  with s1 show ?case by auto
qed

text \<open>Once the frames are gone every further allocation returns 0 and changes nothing.\<close>

lemma alloc_many_exhausted:
  "inv s \<Longrightarrow> owned s = pool s \<Longrightarrow>
   \<exists>s'. alloc_many alloc n s = Inr (replicate n 0, s') \<and> inv s' \<and> owned s' = owned s \<and> pool s' = pool s"
proof (induction n arbitrary: s)
  case 0
  then show ?case by auto
next
  case (Suc n)
  obtain s1 where s1: "alloc s = Inr (0, s1)" "inv s1" "owned s1 = owned s" "pool s1 = pool s"
    using alloc_exhausted [OF Suc.prems] by blast
  then obtain s' where "alloc_many alloc n s1 = Inr (replicate n 0, s')" "inv s'"
      "owned s' = owned s1" "pool s' = pool s1"
    using Suc.IH [of s1] Suc.prems by auto
  with s1 show ?case by auto
qed

end

end
