(* ===== verification/PMM.thy ===== *)
theory PMM
  imports Utils Frame_Allocator
begin

text \<open>
  \<open>Kernel/src/Include/PMM.c\<close>: the physical page allocator.  One byte per page frame at
  \<open>BITMAP_START\<close> says whether the frame is in use; allocation scans from the last allocated
  index to the end and then from frame 4096 up to where it started.  The bitmap is RAM, so
  its accesses go through the memory of \<open>Machine\<close>, and a client that writes into it is seen.
\<close>

section \<open>State and operations\<close>

record pmm = cpu +
  bitmap :: u32
  total_pages :: u32
  used_pages :: u32
  last_alloc_index :: u32

definition pmm_init :: "u32 \<Rightarrow> 'a pmm_scheme \<Rightarrow> fault + 'a pmm_scheme" where
  "pmm_init total_mem s =
     (let s = s\<lparr>total_pages := (total_mem * 1024 * 1024) div PAGE_SIZE\<rparr>;
          s = s\<lparr>bitmap := BITMAP_START\<rparr>
      in bindE (foldE (\<lambda>i s. st8 (bitmap s + of_nat i) 0 s) [0..<unat (total_pages s)] s) (\<lambda>s.
         let kernel_pages = KERNEL_END div PAGE_SIZE;
             s = emit (Print ''[INFO] [PMM] RESERVING '') s
         in bindE (itoaE kernel_pages 10) (\<lambda>buf.
         let s = emit (Printc LF) (emit (Printc CR) (emit (Print '' FOR KERNEL'') (emit (Print buf) s)))
         in bindE (foldE (\<lambda>i s. st8 (bitmap s + of_nat i) 1 s) [0..<unat kernel_pages] s) (\<lambda>s.
         let s = s\<lparr>used_pages := kernel_pages\<rparr>;
             s = emit (Print ''[INFO] [PMM] Used Pages: '') (emit (Printl ''[INFO] [PMM] Ready'') s)
         in bindE (itoaE (used_pages s) 10) (\<lambda>buf.
         Inr (emit (Printc LF) (emit (Printc CR) (emit (Print buf) s))))))))"

text \<open>The scan of one \<open>for\<close> loop of \<open>alloc_page\<close>: the first free index in \<open>[i, n)\<close>.\<close>

function alloc_scan :: "u32 \<Rightarrow> u32 \<Rightarrow> 'a pmm_scheme \<Rightarrow> fault + u32 option" where
  "alloc_scan i n s =
     (if i < n then bindE (ld8 (bitmap s + i) s) (\<lambda>b. if b = 0 then Inr (Some i) else alloc_scan (i + 1) n s)
      else Inr None)"
  by pat_completeness auto
termination
  by (relation "measure (\<lambda>(i, n, s). unat n - unat i)") (auto simp: word_Suc_less word_less_nat_alt)

declare alloc_scan.simps [simp del]

definition alloc_take :: "u32 \<Rightarrow> 'a pmm_scheme \<Rightarrow> fault + 'a pmm_scheme" where
  "alloc_take i s =
     bindE (st8 (bitmap s + i) 1 s) (\<lambda>s.
     let s = s\<lparr>used_pages := used_pages s + 1\<rparr>;
         s = s\<lparr>last_alloc_index := i + 1\<rparr>
     in Inr (if last_alloc_index s \<ge> total_pages s then s\<lparr>last_alloc_index := 4096\<rparr> else s))"

definition alloc_page :: "'a pmm_scheme \<Rightarrow> fault + u32 \<times> 'a pmm_scheme" where
  "alloc_page s =
     (let start = last_alloc_index s in
      bindE (alloc_scan start (total_pages s) s) (\<lambda>r. case r of
        Some i \<Rightarrow> bindE (alloc_take i s) (\<lambda>s.
          let addr = i * PAGE_SIZE
          in Inr (addr, emit (Kprintf (''[INFO] [PMM] Allocated: i=%d, addr=%x, new_used=%d, new_last_idx=%d'' @ crlf)
               [ArgW i, ArgW addr, ArgW (used_pages s), ArgW (last_alloc_index s)]) s))
      | None \<Rightarrow> bindE (alloc_scan 4096 start s) (\<lambda>r. case r of
          Some i \<Rightarrow> bindE (alloc_take i s) (\<lambda>s. Inr (i * PAGE_SIZE, s))
        | None \<Rightarrow> Inr (0, emit (Printl ''[ERROR] [PMM] OUT OF MEMORY - NO FREE PAGES'') s))))"

definition pmm_free_page :: "u32 \<Rightarrow> 'a pmm_scheme \<Rightarrow> fault + 'a pmm_scheme" where
  "pmm_free_page physical_addr s =
     (let page_index = physical_addr div PAGE_SIZE in
      if page_index < 4096 then Inr (emit (Printl ''[ERROR] [PMM] CANNOT FREE KERNEL PAGES'') s)
      else bindE (ld8 (bitmap s + page_index) s) (\<lambda>b.
        bindE (if b = 1
               then bindE (st8 (bitmap s + page_index) 0 s) (\<lambda>s. Inr (s\<lparr>used_pages := used_pages s - 1\<rparr>))
               else Inr s) (\<lambda>s.
        Inr (if page_index < last_alloc_index s then s\<lparr>last_alloc_index := page_index\<rparr> else s))))"

definition pmm_test :: "'a pmm_scheme \<Rightarrow> fault + 'a pmm_scheme" where
  "pmm_test s =
     (let s = emit (Printl ''[INFO] [PMM] PMM TEST'') s in
      bindE (alloc_page s) (\<lambda>(p1, s). bindE (alloc_page s) (\<lambda>(p2, s). bindE (alloc_page s) (\<lambda>(p3, s).
      let s = emit (Kprintf (''[INFO] [PMM] Allocated: %x '' @ crlf) [ArgW p1]) s;
          s = emit (Kprintf (''[INFO] [PMM] Allocated: %x '' @ crlf) [ArgW p2]) s;
          s = emit (Kprintf (''[INFO] [PMM] Allocated: %x '' @ crlf) [ArgW p3]) s;
          s = emit (Printl ''[INFO] [PMM] Freeing Middle Page'') s;
          s = emit (Kprintf (''[INFO] [PMM] Freeing: %x '' @ crlf) [ArgW p2]) s
      in bindE (pmm_free_page p2 s) (\<lambda>s.
      let s = emit (Printl ''[INFO] [PMM] Allocating Middle Page'') s in
      bindE (alloc_page s) (\<lambda>(p4, s).
      let s = emit (Kprintf (''[INFO] [PMM] Allocated: %x '' @ crlf) [ArgW p4]) s
      in Inr (emit (Kprintf (''[INFO] [PMM] Should Be: %x '' @ crlf) [ArgW p2]) s)))))))"

lemma emit_pmm [simp]:
  "bitmap (emit e s) = bitmap s" "total_pages (emit e s) = total_pages s"
  "used_pages (emit e s) = used_pages s" "last_alloc_index (emit e s) = last_alloc_index s"
  "pmm.more (emit e s) = pmm.more s"
  by (simp_all add: emit_def)

lemma paging_pmm [simp]:
  "paging (s\<lparr>bitmap := b\<rparr>) = paging s" "paging (s\<lparr>total_pages := b\<rparr>) = paging s"
  "paging (s\<lparr>used_pages := b\<rparr>) = paging s" "paging (s\<lparr>last_alloc_index := b\<rparr>) = paging s"
  by (simp_all add: paging_def)

section \<open>Invariant and accounting\<close>

text \<open>
  The state of an initialised allocator before paging is on: the indices in range, one byte 0
  or 1 per frame, and \<open>used_pages\<close> the kernel's 4096 frames plus the frames handed out.
\<close>

definition used_set :: "'a pmm_scheme \<Rightarrow> u32 set" where
  "used_set s = {i. 4096 \<le> i \<and> i < total_pages s \<and> ram s (bitmap s + i) \<noteq> 0}"

definition pmm_inv :: "'a pmm_scheme \<Rightarrow> bool" where
  "pmm_inv s \<longleftrightarrow> \<not> paging s \<and> bitmap s = BITMAP_START \<and> total_pages s \<le> 0x100000 \<and>
     4096 \<le> last_alloc_index s \<and> (last_alloc_index s < total_pages s \<or> last_alloc_index s = 4096) \<and>
     (\<forall>i. 4096 \<le> i \<and> i < total_pages s \<longrightarrow> ram s (bitmap s + i) \<in> {0, 1}) \<and>
     unat (used_pages s) = 4096 + card (used_set s)"

definition frame_pool :: "'a pmm_scheme \<Rightarrow> u32 set" where
  "frame_pool s = (\<lambda>i. i * PAGE_SIZE) ` {i. 4096 \<le> i \<and> i < total_pages s}"

definition frame_owned :: "'a pmm_scheme \<Rightarrow> u32 set" where
  "frame_owned s = (\<lambda>i. i * PAGE_SIZE) ` used_set s"

definition alloc_effect :: "u32 \<Rightarrow> event list \<Rightarrow> 'a pmm_scheme \<Rightarrow> 'a pmm_scheme" where
  "alloc_effect k t s = s\<lparr>ram := (ram s)(bitmap s + k := 1), used_pages := used_pages s + 1,
     last_alloc_index := (if k + 1 \<ge> total_pages s then 4096 else k + 1), trace := trace s @ t\<rparr>"

lemma alloc_effect_simps [simp]:
  "ram (alloc_effect k t s) = (ram s)(bitmap s + k := 1)" "cr0 (alloc_effect k t s) = cr0 s"
  "cr3 (alloc_effect k t s) = cr3 s" "bitmap (alloc_effect k t s) = bitmap s"
  "total_pages (alloc_effect k t s) = total_pages s"
  "used_pages (alloc_effect k t s) = used_pages s + 1"
  "last_alloc_index (alloc_effect k t s) = (if k + 1 \<ge> total_pages s then 4096 else k + 1)"
  "pmm.more (alloc_effect k t s) = pmm.more s" "paging (alloc_effect k t s) = paging s"
  "trace (alloc_effect k t s) = trace s @ t"
  by (simp_all add: alloc_effect_def)

lemma unat_page: "i < 0x100000 \<Longrightarrow> unat (i * PAGE_SIZE) = unat i * 4096"
  unfolding PAGE_SIZE_def by (subst unat_mult_lem [THEN iffD1]) (auto simp: word_less_nat_alt)

lemma page_div: "i < 0x100000 \<Longrightarrow> i * PAGE_SIZE div PAGE_SIZE = i"
  unfolding PAGE_SIZE_def by (rule word_div_mult) (auto simp: word_less_nat_alt)

lemma page_inj: "inj_on (\<lambda>i. i * PAGE_SIZE) {i. i < 0x100000}"
  by (rule inj_onI) (metis page_div mem_Collect_eq)

lemma page_nonzero: "4096 \<le> i \<Longrightarrow> i < 0x100000 \<Longrightarrow> i * PAGE_SIZE \<noteq> 0"
  using unat_page [of i] by (auto simp: word_le_nat_alt)

section \<open>Allocation\<close>

lemma alloc_scan_spec:
  "\<not> paging s \<Longrightarrow>
   (alloc_scan i n s = Inr None \<and> (\<forall>j. i \<le> j \<and> j < n \<longrightarrow> ram s (bitmap s + j) \<noteq> 0)) \<or>
   (\<exists>k. alloc_scan i n s = Inr (Some k) \<and> i \<le> k \<and> k < n \<and> ram s (bitmap s + k) = 0 \<and>
      (\<forall>j. i \<le> j \<and> j < k \<longrightarrow> ram s (bitmap s + j) \<noteq> 0))"
proof (induction i n s rule: alloc_scan.induct)
  case (1 i n s)
  show ?case
  proof (cases "i < n \<and> ram s (bitmap s + i) \<noteq> 0")
    case True
    have step: "i \<le> j \<longleftrightarrow> j = i \<or> i + 1 \<le> j" for j
      using True word_inc_le_iff [of i n j] by (auto simp: le_less)
    have "alloc_scan i n s = alloc_scan (i + 1) n s"
      using True "1.prems" by (simp add: alloc_scan.simps [of i] run_simps)
    then show ?thesis
      using "1.IH" [of "ram s (bitmap s + i)"] True "1.prems" by (simp add: step run_simps) auto
  next
    case False
    then show ?thesis
      using "1.prems" by (cases "i < n") (auto simp: alloc_scan.simps [of i] run_simps)
  qed
qed

lemma alloc_take_direct:
  "\<not> paging s \<Longrightarrow> alloc_take i s = Inr (alloc_effect i [] s)"
  by (simp add: alloc_take_def run_simps alloc_effect_def Let_def)

lemma emit_alloc_effect: "emit e (alloc_effect k t s) = alloc_effect k (t @ [e]) s"
  by (simp add: emit_def alloc_effect_def)

text \<open>
  The three outcomes of \<open>alloc_page\<close>: the first free frame from the last index on, else the
  first free frame from 4096 on, else 0 with nothing but the message.
\<close>

lemma alloc_page_cases [consumes 1, case_names upper lower none]:
  assumes "\<not> paging s"
  obtains (upper) k t where "alloc_page s = Inr (k * PAGE_SIZE, alloc_effect k t s)"
      "last_alloc_index s \<le> k" "k < total_pages s" "ram s (bitmap s + k) = 0"
      "\<forall>j. last_alloc_index s \<le> j \<and> j < k \<longrightarrow> ram s (bitmap s + j) \<noteq> 0"
  | (lower) k t where "alloc_page s = Inr (k * PAGE_SIZE, alloc_effect k t s)"
      "\<forall>j. last_alloc_index s \<le> j \<and> j < total_pages s \<longrightarrow> ram s (bitmap s + j) \<noteq> 0"
      "4096 \<le> k" "k < last_alloc_index s" "ram s (bitmap s + k) = 0"
      "\<forall>j. 4096 \<le> j \<and> j < k \<longrightarrow> ram s (bitmap s + j) \<noteq> 0"
  | (none) e where "alloc_page s = Inr (0, emit e s)"
      "\<forall>j. last_alloc_index s \<le> j \<and> j < total_pages s \<longrightarrow> ram s (bitmap s + j) \<noteq> 0"
      "\<forall>j. 4096 \<le> j \<and> j < last_alloc_index s \<longrightarrow> ram s (bitmap s + j) \<noteq> 0"
  using alloc_scan_spec [OF assms, of "last_alloc_index s" "total_pages s"]
    alloc_scan_spec [OF assms, of 4096 "last_alloc_index s"]
  by (auto simp: alloc_page_def Let_def alloc_take_direct [OF assms] emit_alloc_effect
      intro: upper lower none)

lemma card_below: "card {i :: u32. i < n} \<le> unat n"
proof -
  have "{i. i < n} \<subseteq> of_nat ` {..<unat n}"
  proof
    fix i assume "i \<in> {i. i < n}"
    then show "i \<in> of_nat ` {..<unat n}"
      by (intro image_eqI [of _ _ "unat i"]) (auto simp: word_less_nat_alt)
  qed
  then have "card {i. i < n} \<le> card (of_nat ` {..<unat n} :: u32 set)"
    by (intro card_mono) auto
  also have "\<dots> \<le> unat n" using card_image_le [of "{..<unat n}"] by simp
  finally show ?thesis .
qed

lemma used_bound: "total_pages s \<le> 0x100000 \<Longrightarrow> card (used_set s) \<le> 0x100000"
proof -
  assume a: "total_pages s \<le> 0x100000"
  have "card (used_set s) \<le> card {i :: u32. i < 0x100000}"
    using a by (intro card_mono) (auto simp: used_set_def)
  also have "\<dots> \<le> 0x100000" using card_below [of "0x100000"] by simp
  finally show ?thesis .
qed

lemma used_set_alloc:
  "4096 \<le> k \<Longrightarrow> k < total_pages s \<Longrightarrow> used_set (alloc_effect k t s) = insert k (used_set s)"
  by (auto simp: used_set_def)

lemma used_set_emit [simp]: "used_set (emit e s) = used_set s"
  by (simp add: used_set_def)

lemma pmm_inv_emit [simp]: "pmm_inv (emit e s) = pmm_inv s"
  by (simp add: pmm_inv_def)

lemma frames_emit [simp]:
  "frame_pool (emit e s) = frame_pool s" "frame_owned (emit e s) = frame_owned s"
  by (simp_all add: frame_pool_def frame_owned_def)

lemma next_index: "4096 \<le> k \<Longrightarrow> k < n \<Longrightarrow> 4096 \<le> k + 1" for k :: u32
  by (simp add: word_le_nat_alt word_Suc_less)

lemma alloc_effect_inv:
  assumes "pmm_inv s" "4096 \<le> k" "k < total_pages s" "ram s (bitmap s + k) = 0"
  shows "pmm_inv (alloc_effect k t s)"
proof -
  have "k \<notin> used_set s" using assms(4) by (simp add: used_set_def)
  then have "card (used_set (alloc_effect k t s)) = Suc (card (used_set s))"
    by (simp add: used_set_alloc [OF assms(2,3)])
  moreover have "unat (used_pages s + 1) = Suc (unat (used_pages s))"
    using assms(1) used_bound [of s] by (simp add: pmm_inv_def unat_word_ariths)
  ultimately show ?thesis
    using assms next_index [OF assms(2,3)] by (auto simp: pmm_inv_def not_le)
qed

lemma alloc_effect_frames:
  "4096 \<le> k \<Longrightarrow> k < total_pages s \<Longrightarrow> frame_owned (alloc_effect k t s) = insert (k * PAGE_SIZE) (frame_owned s)"
  "frame_pool (alloc_effect k t s) = frame_pool s"
  by (simp_all add: frame_owned_def frame_pool_def used_set_alloc)

lemma used_set_small: "pmm_inv s \<Longrightarrow> i \<in> used_set s \<Longrightarrow> i < 0x100000"
  by (auto simp: used_set_def pmm_inv_def)

lemma owned_page_iff:
  assumes "pmm_inv s" "i < 0x100000"
  shows "i * PAGE_SIZE \<in> frame_owned s \<longleftrightarrow> i \<in> used_set s"
  using assms used_set_small [OF assms(1)] page_inj
  by (auto simp: frame_owned_def dest: inj_onD)

lemma all_used_iff:
  assumes "pmm_inv s"
  shows "frame_owned s = frame_pool s \<longleftrightarrow> (\<forall>i. 4096 \<le> i \<and> i < total_pages s \<longrightarrow> ram s (bitmap s + i) \<noteq> 0)"
proof -
  let ?P = "{i. 4096 \<le> i \<and> i < total_pages s}"
  have "?P \<subseteq> {i. i < 0x100000}" "used_set s \<subseteq> {i. i < 0x100000}"
    using assms by (auto simp: pmm_inv_def used_set_def)
  then have "frame_owned s = frame_pool s \<longleftrightarrow> used_set s = ?P"
    unfolding frame_owned_def frame_pool_def by (rule inj_on_image_eq_iff [OF page_inj, rotated])
  then show ?thesis by (auto simp: used_set_def)
qed

lemma managed_small: "pmm_inv s \<Longrightarrow> k < total_pages s \<Longrightarrow> k < 0x100000"
  by (auto simp: pmm_inv_def)

text \<open>One allocation, over the invariant: a frame that was free, or 0 when there is none.\<close>

lemma alloc_page_inv_cases [consumes 1, case_names fresh full]:
  assumes "pmm_inv s"
  obtains (fresh) k t where "alloc_page s = Inr (k * PAGE_SIZE, alloc_effect k t s)" "4096 \<le> k"
      "k < total_pages s" "ram s (bitmap s + k) = 0" "pmm_inv (alloc_effect k t s)"
  | (full) e where "alloc_page s = Inr (0, emit e s)" "frame_owned s = frame_pool s"
proof -
  have p: "\<not> paging s" using assms by (simp add: pmm_inv_def)
  from p show thesis
  proof (cases rule: alloc_page_cases)
    case (upper k t)
    then have "4096 \<le> k" using assms by (auto simp: pmm_inv_def)
    with upper show thesis using fresh alloc_effect_inv [OF assms] by blast
  next
    case (lower k t)
    then have "k < total_pages s" using assms by (auto simp: pmm_inv_def)
    with lower show thesis using fresh alloc_effect_inv [OF assms] by blast
  next
    case (none e)
    then have "frame_owned s = frame_pool s"
      unfolding all_used_iff [OF assms] by (meson not_le)
    with none show thesis using full by blast
  qed
qed

section \<open>Release\<close>

definition free_effect :: "u32 \<Rightarrow> 'a pmm_scheme \<Rightarrow> 'a pmm_scheme" where
  "free_effect k s = s\<lparr>ram := (ram s)(bitmap s + k := 0), used_pages := used_pages s - 1,
     last_alloc_index := min k (last_alloc_index s)\<rparr>"

lemma free_effect_simps [simp]:
  "ram (free_effect k s) = (ram s)(bitmap s + k := 0)" "cr0 (free_effect k s) = cr0 s"
  "cr3 (free_effect k s) = cr3 s" "bitmap (free_effect k s) = bitmap s"
  "total_pages (free_effect k s) = total_pages s" "used_pages (free_effect k s) = used_pages s - 1"
  "last_alloc_index (free_effect k s) = min k (last_alloc_index s)"
  "pmm.more (free_effect k s) = pmm.more s" "paging (free_effect k s) = paging s"
  "trace (free_effect k s) = trace s"
  by (simp_all add: free_effect_def paging_def)

lemma free_page_used:
  assumes "pmm_inv s" "k \<in> used_set s"
  shows "pmm_free_page (k * PAGE_SIZE) s = Inr (free_effect k s)"
proof -
  have k: "4096 \<le> k" "k < total_pages s" "ram s (bitmap s + k) \<noteq> 0" "k < 0x100000"
    using assms used_set_small by (auto simp: used_set_def)
  then have "ram s (bitmap s + k) = 1" using assms(1) by (auto simp: pmm_inv_def)
  moreover have "\<not> paging s" using assms(1) by (simp add: pmm_inv_def)
  ultimately show ?thesis
    using k by (simp add: pmm_free_page_def page_div run_simps free_effect_def min_def Let_def)
qed

lemma used_set_free: "used_set (free_effect k s) = used_set s - {k}"
  by (auto simp: used_set_def)

lemma used_set_clear: "used_set (s\<lparr>ram := (ram s)(bitmap s + k := 0)\<rparr>) = used_set s - {k}"
  by (auto simp: used_set_def)

lemma free_effect_inv:
  assumes "pmm_inv s" "k \<in> used_set s"
  shows "pmm_inv (free_effect k s)"
proof -
  have k: "4096 \<le> k" "k < total_pages s" using assms by (auto simp: used_set_def)
  have "0 < card (used_set s)" using assms(2) by (auto simp: card_gt_0_iff)
  moreover have "unat (used_pages s) = 4096 + card (used_set s)" using assms(1) by (simp add: pmm_inv_def)
  ultimately have "unat (used_pages s - 1) = 4096 + card (used_set s - {k})"
    using assms(2) by (simp add: card_Diff_singleton unat_sub_if')
  then show ?thesis
    using assms k by (auto simp: pmm_inv_def used_set_free min_def)
qed

lemma free_effect_frames:
  assumes "pmm_inv s" "k \<in> used_set s"
  shows "frame_owned (free_effect k s) = frame_owned s - {k * PAGE_SIZE}"
    and "frame_pool (free_effect k s) = frame_pool s"
proof -
  have "used_set s \<subseteq> {i. i < 0x100000}" using used_set_small [OF assms(1)] by auto
  then show "frame_owned (free_effect k s) = frame_owned s - {k * PAGE_SIZE}"
    unfolding frame_owned_def used_set_free
    using inj_on_image_set_diff [OF page_inj, of "used_set s" "{k}"] assms(2) by auto
qed (simp add: frame_pool_def)

section \<open>The allocator meets the contract\<close>

lemma pmm_alloc_fresh:
  assumes "pmm_inv s" "frame_owned s \<noteq> frame_pool s"
  shows "\<exists>p s'. alloc_page s = Inr (p, s') \<and> pmm_inv s' \<and> p \<in> frame_pool s - frame_owned s \<and>
        frame_owned s' = insert p (frame_owned s) \<and> frame_pool s' = frame_pool s"
  using assms(1)
proof (cases rule: alloc_page_inv_cases)
  case (fresh k t)
  then have "k * PAGE_SIZE \<in> frame_pool s" by (auto simp: frame_pool_def)
  moreover have "k * PAGE_SIZE \<notin> frame_owned s"
    using fresh owned_page_iff [OF assms(1) managed_small [OF assms(1)]] by (simp add: used_set_def)
  ultimately show ?thesis using fresh alloc_effect_frames by blast
qed (use assms(2) in simp)

lemma pmm_alloc_exhausted:
  assumes "pmm_inv s" "frame_owned s = frame_pool s"
  shows "\<exists>s'. alloc_page s = Inr (0, s') \<and> pmm_inv s' \<and> frame_owned s' = frame_owned s \<and>
    frame_pool s' = frame_pool s"
  using assms(1)
proof (cases rule: alloc_page_inv_cases)
  case (fresh k t)
  then show ?thesis using assms(2) all_used_iff [OF assms(1)] by blast
qed (use assms(1) in simp)

lemma pmm_free_owned:
  assumes "pmm_inv s" "p \<in> frame_owned s"
  shows "\<exists>s'. pmm_free_page p s = Inr s' \<and> pmm_inv s' \<and> frame_owned s' = frame_owned s - {p} \<and>
    frame_pool s' = frame_pool s"
proof -
  obtain k where "k \<in> used_set s" "p = k * PAGE_SIZE" using assms(2) by (auto simp: frame_owned_def)
  then show ?thesis
    using free_page_used [OF assms(1)] free_effect_inv [OF assms(1)] free_effect_frames [OF assms(1)]
    by blast
qed

interpretation frames: frame_allocator pmm_inv frame_pool frame_owned alloc_page pmm_free_page
proof unfold_locales
  show "frame_owned s \<subseteq> frame_pool s" for s :: "'a pmm_scheme"
    by (auto simp: frame_owned_def frame_pool_def used_set_def)
  show "0 \<notin> frame_pool s" if "pmm_inv s" for s :: "'a pmm_scheme"
    using that page_nonzero by (auto simp: frame_pool_def pmm_inv_def)
qed (fact pmm_alloc_fresh pmm_alloc_exhausted pmm_free_owned)+

section \<open>The frame at the index\<close>

definition alloc_msg :: "u32 \<Rightarrow> 'a pmm_scheme \<Rightarrow> event" where
  "alloc_msg k s = Kprintf (''[INFO] [PMM] Allocated: i=%d, addr=%x, new_used=%d, new_last_idx=%d'' @ crlf)
     [ArgW k, ArgW (k * PAGE_SIZE), ArgW (used_pages s + 1),
      ArgW (if k + 1 \<ge> total_pages s then 4096 else k + 1)]"

lemma alloc_page_here:
  assumes "\<not> paging s" "last_alloc_index s = k" "k < total_pages s" "ram s (bitmap s + k) = 0"
  shows "alloc_page s = Inr (k * PAGE_SIZE, alloc_effect k [alloc_msg k s] s)"
  using assms
  by (simp add: alloc_page_def alloc_scan.simps run_simps alloc_take_direct Let_def
      emit_alloc_effect alloc_msg_def)

lemma alloc_page_first:
  assumes "\<not> paging s" "last_alloc_index s \<le> k" "k < total_pages s" "ram s (bitmap s + k) = 0"
    and "\<forall>j. last_alloc_index s \<le> j \<and> j < k \<longrightarrow> ram s (bitmap s + j) \<noteq> 0"
  shows "alloc_page s = Inr (k * PAGE_SIZE, alloc_effect k [alloc_msg k s] s)"
proof -
  have "alloc_scan (last_alloc_index s) (total_pages s) s = Inr (Some k)"
    using alloc_scan_spec [OF assms(1), of "last_alloc_index s" "total_pages s"] assms(2-5)
    by (metis linorder_neqE)
  then show ?thesis
    using assms by (simp add: alloc_page_def alloc_take_direct Let_def emit_alloc_effect alloc_msg_def)
qed

section \<open>Initialisation\<close>

lemma bitmap_fill:
  "\<not> paging s \<Longrightarrow> foldE (\<lambda>i s. st8 (bitmap s + of_nat i) v s) xs s =
     Inr (s\<lparr>ram := fold (\<lambda>i m. m(bitmap s + of_nat i := v)) xs (ram s)\<rparr>)"
  by (induction xs arbitrary: s) (simp_all add: run_simps)

text \<open>The RAM after the two loops of \<open>pmm_init\<close>: zeros, then ones for the kernel's frames.\<close>

definition init_ram :: "u32 \<Rightarrow> memory \<Rightarrow> memory" where
  "init_ram n m a = (if a - BITMAP_START < 4096 then 1 else if a - BITMAP_START < n then 0 else m a)"

lemma in_range_iff: "(\<exists>i<unat n. a = b + of_nat i) \<longleftrightarrow> a - b < n" for a b n :: u32
proof
  assume "\<exists>i<unat n. a = b + of_nat i"
  then obtain i where i: "i < unat n" "a - b = of_nat i" by auto
  have "unat (of_nat i :: u32) \<le> i" by (simp add: unat_of_nat)
  with i show "a - b < n" by (simp add: word_less_nat_alt)
next
  assume "a - b < n"
  then show "\<exists>i<unat n. a = b + of_nat i"
    by (intro exI [of _ "unat (a - b)"]) (simp add: word_less_nat_alt)
qed

lemma init_ram_fold:
  "fold (\<lambda>i m. m(BITMAP_START + of_nat i := 1)) [0..<4096]
     (fold (\<lambda>i m. m(BITMAP_START + of_nat i := 0)) [0..<unat n] m) = init_ram n m"
proof
  fix a
  have "(\<exists>i<4096. a = BITMAP_START + of_nat i) \<longleftrightarrow> a - BITMAP_START < 4096"
    using in_range_iff [of 4096 a BITMAP_START] by simp
  then show "fold (\<lambda>i m. m(BITMAP_START + of_nat i := 1)) [0..<4096]
     (fold (\<lambda>i m. m(BITMAP_START + of_nat i := 0)) [0..<unat n] m) a = init_ram n m a"
    unfolding fold_wr8 in_range_iff by (simp add: init_ram_def)
qed

lemma pmm_init_direct:
  assumes "\<not> paging s"
  shows "\<exists>t. pmm_init m s = Inr (s\<lparr>ram := init_ram (m * 1024 * 1024 div PAGE_SIZE) (ram s),
     bitmap := BITMAP_START, total_pages := m * 1024 * 1024 div PAGE_SIZE, used_pages := 4096,
     trace := trace s @ t\<rparr>)"
proof -
  have k: "KERNEL_END div PAGE_SIZE = 4096" by (simp add: config_defs)
  show ?thesis
    using assms init_ram_fold [of "m * 1024 * 1024 div PAGE_SIZE" "ram s"]
    by (cases s) (simp add: pmm_init_def Let_def bitmap_fill itoaE_10 k emit_def paging_def)
qed

lemma total_bound: "(w :: u32) div PAGE_SIZE \<le> 0x100000"
proof -
  have "unat w < 2 ^ LENGTH(32)" by (rule unsigned_less)
  then have "unat w div 4096 < 2 ^ 20" by (simp add: less_mult_imp_div_less)
  then show ?thesis by (simp add: PAGE_SIZE_def word_le_nat_alt unat_div)
qed

lemma init_ram_bit:
  "4096 \<le> i \<Longrightarrow> i < n \<Longrightarrow> init_ram n m (BITMAP_START + i) = 0"
  by (simp add: init_ram_def)

lemma pmm_init_inv:
  assumes "\<not> paging s" "last_alloc_index s = 4096"
  shows "\<exists>s'. pmm_init m s = Inr s' \<and> pmm_inv s' \<and> used_set s' = {} \<and> used_pages s' = 4096 \<and>
    last_alloc_index s' = 4096 \<and> total_pages s' = m * 1024 * 1024 div PAGE_SIZE \<and>
    ram s' = init_ram (total_pages s') (ram s) \<and> cr0 s' = cr0 s \<and> cr3 s' = cr3 s \<and> pmm.more s' = pmm.more s"
proof -
  obtain t where t: "pmm_init m s = Inr (s\<lparr>ram := init_ram (m * 1024 * 1024 div PAGE_SIZE) (ram s),
     bitmap := BITMAP_START, total_pages := m * 1024 * 1024 div PAGE_SIZE, used_pages := 4096,
     trace := trace s @ t\<rparr>)" (is "_ = Inr ?s")
    using pmm_init_direct [OF assms(1)] by blast
  have u: "used_set ?s = {}" by (auto simp: used_set_def init_ram_bit)
  then have "pmm_inv ?s"
    using assms total_bound [of "m * 1024 * 1024"]
    by (simp add: pmm_inv_def init_ram_bit paging_def)
  with t u assms show ?thesis by simp
qed

section \<open>Sample states\<close>

text \<open>
  Two small concrete allocators for the witnesses: 4100 frames, of which 4 can be handed out;
  in the second the first of them is.
\<close>

definition sample_pmm :: pmm where
  "sample_pmm = \<lparr>ram = (\<lambda>_. 0), cr0 = 0, cr3 = 0, trace = [], bitmap = BITMAP_START,
     total_pages = 4100, used_pages = 4096, last_alloc_index = 4096\<rparr>"

definition sample_pmm1 :: pmm where
  "sample_pmm1 = \<lparr>ram = (\<lambda>_. 0)(BITMAP_START + 4096 := 1), cr0 = 0, cr3 = 0, trace = [],
     bitmap = BITMAP_START, total_pages = 4100, used_pages = 4097, last_alloc_index = 4097\<rparr>"

lemma sample_pmm_used: "used_set sample_pmm = {}" "used_set sample_pmm1 = {4096}"
  by (auto simp: used_set_def sample_pmm_def sample_pmm1_def split: if_splits)

lemma sample_pmm_inv: "pmm_inv sample_pmm" "pmm_inv sample_pmm1"
  by (simp_all add: pmm_inv_def sample_pmm_used)
    (simp_all add: sample_pmm_def sample_pmm1_def paging_def)

lemma sample_pmm_frames:
  "frame_owned sample_pmm = {}" "0x1000000 \<in> frame_pool sample_pmm" "0x1001000 \<in> frame_pool sample_pmm"
  "frame_owned sample_pmm1 = {0x1000000}"
proof -
  have "(4096 :: u32) * PAGE_SIZE = 0x1000000" "(4097 :: u32) * PAGE_SIZE = 0x1001000"
    by (simp_all add: PAGE_SIZE_def)
  moreover have "total_pages sample_pmm = 4100" by (simp add: sample_pmm_def)
  ultimately show "frame_owned sample_pmm = {}" "0x1000000 \<in> frame_pool sample_pmm"
    "0x1001000 \<in> frame_pool sample_pmm" "frame_owned sample_pmm1 = {0x1000000}"
    unfolding frame_owned_def frame_pool_def sample_pmm_used
    by (auto simp flip: \<open>4096 * PAGE_SIZE = 0x1000000\<close> \<open>4097 * PAGE_SIZE = 0x1001000\<close>)
qed

section \<open>Properties\<close>

text \<open>
  C1. Allocation meets its contract in every initialised state: \<open>alloc_page\<close> returns, keeps the
  invariant, returns 0 exactly when every managed frame is in use (and then changes no frame),
  and otherwise hands out a managed frame that was not in use and marks that frame only.
\<close>

theorem alloc_page_contract:
  assumes "pmm_inv s"
  shows "\<exists>p s'. alloc_page s = Inr (p, s') \<and> pmm_inv s' \<and> frame_pool s' = frame_pool s \<and>
    (if frame_owned s = frame_pool s then p = 0 \<and> frame_owned s' = frame_owned s
     else p \<noteq> 0 \<and> p \<in> frame_pool s \<and> p \<notin> frame_owned s \<and> frame_owned s' = insert p (frame_owned s))"
proof (cases "frame_owned s = frame_pool s")
  case True
  from frames.alloc_exhausted [OF assms this] show ?thesis using True by auto
next
  case False
  from frames.alloc_fresh [OF assms this] frames.pool_nonzero [OF assms]
  show ?thesis unfolding if_not_P [OF False] by blast
qed

theorem alloc_page_contract_witness:
  "\<exists>p s'. alloc_page sample_pmm = Inr (p, s') \<and> p \<noteq> 0 \<and> frame_owned s' = {p}"
proof -
  have "frame_owned sample_pmm \<noteq> frame_pool sample_pmm" using sample_pmm_frames by auto
  then show ?thesis
    using alloc_page_contract [OF sample_pmm_inv(1)] by (simp add: sample_pmm_frames(1)) blast
qed

text \<open>
  Search order: the frame handed out is the first free one from \<open>last_alloc_index\<close> up to the
  end, or, when there is none, the first free one from frame 4096; RAM changes in that frame's
  bitmap byte only, and the index moves past it (or back to 4096 at the end).
\<close>

lemma alloc_page_next_fit:
  assumes "pmm_inv s" "alloc_page s = Inr (p, s')" "p \<noteq> 0"
  shows "\<exists>k. p = k * PAGE_SIZE \<and> k < total_pages s \<and>
    (last_alloc_index s \<le> k \<or>
      (4096 \<le> k \<and> (\<forall>j. last_alloc_index s \<le> j \<and> j < total_pages s \<longrightarrow> j \<in> used_set s))) \<and>
    (\<forall>j. (if last_alloc_index s \<le> k then last_alloc_index s else 4096) \<le> j \<and> j < k \<longrightarrow> j \<in> used_set s) \<and>
    ram s' = (ram s)(bitmap s + k := 1) \<and> used_pages s' = used_pages s + 1 \<and>
    last_alloc_index s' = (if k + 1 \<ge> total_pages s then 4096 else k + 1)"
proof -
  have p: "\<not> paging s" and l: "4096 \<le> last_alloc_index s" using assms(1) by (simp_all add: pmm_inv_def)
  from p show ?thesis
  proof (cases rule: alloc_page_cases)
    case (upper k t)
    then show ?thesis using assms(2) l by (intro exI [of _ k]) (auto simp: used_set_def)
  next
    case (lower k t)
    moreover have "k < total_pages s" using lower assms(1) by (auto simp: pmm_inv_def)
    ultimately show ?thesis using assms(2) l by (intro exI [of _ k]) (auto simp: used_set_def)
  next
    case (none e)
    then show ?thesis using assms(2,3) by simp
  qed
qed

text \<open>
  C12. No two allocations overlap: as many consecutive calls of \<open>alloc_page\<close> as there are free
  frames all succeed, on pairwise distinct managed frames none of which was in use before.
\<close>

theorem alloc_pages_distinct:
  assumes "pmm_inv s" "n \<le> card (frame_pool s - frame_owned s)"
  shows "\<exists>ps s'. alloc_many alloc_page n s = Inr (ps, s') \<and> length ps = n \<and> distinct ps \<and>
    set ps \<subseteq> frame_pool s - frame_owned s \<and> pmm_inv s' \<and> frame_owned s' = frame_owned s \<union> set ps"
  using frames.alloc_many_distinct [OF assms] by blast

theorem alloc_pages_distinct_witness:
  "\<exists>p q s'. alloc_many alloc_page 2 sample_pmm = Inr ([p, q], s') \<and> p \<noteq> q"
proof -
  have "card {0x1000000, 0x1001000 :: u32} \<le> card (frame_pool sample_pmm - frame_owned sample_pmm)"
    using sample_pmm_frames by (intro card_mono) auto
  then have "2 \<le> card (frame_pool sample_pmm - frame_owned sample_pmm)" by simp
  from alloc_pages_distinct [OF sample_pmm_inv(1) this]
  show ?thesis by (auto simp: length_Suc_conv numeral_2_eq_2)
qed

text \<open>
  Releasing and reallocating: freeing a frame that is in use and lies below the allocation
  index makes exactly that frame the next one handed out, with the accounting as before.
\<close>

lemma free_then_alloc_same:
  assumes "pmm_inv s" "k \<in> used_set s" "k < last_alloc_index s"
  shows "\<exists>s1 s2. pmm_free_page (k * PAGE_SIZE) s = Inr s1 \<and> alloc_page s1 = Inr (k * PAGE_SIZE, s2) \<and>
    used_set s1 = used_set s - {k} \<and> used_set s2 = used_set s \<and> used_pages s2 = used_pages s \<and>
    ram s2 = ram s \<and> pmm_inv s2"
proof -
  have k: "4096 \<le> k" "k < total_pages s" "ram s (bitmap s + k) = 1" and np: "\<not> paging s"
    using assms by (auto simp: used_set_def pmm_inv_def)
  let ?s1 = "free_effect k s"
  have i1: "pmm_inv ?s1" by (rule free_effect_inv [OF assms(1,2)])
  have "alloc_page ?s1 = Inr (k * PAGE_SIZE, alloc_effect k [alloc_msg k ?s1] ?s1)"
    using np k assms(3) by (intro alloc_page_here) simp_all
  moreover have "pmm_inv (alloc_effect k [alloc_msg k ?s1] ?s1)"
    using k i1 by (intro alloc_effect_inv) simp_all
  ultimately show ?thesis
    using free_page_used [OF assms(1,2)] k assms(2)
    by (simp add: used_set_free used_set_alloc insert_absorb fun_upd_idem)
qed

text \<open>
  Refused releases: freeing an address below 16 MiB, or a managed frame that is not in use
  (a double free), changes neither RAM nor the page count, and keeps the invariant.
\<close>

lemma free_page_refused:
  assumes "pmm_inv s"
    and "p div PAGE_SIZE < 4096 \<or> (p div PAGE_SIZE < total_pages s \<and> p div PAGE_SIZE \<notin> used_set s)"
  shows "\<exists>s'. pmm_free_page p s = Inr s' \<and> ram s' = ram s \<and> used_pages s' = used_pages s \<and> pmm_inv s'"
proof (cases "p div PAGE_SIZE < 4096")
  case True
  with assms(1) show ?thesis by (simp add: pmm_free_page_def Let_def)
next
  case False
  let ?k = "p div PAGE_SIZE"
  have k: "4096 \<le> ?k" "?k < total_pages s" "ram s (bitmap s + ?k) = 0"
    using False assms(2) by (auto simp: used_set_def)
  have np: "\<not> paging s" using assms(1) by (simp add: pmm_inv_def)
  let ?s = "if ?k < last_alloc_index s then s\<lparr>last_alloc_index := ?k\<rparr> else s"
  have "pmm_free_page p s = Inr ?s"
    using False k np by (simp add: pmm_free_page_def run_simps Let_def)
  moreover have "pmm_inv ?s"
    using assms(1) k by (auto simp: pmm_inv_def used_set_def)
  ultimately show ?thesis by auto
qed

text \<open>The run of the self-test on a machine of 512 MiB.\<close>

lemma pmm_boot_run:
  assumes "\<not> paging s" "last_alloc_index s = 4096"
  shows "\<exists>s1 f. pmm_init 512 s = Inr s1 \<and>
    pmm_test s1 = Inr (emit (Kprintf (''[INFO] [PMM] Should Be: %x '' @ crlf) [ArgW 0x1001000])
      (emit (Kprintf (''[INFO] [PMM] Allocated: %x '' @ crlf) [ArgW 0x1001000]) f)) \<and>
    pmm_inv f \<and> used_set f = {4096, 4097, 4098} \<and> last_alloc_index f = 4098 \<and> total_pages f = 0x20000 \<and>
    pmm.more f = pmm.more s"
proof -
  obtain s1 where i: "pmm_init 512 s = Inr s1" "pmm_inv s1" "used_set s1 = {}"
      "last_alloc_index s1 = 4096" "total_pages s1 = 0x20000"
      "ram s1 = init_ram (total_pages s1) (ram s)" "pmm.more s1 = pmm.more s"
    using pmm_init_inv [OF assms, of 512] by (auto simp: PAGE_SIZE_def)
  have np: "\<not> paging s1" and B: "bitmap s1 = BITMAP_START" using i(2) by (simp_all add: pmm_inv_def)
  have z: "ram s1 (BITMAP_START + j) = 0" if "4096 \<le> j" "j < 0x20000" for j
    using that by (simp add: i init_ram_bit)
  have pages: "(4096 :: u32) * PAGE_SIZE = 0x1000000" "(4097 :: u32) * PAGE_SIZE = 0x1001000"
      "(4098 :: u32) * PAGE_SIZE = 0x1002000"
    by (simp_all add: PAGE_SIZE_def)
  let ?a = "emit (Printl ''[INFO] [PMM] PMM TEST'') s1"
  obtain t1 where t1: "alloc_page ?a = Inr (0x1000000, alloc_effect 4096 t1 ?a)"
    using alloc_page_here [of ?a 4096] np z i B by (simp add: pages)
  let ?b = "alloc_effect 4096 t1 ?a"
  obtain t2 where t2: "alloc_page ?b = Inr (0x1001000, alloc_effect 4097 t2 ?b)"
    using alloc_page_here [of ?b 4097] np z i B by (simp add: pages)
  let ?c = "alloc_effect 4097 t2 ?b"
  obtain t3 where t3: "alloc_page ?c = Inr (0x1002000, alloc_effect 4098 t3 ?c)"
    using alloc_page_here [of ?c 4098] np z i B by (simp add: pages)
  let ?m = "\<lambda>p. Kprintf (''[INFO] [PMM] Allocated: %x '' @ crlf) [ArgW p]"
  let ?d = "emit (Kprintf (''[INFO] [PMM] Freeing: %x '' @ crlf) [ArgW 0x1001000])
    (emit (Printl ''[INFO] [PMM] Freeing Middle Page'') (emit (?m 0x1002000) (emit (?m 0x1001000)
    (emit (?m 0x1000000) (alloc_effect 4098 t3 ?c)))))"
  have ia: "pmm_inv ?b" by (rule alloc_effect_inv) (simp_all add: i(2-5) z B)
  have ib: "pmm_inv ?c" by (rule alloc_effect_inv [OF ia]) (simp_all add: i(2-5) z B)
  have ic: "pmm_inv ?d" by (simp, rule alloc_effect_inv [OF ib]) (simp_all add: i(2-5) z B)
  have ud: "used_set ?d = {4096, 4097, 4098}"
    by (simp add: used_set_alloc i) blast
  have f: "pmm_free_page 0x1001000 ?d = Inr (free_effect 4097 ?d)"
    using free_page_used [OF ic, of 4097] ud by (simp add: pages)
  let ?e = "emit (Printl ''[INFO] [PMM] Allocating Middle Page'') (free_effect 4097 ?d)"
  have ie: "pmm_inv ?e" using free_effect_inv [OF ic, of 4097] ud by simp
  obtain t4 where t4: "alloc_page ?e = Inr (0x1001000, alloc_effect 4097 t4 ?e)"
    using alloc_page_here [of ?e 4097] np i B by (simp add: pages)
  let ?f = "alloc_effect 4097 t4 ?e"
  have if': "pmm_inv ?f" by (rule alloc_effect_inv [OF ie]) (simp_all add: i B)
  have uf: "used_set ?f = {4096, 4097, 4098}"
    by (simp add: used_set_alloc i used_set_free) blast
  have run: "pmm_test s1 = Inr (emit (Kprintf (''[INFO] [PMM] Should Be: %x '' @ crlf) [ArgW 0x1001000])
      (emit (?m 0x1001000) ?f))"
    by (simp add: pmm_test_def Let_def t1 t2 t3 t4 f del: append.simps)
  have la: "last_alloc_index ?f = 4098" "total_pages ?f = 0x20000" "pmm.more ?f = pmm.more s"
    by (simp_all add: i(5,7))
  from run if' uf la i(1) show ?thesis by blast
qed

text \<open>
  The self-test of the boot sequence: run right after \<open>pmm_init(512)\<close>, it gets the frames at
  16 MiB, 16 MiB + 4 KiB and 16 MiB + 8 KiB, frees the middle one and gets the same one back, so
  the two addresses it logs last agree; three frames are in use when it ends.
\<close>

lemma pmm_boot_selftest:
  assumes "\<not> paging s" "last_alloc_index s = 4096"
  shows "\<exists>s1 s2 t. pmm_init 512 s = Inr s1 \<and> pmm_test s1 = Inr s2 \<and> pmm_inv s2 \<and>
    frame_owned s2 = {0x1000000, 0x1001000, 0x1002000} \<and> last_alloc_index s2 = 4098 \<and>
    trace s2 = t @ [Kprintf (''[INFO] [PMM] Allocated: %x '' @ crlf) [ArgW 0x1001000],
                    Kprintf (''[INFO] [PMM] Should Be: %x '' @ crlf) [ArgW 0x1001000]]"
proof -
  have "frame_owned f = {0x1000000, 0x1001000, 0x1002000}" if "used_set f = {4096, 4097, 4098}" for f :: "'a pmm_scheme"
    by (simp add: frame_owned_def that PAGE_SIZE_def)
  with pmm_boot_run [OF assms] show ?thesis by fastforce
qed

text \<open>
  C15. The bitmap is not reserved: the kernel's frames end at 16 MiB where the bitmap begins, so
  after \<open>pmm_init\<close> with more than 4096 frames the first frame handed out is \<open>BITMAP_START\<close>
  itself, and with more than 4097 the second one holds the bytes of the frames it manages: its
  owner, clearing the first byte of it, makes the first frame free again while it is in use.
\<close>

theorem bitmap_frame_handed_out:
  assumes "\<not> paging s" "last_alloc_index s = 4096" "m * 1024 * 1024 div PAGE_SIZE > 4097"
  shows "\<exists>s1 s2 s3 s4. pmm_init m s = Inr s1 \<and> alloc_page s1 = Inr (BITMAP_START, s2) \<and>
    alloc_page s2 = Inr (BITMAP_START + PAGE_SIZE, s3) \<and>
    frame_owned s3 = {BITMAP_START, BITMAP_START + PAGE_SIZE} \<and>
    st8 (BITMAP_START + PAGE_SIZE) 0 s3 = Inr s4 \<and> frame_owned s4 = {BITMAP_START + PAGE_SIZE} \<and>
    \<not> pmm_inv s4"
proof -
  obtain s1 where i: "pmm_init m s = Inr s1" "pmm_inv s1" "used_set s1 = {}"
      "last_alloc_index s1 = 4096" "total_pages s1 > 4097" "used_pages s1 = 4096"
      and r: "ram s1 = init_ram (total_pages s1) (ram s)"
    using pmm_init_inv [OF assms(1,2), of m] assms(3) by auto
  have np: "\<not> paging s1" and B: "bitmap s1 = BITMAP_START" using i(2) by (simp_all add: pmm_inv_def)
  have z: "ram s1 (BITMAP_START + j) = 0" if "4096 \<le> j" "j < total_pages s1" for j
    using that by (simp add: r init_ram_bit)
  have gt: "4096 < total_pages s1" "(4096 :: u32) + 1 = 4097"
    by (rule less_trans [OF _ i(5)]) simp_all
  have pages: "(4096 :: u32) * PAGE_SIZE = BITMAP_START" "(4097 :: u32) * PAGE_SIZE = BITMAP_START + PAGE_SIZE"
    by (simp_all add: config_defs)
  obtain t1 where t1: "alloc_page s1 = Inr (BITMAP_START, alloc_effect 4096 t1 s1)"
    using alloc_page_here [of s1 4096] np z i(4,5) gt B by (simp add: pages)
  let ?b = "alloc_effect 4096 t1 s1"
  obtain t2 where t2: "alloc_page ?b = Inr (BITMAP_START + PAGE_SIZE, alloc_effect 4097 t2 ?b)"
    using alloc_page_here [of ?b 4097] np z i(4,5) gt B by (simp add: pages not_le)
  let ?c = "alloc_effect 4097 t2 ?b"
  let ?d = "?c\<lparr>ram := (ram ?c)(BITMAP_START + 4096 := 0)\<rparr>"
  have uc: "used_set ?c = {4096, 4097}" using i(5) gt by (simp add: used_set_alloc i(3)) blast
  have ud: "used_set ?d = {4097}"
    using uc used_set_clear [of ?c 4096] by (simp add: B)
  have st: "st8 (BITMAP_START + PAGE_SIZE) 0 ?c = Inr ?d"
    using np by (simp add: run_simps PAGE_SIZE_def)
  have "used_pages ?d = 4098" by (simp add: i(6))
  then have "unat (used_pages ?d) \<noteq> 4096 + card (used_set ?d)" unfolding ud by simp
  then have ni: "\<not> pmm_inv ?d" unfolding pmm_inv_def by blast
  have fd: "frame_owned ?d = {BITMAP_START + PAGE_SIZE}"
    unfolding frame_owned_def ud by (simp add: pages)
  have fc: "frame_owned ?c = {BITMAP_START, BITMAP_START + PAGE_SIZE}"
    unfolding frame_owned_def uc by (simp add: pages)
  show ?thesis
    by (rule exI [of _ s1], rule exI [of _ ?b], rule exI [of _ ?c], rule exI [of _ ?d])
      (intro conjI i(1) t1 t2 fc st fd ni)
qed

theorem bitmap_frame_handed_out_witness:
  "\<exists>s1 s2. pmm_init 512 sample_pmm = Inr s1 \<and> alloc_page s1 = Inr (BITMAP_START, s2)"
proof -
  have "\<not> paging sample_pmm" "last_alloc_index sample_pmm = 4096"
    "(512 :: u32) * 1024 * 1024 div PAGE_SIZE > 4097"
    by (simp_all add: sample_pmm_def paging_def PAGE_SIZE_def)
  from bitmap_frame_handed_out [OF this] show ?thesis by blast
qed

text \<open>
  C18. \<open>pmm_free_page\<close> has no upper bound check: for an address past the managed frames whose
  byte beyond the bitmap happens to be 1 it clears that byte of foreign memory and lowers the
  page count, which breaks the accounting.
\<close>

theorem free_page_out_of_range:
  assumes "pmm_inv s" "4096 \<le> k" "total_pages s \<le> k" "k < 0x100000" "ram s (bitmap s + k) = 1"
  shows "\<exists>s'. pmm_free_page (k * PAGE_SIZE) s = Inr s' \<and> ram s' = (ram s)(bitmap s + k := 0) \<and>
    used_pages s' = used_pages s - 1 \<and> used_set s' = used_set s \<and> \<not> pmm_inv s'"
proof -
  have np: "\<not> paging s" using assms(1) by (simp add: pmm_inv_def)
  have u: "used_set (free_effect k s) = used_set s"
    using assms(3) by (auto simp: used_set_free used_set_def)
  have "unat (used_pages s) = 4096 + card (used_set s)" using assms(1) by (simp add: pmm_inv_def)
  then have "unat (used_pages s - 1) \<noteq> 4096 + card (used_set s)" by (simp add: unat_sub_if')
  then have "\<not> pmm_inv (free_effect k s)" using u by (simp add: pmm_inv_def)
  moreover have "pmm_free_page (k * PAGE_SIZE) s = Inr (free_effect k s)"
    using assms np by (simp add: pmm_free_page_def page_div run_simps free_effect_def min_def Let_def)
  ultimately show ?thesis using u by simp
qed

theorem free_page_out_of_range_witness:
  "\<exists>s'. pmm_free_page (5000 * PAGE_SIZE)
      (sample_pmm\<lparr>ram := (ram sample_pmm)(BITMAP_START + 5000 := 1)\<rparr>) = Inr s' \<and> used_pages s' = 4095"
proof -
  let ?s = "sample_pmm\<lparr>ram := (ram sample_pmm)(BITMAP_START + 5000 := 1)\<rparr>"
  have "used_set ?s = {}" by (auto simp: used_set_def sample_pmm_def)
  then have "pmm_inv ?s"
    using sample_pmm_inv(1) by (auto simp: pmm_inv_def sample_pmm_used)
  moreover have "total_pages ?s \<le> 5000" "ram ?s (bitmap ?s + 5000) = 1" "used_pages ?s = 4096"
    by (simp_all add: sample_pmm_def)
  ultimately show ?thesis
    using free_page_out_of_range [of ?s 5000] by auto
qed

end
