(* ===== verification/Page_Map.thy ===== *)
theory Page_Map
  imports Prelude
begin

text \<open>
  The contract of a page-mapping layer, as its clients use it: a partial function from addresses
  to addresses that is uniform on pages, and two operations that change it on one page.  Mapping
  a page that is mapped and unmapping one that is not are reported and change nothing.
\<close>

locale page_map =
  fixes inv :: "'s \<Rightarrow> bool"
    and look :: "'s \<Rightarrow> u32 \<Rightarrow> u32 option"
    and ready :: "u32 \<Rightarrow> 's \<Rightarrow> bool"
    and map_at :: "u32 \<Rightarrow> u32 \<Rightarrow> 's \<Rightarrow> 'e + 's"
    and unmap_at :: "u32 \<Rightarrow> 's \<Rightarrow> 'e + 's"
  assumes look_page: "frame_of a = frame_of b \<Longrightarrow> look s a = None \<longleftrightarrow> look s b = None"
    and ready_page: "ready v s \<Longrightarrow> frame_of v = v"
    and map_new: "inv s \<Longrightarrow> ready v s \<Longrightarrow> look s v = None \<Longrightarrow> frame_of p = p \<Longrightarrow>
      \<exists>s'. map_at v p s = Inr s' \<and> inv s' \<and> ready v s' \<and>
        look s' = (\<lambda>a. if frame_of a = v then Some (p + (a AND 0xFFF)) else look s a)"
    and map_old: "inv s \<Longrightarrow> ready v s \<Longrightarrow> look s v \<noteq> None \<Longrightarrow>
      \<exists>s'. map_at v p s = Inr s' \<and> inv s' \<and> ready v s' \<and> look s' = look s"
    and unmap_old: "inv s \<Longrightarrow> ready v s \<Longrightarrow> look s v \<noteq> None \<Longrightarrow>
      \<exists>s'. unmap_at v s = Inr s' \<and> inv s' \<and> ready v s' \<and>
        look s' = (\<lambda>a. if frame_of a = v then None else look s a)"
    and unmap_none: "inv s \<Longrightarrow> ready v s \<Longrightarrow> look s v = None \<Longrightarrow>
      \<exists>s'. unmap_at v s = Inr s' \<and> inv s' \<and> ready v s' \<and> look s' = look s"
begin

lemma page_none: "ready v s \<Longrightarrow> look s v = None \<Longrightarrow> frame_of a = v \<Longrightarrow> look s a = None"
  using look_page [of a v s] ready_page [of v s] by simp

text \<open>Unmapping a page just mapped restores the translation.\<close>

lemma unmap_map:
  assumes "inv s" "ready v s" "look s v = None" "frame_of p = p"
  shows "\<exists>s1 s2. map_at v p s = Inr s1 \<and> look s1 v = Some p \<and> unmap_at v s1 = Inr s2 \<and> inv s2 \<and>
    ready v s2 \<and> look s2 = look s"
proof -
  have v: "frame_of v = v" "v AND 0xFFF = 0"
    using ready_page [OF assms(2)] low_bits_plus [of v 0] by simp_all
  obtain s1 where s1: "map_at v p s = Inr s1" "inv s1" "ready v s1"
      "look s1 = (\<lambda>a. if frame_of a = v then Some (p + (a AND 0xFFF)) else look s a)"
    using map_new [OF assms] by blast
  then obtain s2 where s2: "unmap_at v s1 = Inr s2" "inv s2" "ready v s2"
      "look s2 = (\<lambda>a. if frame_of a = v then None else look s1 a)"
    using unmap_old [of s1 v] v by auto
  have "look s2 = look s"
    using s1(4) s2(4) page_none [OF assms(2,3)] by (auto simp: fun_eq_iff)
  with s1 s2 v show ?thesis by simp
qed

text \<open>The first mapping of a page wins; a second one without an unmapping has no effect.\<close>

lemma map_twice:
  assumes "inv s" "ready v s" "look s v = None" "frame_of p = p"
  shows "\<exists>s1 s2. map_at v p s = Inr s1 \<and> map_at v q s1 = Inr s2 \<and> look s2 = look s1 \<and> look s2 v = Some p"
proof -
  have v: "frame_of v = v" "v AND 0xFFF = 0"
    using ready_page [OF assms(2)] low_bits_plus [of v 0] by simp_all
  obtain s1 where s1: "map_at v p s = Inr s1" "inv s1" "ready v s1"
      "look s1 = (\<lambda>a. if frame_of a = v then Some (p + (a AND 0xFFF)) else look s a)"
    using map_new [OF assms] by blast
  then show ?thesis using map_old [of s1 v q] v by auto
qed

text \<open>A page can be moved: map, unmap and map again ends at the second frame.\<close>

lemma remap:
  assumes "inv s" "ready v s" "look s v = None" "frame_of p = p" "frame_of q = q"
  shows "\<exists>s1 s2 s3. map_at v p s = Inr s1 \<and> unmap_at v s1 = Inr s2 \<and> map_at v q s2 = Inr s3 \<and> inv s3 \<and>
    look s3 = (\<lambda>a. if frame_of a = v then Some (q + (a AND 0xFFF)) else look s a)"
proof -
  obtain s1 s2 where s2: "map_at v p s = Inr s1" "unmap_at v s1 = Inr s2" "inv s2" "ready v s2"
      "look s2 = look s"
    using unmap_map [OF assms(1-4)] by blast
  have "look s2 v = None" by (simp add: s2(5) assms(3))
  from map_new [OF s2(3,4) this assms(5)] obtain s3 where "map_at v q s2 = Inr s3" "inv s3"
      "look s3 = (\<lambda>a. if frame_of a = v then Some (q + (a AND 0xFFF)) else look s2 a)"
    by blast
  with s2 show ?thesis by (simp cong: if_cong)
qed

end

end
