(* ===== verification/VMM.thy ===== *)
theory VMM
  imports PMM Page_Map
begin

text \<open>
  \<open>Kernel/src/Include/VMM.c\<close>: the two-level page tables.  The page directory is the RAM frame
  at \<open>VMM_PD_ADDR\<close>; page tables are frames taken from the allocator of \<open>PMM\<close>.  All accesses
  are 32-bit accesses to RAM at the address the C code computes, so they fault once paging is
  on and the tables themselves are not mapped.
\<close>

section \<open>State and operations\<close>

record vmm = pmm +
  total_mapped :: u32

definition page_dir :: u32 where
  "page_dir = VMM_PD_ADDR"

definition pd_index :: "u32 \<Rightarrow> u32" where
  "pd_index virt = drop_bit 22 virt AND 0x3FF"

definition pt_index :: "u32 \<Rightarrow> u32" where
  "pt_index virt = drop_bit 12 virt AND 0x3FF"

definition vmm_init :: "'a vmm_scheme \<Rightarrow> fault + 'a vmm_scheme" where
  "vmm_init s =
     bindE (foldE (\<lambda>i s. st32 (cell page_dir (of_nat i)) PG_WRITABLE s) [0..<1024] s) (\<lambda>s.
     bindE (alloc_page s) (\<lambda>(pt_phys, s).
     if pt_phys = 0
     then Inr (emit (Kprintf ''%s %s No Memory for page'' [ArgS LOG_ERROR, ArgS LOG_VMM]) s)
     else
       bindE (foldE (\<lambda>i s. st32 (cell pt_phys (of_nat i))
          ((of_nat i * PAGE_SIZE) OR PG_PRESENT OR PG_WRITABLE) s) [0..<1024] s) (\<lambda>s.
       bindE (st32 (cell page_dir 0) (pt_phys OR PG_PRESENT OR PG_WRITABLE) s) (\<lambda>s.
       bindE (st32 (cell page_dir 768) (pt_phys OR PG_PRESENT OR PG_WRITABLE) s) (\<lambda>s.
       let s = s\<lparr>total_mapped := 1024\<rparr>;
           s = emit (Kprintf (''%s %s Identity mapped first 4MB'' @ crlf) [ArgS LOG_INFO, ArgS LOG_VMM]) s
       in Inr (emit (Kprintf (''%s %s Page table at phys: %x'' @ crlf)
                 [ArgS LOG_INFO, ArgS LOG_VMM, ArgW pt_phys]) s))))))"

text \<open>
  The first half of \<open>vmm_map_page\<close>: when the directory entry is not present, take a frame, clear
  it and enter it.  The flag is \<open>False\<close> when the function returns early.
\<close>

definition vmm_need_table :: "u32 \<Rightarrow> 'a vmm_scheme \<Rightarrow> fault + bool \<times> 'a vmm_scheme" where
  "vmm_need_table pdi s =
     bindE (ld32 (cell page_dir pdi) s) (\<lambda>pde.
     if pde AND PG_PRESENT \<noteq> 0 then Inr (True, s)
     else bindE (alloc_page s) (\<lambda>(new_pt_phys, s).
       if new_pt_phys = 0
       then Inr (False, emit (Kprintf (''%s %s Cannot allocate page table!'' @ crlf)
                   [ArgS LOG_ERROR, ArgS LOG_VMM]) s)
       else
         bindE (foldE (\<lambda>i s. st32 (cell new_pt_phys (of_nat i)) 0 s) [0..<1024] s) (\<lambda>s.
         bindE (st32 (cell page_dir pdi) (new_pt_phys OR PG_PRESENT OR PG_WRITABLE) s) (\<lambda>s.
         Inr (True, emit (Kprintf (''%s %s Created new page table at PD[%d]'' @ crlf)
                     [ArgS LOG_INFO, ArgS LOG_VMM, ArgW pdi]) s)))))"

definition vmm_map_page :: "u32 \<Rightarrow> u32 \<Rightarrow> u32 \<Rightarrow> 'a vmm_scheme \<Rightarrow> fault + 'a vmm_scheme" where
  "vmm_map_page virt phys flags s =
     (let s = emit (Kprintf (''%s %s Mapping: %x -> %x (PD:%d, PT:%d)'' @ crlf)
                [ArgS LOG_INFO, ArgS LOG_VMM, ArgW virt, ArgW phys, ArgW (pd_index virt),
                 ArgW (pt_index virt)]) s
      in bindE (vmm_need_table (pd_index virt) s) (\<lambda>(go, s).
      if \<not> go then Inr s
      else bindE (ld32 (cell page_dir (pd_index virt)) s) (\<lambda>pde.
        let page_table = pde AND 0xFFFFF000
        in bindE (ld32 (cell page_table (pt_index virt)) s) (\<lambda>pte.
        if pte AND PG_PRESENT \<noteq> 0
        then Inr (emit (Kprintf (''%s %s Page %x already mapped!'' @ crlf)
                    [ArgS LOG_WARN, ArgS LOG_VMM, ArgW virt]) s)
        else
          bindE (st32 (cell page_table (pt_index virt)) (phys OR flags) s) (\<lambda>s.
          let s = s\<lparr>total_mapped := total_mapped s + 1\<rparr>;
              s = emit (Invlpg virt) s;
              s = emit (Kprintf (''%s %s Mapped successfully'' @ crlf) [ArgS LOG_INFO, ArgS LOG_VMM]) s;
              s = emit (Kprintf (''%s %s Testing write to 0x%x...'' @ crlf)
                    [ArgS LOG_DEBUG, ArgS LOG_VMM, ArgW virt]) s
          in bindE (st32 virt 0xDEADBEEF s) (\<lambda>s.
          Inr (emit (Kprintf (''%s %s Write test passed'' @ crlf) [ArgS LOG_DEBUG, ArgS LOG_VMM]) s)))))))"

definition vmm_unmap_page :: "u32 \<Rightarrow> 'a vmm_scheme \<Rightarrow> fault + 'a vmm_scheme" where
  "vmm_unmap_page virt s =
     bindE (ld32 (cell page_dir (pd_index virt)) s) (\<lambda>pde.
     if pde AND PG_PRESENT = 0
     then Inr (emit (Kprintf (''%s %s Page %x not mapped'' @ crlf) [ArgS LOG_WARN, ArgS LOG_VMM, ArgW virt]) s)
     else let page_table = pde AND 0xFFFFF000
       in bindE (ld32 (cell page_table (pt_index virt)) s) (\<lambda>pte.
       if pte AND PG_PRESENT = 0
       then Inr (emit (Kprintf (''%s %s Page %x already unmapped'' @ crlf)
                   [ArgS LOG_WARN, ArgS LOG_VMM, ArgW virt]) s)
       else bindE (st32 (cell page_table (pt_index virt)) 0 s) (\<lambda>s.
         let s = s\<lparr>total_mapped := total_mapped s - 1\<rparr>;
             s = emit (Invlpg virt) s
         in Inr (emit (Kprintf (''%s %s Unmapped: %x'' @ crlf) [ArgS LOG_INFO, ArgS LOG_VMM, ArgW virt]) s))))"

definition vmm_v_to_p :: "u32 \<Rightarrow> 'a vmm_scheme \<Rightarrow> fault + u32" where
  "vmm_v_to_p virt s =
     bindE (ld32 (cell page_dir (pd_index virt)) s) (\<lambda>pde.
     if pde AND PG_PRESENT = 0 then Inr 0
     else let page_table = pde AND 0xFFFFF000
       in bindE (ld32 (cell page_table (pt_index virt)) s) (\<lambda>pte.
       if pte AND PG_PRESENT = 0 then Inr 0
       else let phys_base = pte AND 0xFFFFF000; offset = virt AND 0xFFF
         in Inr (phys_base + offset)))"

definition vmm_enable :: "'a vmm_scheme \<Rightarrow> 'a vmm_scheme" where
  "vmm_enable s =
     (let s = emit (Kprintf (''%s %s Enabling paging...'' @ crlf) [ArgS LOG_INFO, ArgS LOG_VMM]) s;
          s = s\<lparr>cr3 := page_dir\<rparr>;
          s = s\<lparr>cr0 := cr0 s OR 0x80000000\<rparr>
      in emit (Kprintf (''%s %s Paging enabled!'' @ crlf) [ArgS LOG_INFO, ArgS LOG_VMM]) s)"

definition vmm_print_stats :: "'a vmm_scheme \<Rightarrow> 'a vmm_scheme" where
  "vmm_print_stats s = emit (Kprintf (''%s %s Stats: %d pages mapped'' @ crlf)
     [ArgS LOG_INFO, ArgS LOG_VMM, ArgW (total_mapped s)]) s"

lemma emit_vmm [simp]: "total_mapped (emit e s) = total_mapped s" "vmm.more (emit e s) = vmm.more s"
  by (simp_all add: emit_def)

lemma effect_vmm [simp]:
  "total_mapped (alloc_effect k t s) = total_mapped s" "total_mapped (free_effect k s) = total_mapped s"
  "vmm.more (alloc_effect k t s) = vmm.more s" "vmm.more (free_effect k s) = vmm.more s"
  by (simp_all add: alloc_effect_def free_effect_def)

lemma paging_vmm [simp]: "paging (s\<lparr>total_mapped := b\<rparr>) = paging s"
  by (simp add: paging_def)

section \<open>Indices of an address\<close>

lemma mask_0x3FF: "(0x3FF :: u32) = mask 10" and mask_0xFFF: "(0xFFF :: u32) = mask 12"
  by (simp_all add: mask_eq_exp_minus_1)

lemma index_less: "pd_index v < 1024" "pt_index v < 1024"
  unfolding pd_index_def pt_index_def
  by (rule le_less_trans [OF word_and_le1]; simp)+

lemma index_bits:
  "bit (pd_index v) n \<longleftrightarrow> n < 10 \<and> bit v (22 + n)"
  "bit (pt_index v) n \<longleftrightarrow> n < 10 \<and> bit v (12 + n)"
  by (auto simp: pd_index_def pt_index_def mask_0x3FF bit_simps)

lemma frame_of_index: "frame_of a = frame_of b \<longleftrightarrow> pd_index a = pd_index b \<and> pt_index a = pt_index b"
proof
  assume f: "frame_of a = frame_of b"
  have b: "bit a (12 + k) = bit b (12 + k)" for k
    using frame_of_bits [of a "12 + k"] frame_of_bits [of b "12 + k"] f by simp
  have "pd_index a = pd_index b"
    by (rule bit_word_eqI) (use b [of "10 + _"] in \<open>simp add: index_bits\<close>)
  moreover have "pt_index a = pt_index b"
    by (rule bit_word_eqI) (simp add: index_bits b)
  ultimately show "pd_index a = pd_index b \<and> pt_index a = pt_index b" ..
next
  assume i: "pd_index a = pd_index b \<and> pt_index a = pt_index b"
  show "frame_of a = frame_of b"
  proof (rule bit_word_eqI)
    fix n :: nat assume n: "n < LENGTH(32)"
    show "bit (frame_of a) n = bit (frame_of b) n"
    proof (cases "12 \<le> n")
      case True
      show ?thesis
      proof (cases "n < 22")
        case True
        then have "n - 12 < 10" using \<open>12 \<le> n\<close> by arith
        then show ?thesis
          using i index_bits(2) [of a "n - 12"] index_bits(2) [of b "n - 12"] \<open>12 \<le> n\<close>
          by (simp add: frame_of_bits)
      next
        case False
        then have "n - 22 < 10" using n by auto
        then show ?thesis
          using i index_bits(1) [of a "n - 22"] index_bits(1) [of b "n - 22"] \<open>12 \<le> n\<close> False
          by (simp add: frame_of_bits)
      qed
    qed (simp add: frame_of_bits)
  qed
qed

lemma frame_low: "frame_of v + (v AND 0xFFF) = v" "v AND 0xFFF < 4096"
proof -
  have "frame_of v AND (v AND 0xFFF) = 0"
    by (rule bit_word_eqI) (auto simp: frame_of_bits mask_0xFFF bit_simps)
  then have "frame_of v + (v AND 0xFFF) = frame_of v OR (v AND 0xFFF)"
    by (rule disjunctive_add_eq_or)
  also have "\<dots> = v"
    by (rule bit_word_eqI) (auto simp: frame_of_bits mask_0xFFF bit_simps)
  finally show "frame_of v + (v AND 0xFFF) = v" .
  show "v AND 0xFFF < 4096" by (rule le_less_trans [OF word_and_le1]) simp
qed

lemma flags_or:
  assumes "frame_of p = p" "f < 4096"
  shows "frame_of (p OR f) = p" "(p OR f) AND 1 = f AND 1"
proof -
  show "frame_of (p OR f) = p"
    using frame_of_plus [OF assms] frame_plus [OF assms] by simp
  have "p AND 1 = 0"
  proof (rule bit_word_eqI)
    show "bit (p AND 1) n = bit 0 n" for n
      using frame_of_bits [of p n] assms(1) by (auto simp: bit_simps)
  qed
  then show "(p OR f) AND 1 = f AND 1" by (simp add: bit.conj_disj_distrib2)
qed

section \<open>The tables as the hardware reads them\<close>

definition pde :: "memory \<Rightarrow> u32 \<Rightarrow> u32" where
  "pde m i = rd32 m (cell page_dir i)"

definition present :: "u32 \<Rightarrow> bool" where
  "present e \<longleftrightarrow> e AND 1 \<noteq> 0"

lemma page_dir_frame [simp]: "frame_of page_dir = page_dir"
  by (simp add: page_dir_def VMM_PD_ADDR_def frame_of_def)

lemma flag_values [simp]: "PG_PRESENT = 1" "PG_WRITABLE = 2"
  by (simp_all add: PG_PRESENT_def PG_WRITABLE_def)

lemma hw_walk_pde:
  "hw_walk m page_dir va =
     (if present (pde m (pd_index va))
      then let e = rd32 m (cell (frame_of (pde m (pd_index va))) (pt_index va))
        in if present e then Some (frame_of e + (va AND 0xFFF)) else None
      else None)"
  by (simp add: hw_walk_def present_def pde_def pd_index_def pt_index_def Let_def
      frame_plus [OF frame_of_idem frame_low(2)])

text \<open>While paging is off, \<open>vmm_v_to_p\<close> computes what the MMU would find, with 0 for a fault.\<close>

lemma v_to_p_direct:
  "\<not> paging s \<Longrightarrow> vmm_v_to_p v s =
     Inr (case hw_walk (ram s) page_dir v of None \<Rightarrow> 0 | Some p \<Rightarrow> p)"
  unfolding hw_walk_pde vmm_v_to_p_def frame_of_def [symmetric]
  by (simp add: run_simps pde_def present_def Let_def)

text \<open>Reading a cell depends on the bytes of its frame only.\<close>

lemma cell_byte:
  assumes "frame_of q = q" "j < 1024" "k \<in> {0, 1, 2, 3}"
  shows "frame_of (cell q j + k) = q"
proof -
  have "unat (4 * j + k) = 4 * unat j + unat k"
    using assms(2,3) by (subst unat_add_lem [THEN iffD1]) (auto simp: unat_cell_offset word_less_nat_alt)
  then have "4 * j + k < 4096" using assms(2,3) by (auto simp: word_less_nat_alt)
  from frame_of_plus [OF assms(1) this] show ?thesis by (simp add: cell_def add.assoc)
qed

lemma rd32_frame_cong:
  assumes "frame_of q = q" "j < 1024" "\<And>a. frame_of a = q \<Longrightarrow> m a = m' a"
  shows "rd32 m (cell q j) = rd32 m' (cell q j)"
  using assms(3) cell_byte [OF assms(1,2)] cell_byte [OF assms(1,2), of 0] by (simp add: rd32_def)

lemma wr32_other_frame:
  assumes "frame_of q = q" "j < 1024" "frame_of a \<noteq> q"
  shows "wr32 (cell q j) v m a = m a"
proof (rule wr32_other, intro ballI notI)
  fix i :: u32 assume "i \<in> {0, 1, 2, 3}" "cell q j + i = a"
  with cell_byte [OF assms(1,2)] assms(3) show False by metis
qed

lemma rd32_wr32_cell:
  assumes "frame_of p = p" "frame_of q = q" "i < 1024" "j < 1024"
  shows "rd32 (wr32 (cell p i) v m) (cell q j) =
    (if p = q \<and> i = j then v else rd32 m (cell q j))"
  using sep4_cells [OF assms] by (auto simp: mem_simps)

section \<open>Filling a table\<close>

definition fill_table :: "u32 \<Rightarrow> (nat \<Rightarrow> u32) \<Rightarrow> memory \<Rightarrow> memory" where
  "fill_table p g = fold (\<lambda>i m. wr32 (cell p (of_nat i)) (g i) m) [0..<1024]"

lemma fill_direct:
  "\<not> paging s \<Longrightarrow> foldE (\<lambda>i s. st32 (cell p (of_nat i)) (g i) s) xs s =
     Inr (s\<lparr>ram := fold (\<lambda>i m. wr32 (cell p (of_nat i)) (g i) m) xs (ram s)\<rparr>)"
  by (induction xs arbitrary: s) (simp_all add: run_simps)

lemma fill_read_gen:
  assumes "frame_of p = p" "frame_of q = q" "j < 1024" "n \<le> 1024"
  shows "rd32 (fold (\<lambda>i m. wr32 (cell p (of_nat i)) (g i) m) [0..<n] m) (cell q j) =
    (if p = q \<and> unat j < n then g (unat j) else rd32 m (cell q j))"
  using assms(4)
proof (induction n)
  case (Suc n)
  have n: "(of_nat n :: u32) < 1024" "unat (of_nat n :: u32) = n"
    using Suc.prems by (simp_all add: word_less_nat_alt unat_of_nat)
  have "of_nat n = j \<longleftrightarrow> unat j = n" using n(2) by auto
  then show ?case
    using Suc rd32_wr32_cell [OF assms(1,2) n(1) assms(3)] by auto
qed simp

lemma fill_read:
  assumes "frame_of p = p" "frame_of q = q" "j < 1024"
  shows "rd32 (fill_table p g m) (cell q j) = (if p = q then g (unat j) else rd32 m (cell q j))"
  using fill_read_gen [OF assms, of 1024 g m] assms(3)
  by (simp add: fill_table_def word_less_nat_alt del: upt.simps upt_Suc)

lemma fill_other:
  assumes "frame_of p = p" "frame_of a \<noteq> p"
  shows "fill_table p g m a = m a"
proof -
  have "fold (\<lambda>i m. wr32 (cell p (of_nat i)) (g i) m) [0..<n] m a = m a" if "n \<le> 1024" for n
    using that
  proof (induction n)
    case (Suc n)
    have "(of_nat n :: u32) < 1024" using Suc.prems by (simp add: word_less_nat_alt unat_of_nat)
    with Suc assms show ?case by (simp add: wr32_other_frame)
  qed simp
  from this [of 1024] show ?thesis by (simp add: fill_table_def del: upt.simps upt_Suc)
qed

section \<open>Invariant\<close>

text \<open>
  The frames the tables live in: handed out by the allocator, apart from the directory, and
  holding no byte of the allocator's bitmap; nothing the allocator can still hand out is the
  directory or holds bitmap bytes.  The code reserves neither (see the properties), so this is
  what a caller must have arranged for the operations to be correct.
\<close>

definition off_bitmap :: "u32 \<Rightarrow> u32 \<Rightarrow> bool" where
  "off_bitmap n p \<longleftrightarrow> (\<forall>a. frame_of a = p \<longrightarrow> n \<le> a - BITMAP_START)"

definition table_ok :: "'a pmm_scheme \<Rightarrow> u32 \<Rightarrow> bool" where
  "table_ok s p \<longleftrightarrow> p \<in> frame_owned s \<and> p \<noteq> page_dir \<and> off_bitmap (total_pages s) p"

definition vmm_inv :: "'a vmm_scheme \<Rightarrow> bool" where
  "vmm_inv s \<longleftrightarrow> pmm_inv s \<and>
     (\<forall>i < 1024. present (pde (ram s) i) \<longrightarrow> table_ok s (frame_of (pde (ram s) i))) \<and>
     (\<forall>p \<in> frame_pool s - frame_owned s. p \<noteq> page_dir \<and> off_bitmap (total_pages s) p)"

text \<open>A table entered in one directory slot only.\<close>

definition unshared :: "memory \<Rightarrow> u32 \<Rightarrow> bool" where
  "unshared m i \<longleftrightarrow> (\<forall>j < 1024. j \<noteq> i \<and> present (pde m j) \<and> present (pde m i) \<longrightarrow>
     frame_of (pde m j) \<noteq> frame_of (pde m i))"

lemma page_frame: "frame_of (k * PAGE_SIZE) = k * PAGE_SIZE"
proof -
  have "k * PAGE_SIZE = push_bit 12 k" by (simp add: PAGE_SIZE_def push_bit_eq_mult)
  then show ?thesis by (intro bit_word_eqI) (auto simp: frame_of_bits bit_simps)
qed

lemma owned_frame: "p \<in> frame_owned s \<Longrightarrow> frame_of p = p"
  by (auto simp: frame_owned_def page_frame)

lemma table_ok_frame: "table_ok s p \<Longrightarrow> frame_of p = p"
  unfolding table_ok_def by (blast intro: owned_frame)

lemma pool_frame: "p \<in> frame_pool s \<Longrightarrow> frame_of p = p"
  by (auto simp: frame_pool_def page_frame)

lemma dir_off_bitmap: "n \<le> 0x100000 \<Longrightarrow> off_bitmap n page_dir"
  unfolding off_bitmap_def
proof (intro allI impI)
  fix a assume n: "n \<le> 0x100000" and a: "frame_of a = page_dir"
  have "a - BITMAP_START = 0x1000000 + (a AND 0xFFF)"
    using frame_low(1) [of a] a by (simp add: page_dir_def config_defs algebra_simps)
  moreover have "unat (0x1000000 + (a AND 0xFFF)) = 0x1000000 + unat (a AND 0xFFF)"
    using frame_low(2) [of a] by (subst unat_add_lem [THEN iffD1]) (auto simp: word_less_nat_alt)
  ultimately show "n \<le> a - BITMAP_START"
    using n by (simp add: word_le_nat_alt)
qed

lemma pmm_inv_ram:
  assumes "pmm_inv s" "\<And>a. a - BITMAP_START < total_pages s \<Longrightarrow> m a = ram s a"
  shows "pmm_inv (s\<lparr>ram := m\<rparr>)" "used_set (s\<lparr>ram := m\<rparr>) = used_set s"
proof -
  have b: "m (bitmap s + i) = ram s (bitmap s + i)" if "i < total_pages s" for i
    using assms that by (simp add: pmm_inv_def)
  then show u: "used_set (s\<lparr>ram := m\<rparr>) = used_set s" by (auto simp: used_set_def)
  show "pmm_inv (s\<lparr>ram := m\<rparr>)" using assms(1) b u by (auto simp: pmm_inv_def)
qed

lemma off_bitmap_frame: "off_bitmap n p \<Longrightarrow> a - BITMAP_START < n \<Longrightarrow> frame_of a \<noteq> p"
  by (auto simp: off_bitmap_def not_less [symmetric])

text \<open>The translation depends on the bytes of the directory and of the tables it enters.\<close>

lemma hw_walk_cong:
  assumes "\<And>a. frame_of a = page_dir \<Longrightarrow> m' a = m a"
    and "\<And>a. present (pde m (pd_index va)) \<Longrightarrow> frame_of a = frame_of (pde m (pd_index va)) \<Longrightarrow> m' a = m a"
  shows "hw_walk m' page_dir va = hw_walk m page_dir va"
proof -
  have "pde m' (pd_index va) = pde m (pd_index va)"
    unfolding pde_def by (rule rd32_frame_cong) (simp_all add: index_less assms(1))
  moreover have "rd32 m' (cell (frame_of (pde m (pd_index va))) (pt_index va)) =
      rd32 m (cell (frame_of (pde m (pd_index va))) (pt_index va))" if "present (pde m (pd_index va))"
    by (rule rd32_frame_cong) (simp_all add: index_less assms(2) that)
  ultimately show ?thesis by (simp add: hw_walk_pde Let_def)
qed

lemma vmm_inv_emit [simp]: "vmm_inv (emit e s) = vmm_inv s"
  by (simp add: vmm_inv_def table_ok_def)

lemma vmm_inv_total_mapped [simp]: "vmm_inv (s\<lparr>total_mapped := n\<rparr>) = vmm_inv s"
  by (simp add: vmm_inv_def table_ok_def pmm_inv_def frame_owned_def frame_pool_def used_set_def paging_def)

text \<open>
  A change of RAM that spares the bitmap and keeps every directory entry as it was keeps the
  invariant.
\<close>

lemma vmm_inv_ram:
  assumes "vmm_inv s" "\<And>a. a - BITMAP_START < total_pages s \<Longrightarrow> m a = ram s a"
    "\<And>i. i < 1024 \<Longrightarrow> pde m i = pde (ram s) i"
  shows "vmm_inv (s\<lparr>ram := m\<rparr>)" "frame_owned (s\<lparr>ram := m\<rparr>) = frame_owned s"
    "frame_pool (s\<lparr>ram := m\<rparr>) = frame_pool s"
proof -
  have p: "pmm_inv s" using assms(1) by (simp add: vmm_inv_def)
  show o: "frame_owned (s\<lparr>ram := m\<rparr>) = frame_owned s"
    using pmm_inv_ram(2) [OF p] assms(2) by (simp add: frame_owned_def)
  show q: "frame_pool (s\<lparr>ram := m\<rparr>) = frame_pool s" by (simp add: frame_pool_def)
  show "vmm_inv (s\<lparr>ram := m\<rparr>)"
    using assms pmm_inv_ram(1) [OF p] o q by (simp add: vmm_inv_def table_ok_def)
qed

section \<open>Making sure a table exists\<close>

lemma free_frame_not_owned:
  assumes "pmm_inv s" "4096 \<le> k" "k < total_pages s" "ram s (bitmap s + k) = 0"
  shows "k * PAGE_SIZE \<in> frame_pool s - frame_owned s"
  using assms owned_page_iff [OF assms(1) managed_small [OF assms(1,3)]]
  by (auto simp: frame_pool_def used_set_def)

text \<open>The frame \<open>p\<close>, cleared and entered in slot \<open>i\<close>.\<close>

definition new_table :: "u32 \<Rightarrow> u32 \<Rightarrow> memory \<Rightarrow> memory" where
  "new_table i p m = wr32 (cell page_dir i) (p OR 3) (fill_table p (\<lambda>_. 0) m)"

lemma new_table_facts:
  assumes "frame_of p = p" "p \<noteq> page_dir" "i < 1024"
  shows "j < 1024 \<Longrightarrow> pde (new_table i p m) j = (if j = i then p OR 3 else pde m j)"
    and "j < 1024 \<Longrightarrow> frame_of q = q \<Longrightarrow> q \<noteq> page_dir \<Longrightarrow>
      rd32 (new_table i p m) (cell q j) = (if p = q then 0 else rd32 m (cell q j))"
    and "frame_of a \<noteq> p \<Longrightarrow> frame_of a \<noteq> page_dir \<Longrightarrow> new_table i p m a = m a"
proof -
  show "j < 1024 \<Longrightarrow> pde (new_table i p m) j = (if j = i then p OR 3 else pde m j)"
    using assms by (simp add: new_table_def pde_def rd32_wr32_cell fill_read)
  show "j < 1024 \<Longrightarrow> frame_of q = q \<Longrightarrow> q \<noteq> page_dir \<Longrightarrow>
      rd32 (new_table i p m) (cell q j) = (if p = q then 0 else rd32 m (cell q j))"
    using assms by (simp add: new_table_def rd32_wr32_cell fill_read)
  show "frame_of a \<noteq> p \<Longrightarrow> frame_of a \<noteq> page_dir \<Longrightarrow> new_table i p m a = m a"
    using assms by (simp add: new_table_def wr32_other_frame fill_other)
qed

lemma entry_flags:
  assumes "frame_of p = p"
  shows "frame_of (p OR 3) = p" "present (p OR 3)" "frame_of (p OR 1 OR 2) = p"
proof -
  have "(3 :: u32) = 1 OR 2" by simp
  then show "frame_of (p OR 3) = p" "present (p OR 3)" "frame_of (p OR 1 OR 2) = p"
    using flags_or [OF assms, of 3] by (simp_all add: present_def)
qed

lemma need_table_fresh:
  assumes "\<not> paging s" "\<not> present (pde (ram s) i)" "alloc_page s = Inr (p, s1)" "p \<noteq> 0" "\<not> paging s1"
  shows "vmm_need_table i s = Inr (True, emit (Kprintf (''%s %s Created new page table at PD[%d]'' @ crlf)
     [ArgS LOG_INFO, ArgS LOG_VMM, ArgW i]) (s1\<lparr>ram := new_table i p (ram s1)\<rparr>))"
  using assms
  by (simp add: vmm_need_table_def run_simps fill_direct pde_def present_def new_table_def
      fill_table_def del: append.simps)

text \<open>Walks do not change when a cleared table is entered in an empty slot.\<close>

lemma new_table_walk:
  assumes p: "frame_of p = p" "p \<noteq> page_dir" and i: "i < 1024" "\<not> present (pde m i)"
    and fresh: "\<And>j. j < 1024 \<Longrightarrow> present (pde m j) \<Longrightarrow> frame_of (pde m j) \<noteq> p \<and> frame_of (pde m j) \<noteq> page_dir"
  shows "hw_walk (new_table i p m) page_dir va = hw_walk m page_dir va"
proof (cases "pd_index va = i")
  case True
  have "\<not> present 0" by (simp add: present_def)
  with True show ?thesis
    using i entry_flags [OF p(1)] p
    by (simp add: hw_walk_pde new_table_facts [OF p i(1)] index_less Let_def)
next
  case False
  have "rd32 (new_table i p m) (cell (frame_of (pde m (pd_index va))) (pt_index va)) =
      rd32 m (cell (frame_of (pde m (pd_index va))) (pt_index va))" if "present (pde m (pd_index va))"
    using fresh [OF index_less(1) that]
    by (subst new_table_facts(2) [OF p i(1)]) (auto simp: index_less)
  with False show ?thesis
    by (simp add: hw_walk_pde new_table_facts [OF p i(1)] index_less Let_def)
qed

lemma alloc_keeps_tables:
  assumes "vmm_inv s" "k < total_pages s"
  shows "i < 1024 \<Longrightarrow> pde (ram (alloc_effect k t s)) i = pde (ram s) i"
    and "hw_walk (ram (alloc_effect k t s)) page_dir va = hw_walk (ram s) page_dir va"
    and "frame_of a \<noteq> frame_of (BITMAP_START + k) \<Longrightarrow> ram (alloc_effect k t s) a = ram s a"
proof -
  have p: "pmm_inv s" using assms(1) by (simp add: vmm_inv_def)
  then have b: "bitmap s = BITMAP_START" "total_pages s \<le> 0x100000"
    by (auto simp: pmm_inv_def)
  have off: "off_bitmap (total_pages s) q \<Longrightarrow> frame_of a = q \<Longrightarrow> ram (alloc_effect k t s) a = ram s a" for q a
    using off_bitmap_frame [of "total_pages s" q "BITMAP_START + k"] assms(2) by (auto simp: b)
  have dir: "frame_of a = page_dir \<Longrightarrow> ram (alloc_effect k t s) a = ram s a" for a
    using off [OF dir_off_bitmap [OF b(2)]] .
  show "i < 1024 \<Longrightarrow> pde (ram (alloc_effect k t s)) i = pde (ram s) i"
    unfolding pde_def by (rule rd32_frame_cong) (use dir in auto)
  show "hw_walk (ram (alloc_effect k t s)) page_dir va = hw_walk (ram s) page_dir va"
  proof (rule hw_walk_cong)
    show "ram (alloc_effect k t s) a = ram s a"
      if "present (pde (ram s) (pd_index va))" "frame_of a = frame_of (pde (ram s) (pd_index va))" for a
      using assms(1) that index_less(1) [of va] off [of "frame_of (pde (ram s) (pd_index va))" a]
      by (simp add: vmm_inv_def table_ok_def)
  qed (rule dir)
  show "frame_of a \<noteq> frame_of (BITMAP_START + k) \<Longrightarrow> ram (alloc_effect k t s) a = ram s a"
    by (auto simp: b)
qed

text \<open>Entering a cleared table at a free frame in an empty slot: the invariant, and what the tables are then.\<close>

lemma new_table_inv:
  assumes inv: "vmm_inv s" and i: "i < 1024" "\<not> present (pde (ram s) i)"
    and s1: "pmm_inv s1" "frame_owned s1 = insert p (frame_owned s)" "frame_pool s1 = frame_pool s" "total_pages s1 = total_pages s"
    and pt: "\<And>j. j < 1024 \<Longrightarrow> pde (ram s1) j = pde (ram s) j"
    and p: "frame_of p = p" "p \<noteq> page_dir" "off_bitmap (total_pages s) p" and free: "p \<in> frame_pool s - frame_owned s"
    and s2_def: "s2 = s1\<lparr>ram := new_table i p (ram s1)\<rparr>"
  shows "vmm_inv s2" "frame_owned s2 = insert p (frame_owned s)" "frame_pool s2 = frame_pool s"
    "total_pages s2 = total_pages s" "pde (ram s2) i = p OR 3" "unshared (ram s2) i"
    "hw_walk (ram s2) page_dir = hw_walk (ram s1) page_dir"
proof -
  have pi: "pmm_inv s" using inv by (simp add: vmm_inv_def)
  have spare: "m a = ram s1 a" if "a - BITMAP_START < total_pages s" "m = new_table i p (ram s1)" for m a
  proof -
    have "total_pages s \<le> 0x100000" using pi by (simp add: pmm_inv_def)
    from off_bitmap_frame [OF dir_off_bitmap [OF this] that(1)] off_bitmap_frame [OF p(3) that(1)]
    show ?thesis using that(2) new_table_facts(3) [OF p(1,2) i(1)] by simp
  qed
  have s2: "pmm_inv s2" and o: "frame_owned s2 = insert p (frame_owned s)" "frame_pool s2 = frame_pool s"
      "total_pages s2 = total_pages s"
    using pmm_inv_ram [OF s1(1), of "new_table i p (ram s1)"] spare s1
    by (simp_all add: s2_def frame_owned_def frame_pool_def)
  show "frame_owned s2 = insert p (frame_owned s)" "frame_pool s2 = frame_pool s" "total_pages s2 = total_pages s"
    by (rule o)+
  have pde2: "j < 1024 \<Longrightarrow> pde (ram s2) j = (if j = i then p OR 3 else pde (ram s) j)" for j
    using new_table_facts(1) [OF p(1,2) i(1)] pt by (simp add: s2_def)
  show "pde (ram s2) i = p OR 3" using i by (simp add: pde2)
  have tok: "j < 1024 \<Longrightarrow> present (pde (ram s) j) \<Longrightarrow> table_ok s (frame_of (pde (ram s) j))" for j
    using inv by (simp add: vmm_inv_def)
  show "vmm_inv s2"
    unfolding vmm_inv_def
  proof (intro conjI allI impI)
    fix j :: u32 assume j: "j < 1024" and pr: "present (pde (ram s2) j)"
    show "table_ok s2 (frame_of (pde (ram s2) j))"
    proof (cases "j = i")
      case True
      then show ?thesis using p entry_flags(1) [OF p(1)] j by (simp add: pde2 table_ok_def o)
    next
      case False
      then show ?thesis using tok [OF j] pr j by (simp add: pde2 table_ok_def o)
    qed
  next
    show "\<forall>q \<in> frame_pool s2 - frame_owned s2. q \<noteq> page_dir \<and> off_bitmap (total_pages s2) q"
      using inv by (simp add: vmm_inv_def o)
  qed (rule s2)
  have tne: "frame_of (pde (ram s) j) \<noteq> p \<and> frame_of (pde (ram s) j) \<noteq> page_dir"
    if "j < 1024" "present (pde (ram s) j)" for j
    using tok [OF that] free by (auto simp: table_ok_def)
  show "unshared (ram s2) i"
    using tne i entry_flags(1) [OF p(1)] by (auto simp: unshared_def pde2)
  have "hw_walk (ram s2) page_dir va = hw_walk (ram s1) page_dir va" for va
    unfolding s2_def using new_table_walk [OF p(1,2) i(1), of "ram s1" va] i tne pt by simp
  then show "hw_walk (ram s2) page_dir = hw_walk (ram s1) page_dir" by blast
qed

lemma need_table_ready:
  assumes inv: "vmm_inv s" and i: "i < 1024"
    and room: "present (pde (ram s) i) \<or> frame_owned s \<noteq> frame_pool s"
  obtains s' where "vmm_need_table i s = Inr (True, s')" "vmm_inv s'" "present (pde (ram s') i)"
    "hw_walk (ram s') page_dir = hw_walk (ram s) page_dir" "total_mapped s' = total_mapped s"
    "frame_pool s' = frame_pool s" "frame_owned s \<subseteq> frame_owned s'" "total_pages s' = total_pages s"
    "unshared (ram s) i \<Longrightarrow> unshared (ram s') i"
    "present (pde (ram s) i) \<Longrightarrow> s' = s"
    "cr0 s' = cr0 s" "cr3 s' = cr3 s"
proof (cases "present (pde (ram s) i)")
  case True
  have "\<not> paging s" using inv by (simp add: vmm_inv_def pmm_inv_def)
  with True have "vmm_need_table i s = Inr (True, s)"
    by (simp add: vmm_need_table_def run_simps pde_def present_def)
  from that [OF this] True inv show thesis by simp
next
  case False
  have pi: "pmm_inv s" using inv by (simp add: vmm_inv_def)
  from pi obtain k t where k: "alloc_page s = Inr (k * PAGE_SIZE, alloc_effect k t s)" "4096 \<le> k"
      "k < total_pages s" "ram s (bitmap s + k) = 0" "pmm_inv (alloc_effect k t s)"
    using room False by (cases rule: alloc_page_inv_cases) auto
  define p where "p = k * PAGE_SIZE"
  define s1 where "s1 = alloc_effect k t s"
  have s1: "pmm_inv s1" "frame_owned s1 = insert p (frame_owned s)" "frame_pool s1 = frame_pool s"
      "total_pages s1 = total_pages s" "total_mapped s1 = total_mapped s" "cr0 s1 = cr0 s" "cr3 s1 = cr3 s"
    using k by (simp_all add: s1_def alloc_effect_frames p_def)
  have pt: "j < 1024 \<Longrightarrow> pde (ram s1) j = pde (ram s) j" for j
    using alloc_keeps_tables(1) [OF inv k(3)] by (simp add: s1_def)
  have free: "p \<in> frame_pool s - frame_owned s"
    using free_frame_not_owned [OF pi k(2-4)] by (simp add: p_def)
  have p: "frame_of p = p" "p \<noteq> page_dir" "off_bitmap (total_pages s) p"
    using inv free by (auto simp: p_def page_frame vmm_inv_def)
  have nz: "p \<noteq> 0" unfolding p_def by (rule page_nonzero [OF k(2) managed_small [OF pi k(3)]])
  define s2 where "s2 = s1\<lparr>ram := new_table i p (ram s1)\<rparr>"
  define e where "e = Kprintf (''%s %s Created new page table at PD[%d]'' @ crlf)
     [ArgS LOG_INFO, ArgS LOG_VMM, ArgW i]"
  have run: "vmm_need_table i s = Inr (True, emit e s2)"
    unfolding s2_def e_def
    by (rule need_table_fresh [OF _ False])
      (use k pi s1(1) nz in \<open>simp_all add: p_def s1_def pmm_inv_def\<close>)
  note n = new_table_inv [OF inv i False s1(1-4) pt p free s2_def]
  have "hw_walk (ram s1) page_dir = hw_walk (ram s) page_dir"
    using alloc_keeps_tables(2) [OF inv k(3)] by (auto simp: s1_def)
  then show thesis
    using that [OF run] n entry_flags(2) [OF p(1)] s1 False by simp (auto simp: s2_def)
qed

section \<open>Mapping and unmapping a page\<close>

text \<open>The walk after one page-table entry of a table that no other slot enters has changed.\<close>

lemma entry_update_walk:
  assumes pr: "present (pde m (pd_index v))" and un: "unshared m (pd_index v)"
    and dir: "frame_of (pde m (pd_index v)) \<noteq> page_dir"
    and rd: "\<And>q j. frame_of q = q \<Longrightarrow> j < 1024 \<Longrightarrow>
      q = page_dir \<or> (\<exists>i < 1024. present (pde m i) \<and> q = frame_of (pde m i)) \<Longrightarrow>
      rd32 m' (cell q j) = (if q = frame_of (pde m (pd_index v)) \<and> j = pt_index v then e else rd32 m (cell q j))"
  shows "hw_walk m' page_dir a =
    (if frame_of a = frame_of v then if present e then Some (frame_of e + (a AND 0xFFF)) else None
     else hw_walk m page_dir a)"
proof -
  have pd: "pde m' (pd_index a) = pde m (pd_index a)"
    unfolding pde_def using dir by (subst rd) (auto simp: index_less)
  show ?thesis
  proof (cases "present (pde m (pd_index a))")
    case False
    then show ?thesis using pd pr by (auto simp: hw_walk_pde frame_of_index [of a v])
  next
    case True
    have "frame_of (pde m (pd_index a)) = frame_of (pde m (pd_index v)) \<longleftrightarrow> pd_index a = pd_index v"
      using un True pr index_less by (auto simp: unshared_def)
    moreover have "rd32 m' (cell (frame_of (pde m (pd_index a))) (pt_index a)) =
        (if frame_of (pde m (pd_index a)) = frame_of (pde m (pd_index v)) \<and> pt_index a = pt_index v
         then e else rd32 m (cell (frame_of (pde m (pd_index a))) (pt_index a)))"
      by (rule rd) (use True index_less in auto)
    ultimately show ?thesis
      using pd True
      by (cases "pd_index a = pd_index v \<and> pt_index a = pt_index v")
        (auto simp: hw_walk_pde frame_of_index [of a v] Let_def)
  qed
qed

lemma inv_table:
  assumes "vmm_inv s" "i < 1024" "present (pde (ram s) i)"
  shows "frame_of (pde (ram s) i) \<noteq> page_dir" "off_bitmap (total_pages s) (frame_of (pde (ram s) i))"
    "frame_of (pde (ram s) i) \<in> frame_pool s"
proof -
  have t: "table_ok s (frame_of (pde (ram s) i))" and p: "pmm_inv s"
    using assms by (simp_all add: vmm_inv_def)
  then show "frame_of (pde (ram s) i) \<noteq> page_dir" "off_bitmap (total_pages s) (frame_of (pde (ram s) i))"
    by (simp_all add: table_ok_def)
  show "frame_of (pde (ram s) i) \<in> frame_pool s"
    using t frames.owned_pool [OF p] by (auto simp: table_ok_def)
qed

text \<open>
  A page may be mapped or unmapped when it is aligned, its table is its own (or a frame is left
  for one), and the four bytes that the write test of \<open>vmm_map_page\<close> overwrites, which with
  paging off are those at the physical address \<open>virt\<close>, belong to no table, to no managed frame
  and not to the bitmap.
\<close>

definition page_ready :: "u32 \<Rightarrow> 'a vmm_scheme \<Rightarrow> bool" where
  "page_ready v s \<longleftrightarrow> frame_of v = v \<and> v \<notin> frame_pool s \<and> v \<noteq> page_dir \<and>
     off_bitmap (total_pages s) v \<and> unshared (ram s) (pd_index v) \<and>
     (present (pde (ram s) (pd_index v)) \<or> frame_owned s \<noteq> frame_pool s)"

lemma walk_none_entry:
  "present (pde m (pd_index v)) \<Longrightarrow> hw_walk m page_dir v = None \<longleftrightarrow>
    \<not> present (rd32 m (cell (frame_of (pde m (pd_index v))) (pt_index v)))"
  by (simp add: hw_walk_pde Let_def)

text \<open>One entry of a table of the state is overwritten.\<close>

lemma entry_write:
  fixes s :: "'a vmm_scheme" and e :: u32
  assumes inv: "vmm_inv s" and pr: "present (pde (ram s) (pd_index v))"
    and un: "unshared (ram s) (pd_index v)"
  defines "m \<equiv> wr32 (cell (frame_of (pde (ram s) (pd_index v))) (pt_index v)) e (ram s)"
  shows "vmm_inv (s\<lparr>ram := m\<rparr>)" "frame_owned (s\<lparr>ram := m\<rparr>) = frame_owned s"
    "frame_pool (s\<lparr>ram := m\<rparr>) = frame_pool s" "i < 1024 \<Longrightarrow> pde m i = pde (ram s) i"
    "hw_walk m page_dir = (\<lambda>a. if frame_of a = frame_of v
       then if present e then Some (frame_of e + (a AND 0xFFF)) else None
       else hw_walk (ram s) page_dir a)"
proof -
  note t = inv_table [OF inv index_less(1) pr]
  have rd: "rd32 m (cell q j) = (if q = frame_of (pde (ram s) (pd_index v)) \<and> j = pt_index v then e
      else rd32 (ram s) (cell q j))" if "frame_of q = q" "j < 1024" for q j
    unfolding m_def using rd32_wr32_cell [OF frame_of_idem that(1) index_less(2) that(2)] by auto
  show pd: "i < 1024 \<Longrightarrow> pde m i = pde (ram s) i" for i
    unfolding pde_def using t(1) by (simp add: rd pde_def)
  have "m a = ram s a" if "a - BITMAP_START < total_pages s" for a
    unfolding m_def using off_bitmap_frame [OF t(2) that] by (simp add: wr32_other_frame index_less)
  from vmm_inv_ram [OF inv this pd]
  show "vmm_inv (s\<lparr>ram := m\<rparr>)" "frame_owned (s\<lparr>ram := m\<rparr>) = frame_owned s"
    "frame_pool (s\<lparr>ram := m\<rparr>) = frame_pool s" by blast+
  show "hw_walk m page_dir = (\<lambda>a. if frame_of a = frame_of v
       then if present e then Some (frame_of e + (a AND 0xFFF)) else None
       else hw_walk (ram s) page_dir a)"
    by (rule ext, rule entry_update_walk [OF pr un t(1)]) (rule rd)
qed

text \<open>A write to a frame that is no table changes no translation.\<close>

lemma foreign_write:
  fixes s :: "'a vmm_scheme" and x :: u32
  assumes inv: "vmm_inv s" and v: "frame_of v = v" "v \<notin> frame_pool s" "v \<noteq> page_dir"
    "off_bitmap (total_pages s) v"
  defines "m \<equiv> wr32 v x (ram s)"
  shows "vmm_inv (s\<lparr>ram := m\<rparr>)" "frame_owned (s\<lparr>ram := m\<rparr>) = frame_owned s"
    "frame_pool (s\<lparr>ram := m\<rparr>) = frame_pool s" "i < 1024 \<Longrightarrow> pde m i = pde (ram s) i"
    "hw_walk m page_dir = hw_walk (ram s) page_dir"
proof -
  have o: "m a = ram s a" if "frame_of a \<noteq> v" for a
    unfolding m_def using wr32_other_frame [OF v(1) _ that, of 0] by (simp add: cell_def)
  show pd: "i < 1024 \<Longrightarrow> pde m i = pde (ram s) i" for i
    unfolding pde_def by (rule rd32_frame_cong) (use o v in auto)
  from vmm_inv_ram [OF inv _ pd] o off_bitmap_frame [OF v(4)]
  show "vmm_inv (s\<lparr>ram := m\<rparr>)" "frame_owned (s\<lparr>ram := m\<rparr>) = frame_owned s"
    "frame_pool (s\<lparr>ram := m\<rparr>) = frame_pool s" by blast+
  show "hw_walk m page_dir = hw_walk (ram s) page_dir"
  proof (rule ext, rule hw_walk_cong)
    show "m a = ram s a" if "present (pde (ram s) (pd_index va))"
      "frame_of a = frame_of (pde (ram s) (pd_index va))" for a va
      using inv_table(3) [OF inv index_less(1) that(1)] that(2) v o [of a] by auto
  qed (use v o in auto)
qed

text \<open>The run of \<open>vmm_map_page\<close> after the table is there.\<close>

definition map_msg :: "u32 \<Rightarrow> u32 \<Rightarrow> event" where
  "map_msg v p = Kprintf (''%s %s Mapping: %x -> %x (PD:%d, PT:%d)'' @ crlf)
     [ArgS LOG_INFO, ArgS LOG_VMM, ArgW v, ArgW p, ArgW (pd_index v), ArgW (pt_index v)]"

definition mapped_ram :: "u32 \<Rightarrow> u32 \<Rightarrow> memory \<Rightarrow> memory" where
  "mapped_ram v e m =
     wr32 v 0xDEADBEEF (wr32 (cell (frame_of (pde m (pd_index v))) (pt_index v)) e m)"

lemma map_page_run:
  assumes "vmm_need_table (pd_index v) (emit (map_msg v p) s) = Inr (True, u)" "\<not> paging u"
    and "\<not> present (rd32 (ram u) (cell (frame_of (pde (ram u) (pd_index v))) (pt_index v)))"
  shows "\<exists>t'. vmm_map_page v p fl s = Inr (u\<lparr>total_mapped := total_mapped u + 1,
    ram := mapped_ram v (p OR fl) (ram u), trace := t'\<rparr>)"
proof -
  have "rd32 (ram u) (cell (frame_of (pde (ram u) (pd_index v))) (pt_index v)) AND 1 = 0"
    using assms(3) by (simp add: present_def)
  then show ?thesis
    unfolding vmm_map_page_def Let_def map_msg_def [symmetric] frame_of_def [symmetric] assms(1)
    using assms(2) by (simp add: run_simps pde_def mapped_ram_def emit_def) blast
qed

lemma vmm_inv_trace [simp]: "vmm_inv (s\<lparr>trace := t\<rparr>) = vmm_inv s"
  by (simp add: vmm_inv_def table_ok_def pmm_inv_def frame_owned_def frame_pool_def used_set_def paging_def)

lemma frames_vmm [simp]:
  "frame_owned (s\<lparr>trace := t\<rparr>) = frame_owned s" "frame_pool (s\<lparr>trace := t\<rparr>) = frame_pool s"
  "frame_owned (s\<lparr>total_mapped := n\<rparr>) = frame_owned s" "frame_pool (s\<lparr>total_mapped := n\<rparr>) = frame_pool s"
  by (simp_all add: frame_owned_def frame_pool_def used_set_def)

lemma inv_direct: "vmm_inv s \<Longrightarrow> \<not> paging s"
  by (simp add: vmm_inv_def pmm_inv_def)

lemma map_page_new:
  assumes inv: "vmm_inv s" and rdy: "page_ready v s" and no: "hw_walk (ram s) page_dir v = None"
    and p: "frame_of p = p" and fl: "fl < 4096" "fl AND 1 = 1"
  shows "\<exists>s'. vmm_map_page v p fl s = Inr s' \<and> vmm_inv s' \<and> page_ready v s' \<and>
    hw_walk (ram s') page_dir =
      (\<lambda>a. if frame_of a = v then Some (p + (a AND 0xFFF)) else hw_walk (ram s) page_dir a) \<and>
    total_mapped s' = total_mapped s + 1 \<and> cr0 s' = cr0 s"
proof -
  have v: "frame_of v = v" "v \<notin> frame_pool s" "v \<noteq> page_dir" "off_bitmap (total_pages s) v"
      "unshared (ram s) (pd_index v)"
    using rdy by (simp_all add: page_ready_def)
  let ?s = "emit (map_msg v p) s"
  have "vmm_inv ?s" "present (pde (ram ?s) (pd_index v)) \<or> frame_owned ?s \<noteq> frame_pool ?s"
    using inv rdy by (simp_all add: page_ready_def)
  from need_table_ready [OF this(1) index_less(1) this(2)] obtain u where
    u: "vmm_need_table (pd_index v) ?s = Inr (True, u)" "vmm_inv u" "present (pde (ram u) (pd_index v))"
    "hw_walk (ram u) page_dir = hw_walk (ram s) page_dir" "total_mapped u = total_mapped s"
    "frame_pool u = frame_pool s" "total_pages u = total_pages s" "unshared (ram u) (pd_index v)"
    "cr0 u = cr0 s"
    using v(5) by (simp, metis)
  have ab: "\<not> present (rd32 (ram u) (cell (frame_of (pde (ram u) (pd_index v))) (pt_index v)))"
    using walk_none_entry [OF u(3)] no u(4) by simp
  obtain t' where run: "vmm_map_page v p fl s = Inr (u\<lparr>total_mapped := total_mapped u + 1,
      ram := mapped_ram v (p OR fl) (ram u), trace := t'\<rparr>)"
    using map_page_run [OF u(1) inv_direct [OF u(2)] ab] by blast
  let ?m = "wr32 (cell (frame_of (pde (ram u) (pd_index v))) (pt_index v)) (p OR fl) (ram u)"
  let ?w = "u\<lparr>ram := ?m\<rparr>"
  note w = entry_write [OF u(2,3,8), where e = "p OR fl"]
  have mm: "mapped_ram v (p OR fl) (ram u) = wr32 v 0xDEADBEEF (ram ?w)" by (simp add: mapped_ram_def)
  have vw: "v \<notin> frame_pool ?w" "off_bitmap (total_pages ?w) v" using v w(3) u by simp_all
  note x = foreign_write [OF w(1) v(1) vw(1) v(3) vw(2), where x = "0xDEADBEEF", folded mm]
  let ?r = "u\<lparr>total_mapped := total_mapped u + 1, ram := mapped_ram v (p OR fl) (ram u), trace := t'\<rparr>"
  have "?r = u\<lparr>ram := mapped_ram v (p OR fl) (ram u), total_mapped := total_mapped u + 1, trace := t'\<rparr>"
    by (cases u) simp
  moreover have "vmm_inv (u\<lparr>ram := mapped_ram v (p OR fl) (ram u)\<rparr>)" using x(1) by simp
  ultimately have inv': "vmm_inv ?r" by (simp only: vmm_inv_trace vmm_inv_total_mapped)
  have pd: "j < 1024 \<Longrightarrow> pde (ram ?r) j = pde (ram u) j" for j using x(4) [of j] w(4) by simp
  have e: "present (p OR fl)" "frame_of (p OR fl) = p"
    using flags_or [OF p fl(1)] fl(2) by (simp_all add: present_def)
  have look: "hw_walk (ram ?r) page_dir =
      (\<lambda>a. if frame_of a = v then Some (p + (a AND 0xFFF)) else hw_walk (ram s) page_dir a)"
    using x(5) w(5) e v(1) u(4) by (simp cong: if_cong)
  have pool: "frame_pool ?r = frame_pool s" using u(6) by (simp add: frame_pool_def)
  have "unshared (ram ?r) (pd_index v)"
    unfolding unshared_def by (simp only: pd index_less simp_thms cong: conj_cong)
      (use u(8) pd index_less in \<open>auto simp: unshared_def\<close>)
  moreover have "present (pde (ram ?r) (pd_index v))" unfolding pd [OF index_less(1)] by (rule u(3))
  ultimately have "page_ready v ?r"
    unfolding page_ready_def pool using v u(7) by simp
  with run inv' look u(5,9) show ?thesis by simp
qed

lemma map_page_old:
  assumes np: "\<not> paging s" and "hw_walk (ram s) page_dir v \<noteq> None"
  shows "vmm_map_page v p fl s = Inr (emit (Kprintf (''%s %s Page %x already mapped!'' @ crlf)
      [ArgS LOG_WARN, ArgS LOG_VMM, ArgW v]) (emit (map_msg v p) s))"
proof -
  have pr: "present (pde (ram s) (pd_index v))"
    using assms(2) by (auto simp: hw_walk_pde split: if_splits)
  then have "present (rd32 (ram s) (cell (frame_of (pde (ram s) (pd_index v))) (pt_index v)))"
    using assms(2) walk_none_entry [of "ram s" v] by simp
  moreover have "vmm_need_table (pd_index v) (emit (map_msg v p) s) = Inr (True, emit (map_msg v p) s)"
    using np pr by (simp add: vmm_need_table_def run_simps pde_def present_def)
  ultimately show ?thesis
    using np unfolding vmm_map_page_def Let_def map_msg_def [symmetric] frame_of_def [symmetric]
    by (simp add: run_simps pde_def present_def)
qed

lemma unmap_page_old:
  assumes inv: "vmm_inv s" and look: "hw_walk (ram s) page_dir v \<noteq> None"
    and un: "unshared (ram s) (pd_index v)"
  shows "\<exists>s'. vmm_unmap_page v s = Inr s' \<and> vmm_inv s' \<and>
    hw_walk (ram s') page_dir = (\<lambda>a. if frame_of a = frame_of v then None else hw_walk (ram s) page_dir a) \<and>
    total_mapped s' = total_mapped s - 1 \<and> frame_owned s' = frame_owned s \<and> frame_pool s' = frame_pool s \<and>
    total_pages s' = total_pages s \<and> cr0 s' = cr0 s \<and> (\<forall>j < 1024. pde (ram s') j = pde (ram s) j)"
proof -
  have np: "\<not> paging s" by (rule inv_direct [OF inv])
  have pr: "present (pde (ram s) (pd_index v))"
    using look by (auto simp: hw_walk_pde split: if_splits)
  then have e: "present (rd32 (ram s) (cell (frame_of (pde (ram s) (pd_index v))) (pt_index v)))"
    using look walk_none_entry [of "ram s" v] by simp
  let ?m = "wr32 (cell (frame_of (pde (ram s) (pd_index v))) (pt_index v)) 0 (ram s)"
  note w = entry_write [OF inv pr un, where e = 0]
  have "\<exists>t. vmm_unmap_page v s = Inr (s\<lparr>ram := ?m, total_mapped := total_mapped s - 1, trace := t\<rparr>)"
    using np pr e unfolding vmm_unmap_page_def Let_def frame_of_def [symmetric]
    by (simp add: run_simps pde_def present_def emit_def) blast
  then obtain t where t: "vmm_unmap_page v s = Inr (s\<lparr>ram := ?m, total_mapped := total_mapped s - 1, trace := t\<rparr>)"
    by blast
  have z: "\<not> present 0" by (simp add: present_def)
  show ?thesis
    by (rule exI, rule conjI [OF t],
        simp only: vmm_inv_trace vmm_inv_total_mapped frames_vmm w(1-3), simp add: w(4,5) z cong: if_cong)
qed

lemma unmap_page_none:
  assumes inv: "vmm_inv s" and "hw_walk (ram s) page_dir v = None"
  shows "\<exists>e. vmm_unmap_page v s = Inr (emit e s)"
proof -
  have np: "\<not> paging s" by (rule inv_direct [OF inv])
  show ?thesis
  proof (cases "present (pde (ram s) (pd_index v))")
    case True
    then have "\<not> present (rd32 (ram s) (cell (frame_of (pde (ram s) (pd_index v))) (pt_index v)))"
      using assms(2) walk_none_entry [of "ram s" v] by simp
    with np True show ?thesis unfolding vmm_unmap_page_def Let_def frame_of_def [symmetric]
      by (simp add: run_simps pde_def present_def) blast
  next
    case False
    with np show ?thesis unfolding vmm_unmap_page_def Let_def
      by (simp add: run_simps pde_def present_def) blast
  qed
qed

lemma page_ready_emit [simp]: "page_ready v (emit e s) = page_ready v s"
  by (simp add: page_ready_def)

lemma walk_same_page:
  assumes "frame_of a = frame_of b"
  shows "hw_walk m page_dir a = None \<longleftrightarrow> hw_walk m page_dir b = None"
  using assms by (simp add: frame_of_index hw_walk_pde Let_def)

interpretation pages: page_map vmm_inv "\<lambda>s. hw_walk (ram s) page_dir" page_ready
  "\<lambda>v p s. vmm_map_page v p (PG_PRESENT OR PG_WRITABLE) s" vmm_unmap_page
proof unfold_locales
  fix s :: "'a vmm_scheme" and v p :: u32
  assume inv: "vmm_inv s" and rdy: "page_ready v s"
  then have v: "frame_of v = v" by (simp add: page_ready_def)
  show "\<exists>s'. vmm_map_page v p (PG_PRESENT OR PG_WRITABLE) s = Inr s' \<and> vmm_inv s' \<and> page_ready v s' \<and>
      hw_walk (ram s') page_dir =
        (\<lambda>a. if frame_of a = v then Some (p + (a AND 0xFFF)) else hw_walk (ram s) page_dir a)"
    if "hw_walk (ram s) page_dir v = None" "frame_of p = p"
    using map_page_new [OF inv rdy that, of 3] by auto
  show "\<exists>s'. vmm_map_page v p (PG_PRESENT OR PG_WRITABLE) s = Inr s' \<and> vmm_inv s' \<and> page_ready v s' \<and>
      hw_walk (ram s') page_dir = hw_walk (ram s) page_dir"
    if "hw_walk (ram s) page_dir v \<noteq> None"
    unfolding map_page_old [OF inv_direct [OF inv] that] using inv rdy by simp
  show "\<exists>s'. vmm_unmap_page v s = Inr s' \<and> vmm_inv s' \<and> page_ready v s' \<and>
      hw_walk (ram s') page_dir = hw_walk (ram s) page_dir"
    if "hw_walk (ram s) page_dir v = None"
    using unmap_page_none [OF inv that] inv rdy by auto
  show "\<exists>s'. vmm_unmap_page v s = Inr s' \<and> vmm_inv s' \<and> page_ready v s' \<and>
      hw_walk (ram s') page_dir = (\<lambda>a. if frame_of a = v then None else hw_walk (ram s) page_dir a)"
    if look: "hw_walk (ram s) page_dir v \<noteq> None"
  proof -
    have un: "unshared (ram s) (pd_index v)" using rdy by (simp add: page_ready_def)
    obtain s' where s': "vmm_unmap_page v s = Inr s'" "vmm_inv s'" "hw_walk (ram s') page_dir =
        (\<lambda>a. if frame_of a = frame_of v then None else hw_walk (ram s) page_dir a)"
      "frame_owned s' = frame_owned s" "frame_pool s' = frame_pool s" "total_pages s' = total_pages s"
      and pd: "\<forall>j < 1024. pde (ram s') j = pde (ram s) j"
      using unmap_page_old [OF inv look un] by blast
    have "unshared (ram s') (pd_index v)" using un pd index_less by (auto simp: unshared_def)
    then have "page_ready v s'" using rdy s' pd index_less by (simp add: page_ready_def)
    with s' v show ?thesis by simp
  qed
next
  show "frame_of a = frame_of b \<Longrightarrow> hw_walk (ram s) page_dir a = None \<longleftrightarrow> hw_walk (ram s) page_dir b = None"
    for a b and s :: "'a vmm_scheme" by (rule walk_same_page)
  show "page_ready v s \<Longrightarrow> frame_of v = v" for v and s :: "'a vmm_scheme" by (simp add: page_ready_def)
qed

section \<open>Initialisation\<close>

lemma unat_indices:
  "unat (pd_index v) = unat v div 2 ^ 22" "unat (pt_index v) = unat v div 4096 mod 1024"
  "unat (v AND 0xFFF) = unat v mod 4096"
proof -
  have "unat v < 2 ^ LENGTH(32)" by (rule unsigned_less)
  then have "unat v div 2 ^ 22 mod 2 ^ 10 = unat v div 2 ^ 22"
    by (intro mod_less) (simp add: less_mult_imp_div_less)
  then show "unat (pd_index v) = unat v div 2 ^ 22"
    unfolding pd_index_def mask_0x3FF take_bit_eq_mask [symmetric]
      unsigned_take_bit_eq unat_drop_bit_eq by (simp add: take_bit_eq_mod drop_bit_eq_div)
  show "unat (pt_index v) = unat v div 4096 mod 1024"
    unfolding pt_index_def mask_0x3FF take_bit_eq_mask [symmetric]
      unsigned_take_bit_eq unat_drop_bit_eq by (simp add: take_bit_eq_mod drop_bit_eq_div)
  show "unat (v AND 0xFFF) = unat v mod 4096"
    unfolding mask_0xFFF take_bit_eq_mask [symmetric] unsigned_take_bit_eq by (simp add: take_bit_eq_mod)
qed

text \<open>An address of slot \<open>i\<close> is its slot's base plus its page and offset.\<close>

lemma slot_address:
  "unat v = unat (pd_index v) * 2 ^ 22 + (unat (pt_index v) * 4096 + unat (v AND 0xFFF))"
proof -
  have "unat v div 4096 mod 1024 * 4096 + unat v mod 4096 = unat v mod 2 ^ 22"
    using mod_mult2_eq [of "unat v" 4096 1024] by simp
  then show ?thesis unfolding unat_indices by simp
qed

lemma slot_offset:
  "unat (pt_index v * PAGE_SIZE + (v AND 0xFFF)) = unat (pt_index v) * 4096 + unat (v AND 0xFFF)"
proof -
  have "unat (pt_index v * PAGE_SIZE) = unat (pt_index v) * 4096"
    by (rule unat_page) (use index_less(2) [of v] in \<open>rule less_trans\<close>, simp)
  then show ?thesis
    using index_less(2) [of v] frame_low(2) [of v]
    by (subst unat_add_lem [THEN iffD1]) (auto simp: word_less_nat_alt)
qed

lemma slot_0: "pd_index v = 0 \<longleftrightarrow> v < 0x400000"
  and slot_768: "pd_index v = 768 \<longleftrightarrow> 0xC0000000 \<le> v \<and> v < 0xC0400000"
proof -
  have i: "pd_index v = c \<longleftrightarrow> unat v div 2 ^ 22 = unat c" for c
    unfolding unat_indices [symmetric] by (metis unsigned_word_eqI)
  show "pd_index v = 0 \<longleftrightarrow> v < 0x400000"
    unfolding i by (auto simp: word_less_nat_alt div_eq_0_iff)
  show "pd_index v = 768 \<longleftrightarrow> 0xC0000000 \<le> v \<and> v < 0xC0400000"
    unfolding i word_le_nat_alt word_less_nat_alt by simp arith
qed

lemma slot_value:
  "pd_index v = 0 \<Longrightarrow> pt_index v * PAGE_SIZE + (v AND 0xFFF) = v"
  "pd_index v = 768 \<Longrightarrow> pt_index v * PAGE_SIZE + (v AND 0xFFF) = v - 0xC0000000"
proof -
  show "pd_index v = 0 \<Longrightarrow> pt_index v * PAGE_SIZE + (v AND 0xFFF) = v"
    using slot_address [of v] slot_offset [of v] by (metis unsigned_word_eqI unsigned_0 mult_0 add_0)
  assume s: "pd_index v = 768"
  then have "0xC0000000 \<le> v" by (simp add: slot_768)
  then have "unat (v - 0xC0000000) = unat v - 0xC0000000" by (simp add: unat_sub)
  also have "\<dots> = unat (pt_index v * PAGE_SIZE + (v AND 0xFFF))"
    using slot_address [of v] slot_offset [of v] s by simp
  finally show "pt_index v * PAGE_SIZE + (v AND 0xFFF) = v - 0xC0000000"
    by (metis unsigned_word_eqI)
qed

text \<open>The RAM \<open>vmm_init\<close> leaves, with the boot table in frame \<open>p\<close> and its bitmap byte at \<open>b\<close>.\<close>

definition boot_tables :: "u32 \<Rightarrow> u32 \<Rightarrow> memory \<Rightarrow> memory" where
  "boot_tables p b m = wr32 (cell page_dir 768) (p OR 3) (wr32 (cell page_dir 0) (p OR 3)
     (fill_table p (\<lambda>i. (of_nat i * PAGE_SIZE) OR 3) ((fill_table page_dir (\<lambda>_. 2) m)(b := 1))))"

lemma boot_tables_read:
  assumes p: "frame_of p = p" "p \<noteq> page_dir" and b: "frame_of b \<noteq> page_dir" and j: "j < 1024"
  shows "pde (boot_tables p b m) j = (if j = 0 \<or> j = 768 then p OR 3 else 2)"
    and "rd32 (boot_tables p b m) (cell p j) = j * PAGE_SIZE OR 3"
proof -
  let ?m = "(fill_table page_dir (\<lambda>_. 2) m)(b := 1)"
  have "rd32 ?m (cell page_dir j) = rd32 (fill_table page_dir (\<lambda>_. 2) m) (cell page_dir j)"
    by (rule rd32_frame_cong) (use b j in auto)
  also have "\<dots> = 2" using fill_read [OF page_dir_frame page_dir_frame j] by simp
  finally have "rd32 (fill_table p (\<lambda>i. (of_nat i * PAGE_SIZE) OR 3) ?m) (cell page_dir j) = 2"
    using fill_read [OF p(1) page_dir_frame j] p(2) by simp
  then show "pde (boot_tables p b m) j = (if j = 0 \<or> j = 768 then p OR 3 else 2)"
    using j by (simp add: boot_tables_def pde_def rd32_wr32_cell)
  show "rd32 (boot_tables p b m) (cell p j) = j * PAGE_SIZE OR 3"
    using p j by (simp add: boot_tables_def rd32_wr32_cell fill_read)
qed

lemma boot_tables_walk:
  assumes p: "frame_of p = p" "p \<noteq> page_dir" and b: "frame_of b \<noteq> page_dir"
  shows "hw_walk (boot_tables p b m) page_dir v =
    (if v < 0x400000 then Some v
     else if 0xC0000000 \<le> v \<and> v < 0xC0400000 then Some (v - 0xC0000000) else None)"
proof -
  have "\<not> present 2" by (simp add: present_def)
  then have "hw_walk (boot_tables p b m) page_dir v =
      (if pd_index v = 0 \<or> pd_index v = 768 then Some (pt_index v * PAGE_SIZE + (v AND 0xFFF)) else None)"
    using entry_flags [OF p(1)] entry_flags [OF page_frame]
    by (simp add: hw_walk_pde boot_tables_read [OF assms] index_less Let_def)
  then show ?thesis by (auto simp: slot_value simp flip: slot_0 slot_768)
qed

text \<open>The allocator at boot: the frame \<open>k\<close> it finds next is free and lies below the directory.\<close>

definition boot_ready :: "u32 \<Rightarrow> 'a vmm_scheme \<Rightarrow> bool" where
  "boot_ready k s \<longleftrightarrow> \<not> paging s \<and> bitmap s = BITMAP_START \<and> total_pages s \<le> 0x100000 \<and>
     last_alloc_index s \<le> k \<and> 4096 \<le> k \<and> k < 8192 \<and> k < total_pages s \<and> ram s (BITMAP_START + k) = 0 \<and>
     (\<forall>j. last_alloc_index s \<le> j \<and> j < k \<longrightarrow> ram s (BITMAP_START + j) \<noteq> 0)"

lemma vmm_init_run:
  assumes "boot_ready k s"
  shows "\<exists>s'. vmm_init s = Inr s' \<and> ram s' = boot_tables (k * PAGE_SIZE) (BITMAP_START + k) (ram s) \<and>
    total_mapped s' = 1024 \<and> cr0 s' = cr0 s \<and> cr3 s' = cr3 s \<and> bitmap s' = BITMAP_START \<and>
    total_pages s' = total_pages s \<and> used_pages s' = used_pages s + 1 \<and>
    last_alloc_index s' = (if k + 1 \<ge> total_pages s then 4096 else k + 1) \<and> vmm.more s' = vmm.more s"
    "k * PAGE_SIZE \<noteq> page_dir" "frame_of (BITMAP_START + k) \<noteq> page_dir"
proof -
  have np: "\<not> paging s" and t: "bitmap s = BITMAP_START" "total_pages s \<le> 0x100000"
    and k: "last_alloc_index s \<le> k" "4096 \<le> k" "k < 8192" "k < total_pages s" "ram s (BITMAP_START + k) = 0"
    and l: "\<forall>j. last_alloc_index s \<le> j \<and> j < k \<longrightarrow> ram s (BITMAP_START + j) \<noteq> 0"
    using assms by (simp_all add: boot_ready_def)
  have off: "frame_of (BITMAP_START + j) \<noteq> page_dir" if "j \<le> k" for j
    by (rule off_bitmap_frame [OF dir_off_bitmap [OF t(2)]]) (use that k in simp)
  then show b: "frame_of (BITMAP_START + k) \<noteq> page_dir" by simp
  have k': "k < 0x100000" using k(3) by (rule less_trans) simp
  have "unat (k * PAGE_SIZE) < unat page_dir"
    using unat_page [OF k'] k(3) by (simp add: page_dir_def config_defs word_less_nat_alt)
  then show pd: "k * PAGE_SIZE \<noteq> page_dir" by auto
  have nz: "k * PAGE_SIZE \<noteq> 0" by (rule page_nonzero [OF k(2) k'])
  let ?s = "s\<lparr>ram := fill_table page_dir (\<lambda>_. 2) (ram s)\<rparr>"
  have 1: "foldE (\<lambda>i s. st32 (cell page_dir (of_nat i)) PG_WRITABLE s) [0..<1024] s = Inr ?s"
    unfolding fill_direct [OF np] fill_table_def by simp
  have l': "\<forall>j. last_alloc_index ?s \<le> j \<and> j < k \<longrightarrow> ram ?s (bitmap ?s + j) \<noteq> 0"
    using l t(1) off by (auto simp: fill_other [OF page_dir_frame])
  have "ram ?s (bitmap ?s + k) = 0" using fill_other [OF page_dir_frame b] k(5) t(1) by simp
  then have 2: "alloc_page ?s = Inr (k * PAGE_SIZE, alloc_effect k [alloc_msg k ?s] ?s)" (is "_ = Inr (_, ?u)")
    using alloc_page_first [of ?s k] np k l' t(1) by simp
  have 3: "foldE (\<lambda>i s. st32 (cell (k * PAGE_SIZE) (of_nat i)) ((of_nat i * PAGE_SIZE) OR PG_PRESENT OR PG_WRITABLE) s)
      [0..<1024] ?u = Inr (?u\<lparr>ram := fill_table (k * PAGE_SIZE) (\<lambda>i. (of_nat i * PAGE_SIZE) OR 3) (ram ?u)\<rparr>)"
    by (subst fill_direct) (simp_all add: np fill_table_def)
  show "\<exists>s'. vmm_init s = Inr s' \<and> ram s' = boot_tables (k * PAGE_SIZE) (BITMAP_START + k) (ram s) \<and>
    total_mapped s' = 1024 \<and> cr0 s' = cr0 s \<and> cr3 s' = cr3 s \<and> bitmap s' = BITMAP_START \<and>
    total_pages s' = total_pages s \<and> used_pages s' = used_pages s + 1 \<and>
    last_alloc_index s' = (if k + 1 \<ge> total_pages s then 4096 else k + 1) \<and> vmm.more s' = vmm.more s"
    unfolding vmm_init_def 1 bindE_simps 2 prod.case if_not_P [OF nz] 3
    using np t by (simp add: run_simps boot_tables_def Let_def del: append.simps)
qed

section \<open>Enabling paging\<close>

lemma vmm_enable_fields [simp]:
  "ram (vmm_enable s) = ram s" "cr3 (vmm_enable s) = page_dir" "paging (vmm_enable s)"
  "bitmap (vmm_enable s) = bitmap s" "total_pages (vmm_enable s) = total_pages s"
  "last_alloc_index (vmm_enable s) = last_alloc_index s" "total_mapped (vmm_enable s) = total_mapped s"
proof -
  have "(cr0 s OR 0x80000000) AND 0x80000000 = (0x80000000 :: u32)"
    by (rule bit_word_eqI) (auto simp: bit_simps)
  then show "paging (vmm_enable s)" by (simp add: vmm_enable_def Let_def paging_def)
qed (simp_all add: vmm_enable_def Let_def)

lemma xlate_enabled: "xlate (vmm_enable s) = hw_walk (ram s) page_dir"
  by (rule ext) (simp add: xlate_def)

lemma dir_slot: "i < 1024 \<Longrightarrow> pd_index (cell page_dir i) = 8"
proof -
  assume i: "i < 1024"
  have "unat (cell page_dir i) = 0x2000000 + 4 * unat i"
    using i by (simp add: cell_def page_dir_def config_defs, subst unat_add_lem [THEN iffD1])
      (auto simp: unat_cell_offset word_less_nat_alt)
  moreover have "unat i < 1024" using i by (simp add: word_less_nat_alt)
  ultimately have "unat (pd_index (cell page_dir i)) = unat (8 :: u32)" unfolding unat_indices by simp
  then show ?thesis by (rule unsigned_word_eqI)
qed

text \<open>Initialised tables: what every address translates to, and what the entries are.\<close>

lemma vmm_init_ready:
  assumes "boot_ready k s"
  obtains s' where "vmm_init s = Inr s'" "\<not> paging s'" "total_mapped s' = 1024"
    "ram s' = boot_tables (k * PAGE_SIZE) (BITMAP_START + k) (ram s)"
    "\<And>v. hw_walk (ram s') page_dir v = (if v < 0x400000 then Some v
       else if 0xC0000000 \<le> v \<and> v < 0xC0400000 then Some (v - 0xC0000000) else None)"
    "\<And>j. j < 1024 \<Longrightarrow> pde (ram s') j = (if j = 0 \<or> j = 768 then (k * PAGE_SIZE) OR 3 else 2)"
    "bitmap s' = BITMAP_START" "total_pages s' = total_pages s"
    "last_alloc_index s' = (if k + 1 \<ge> total_pages s then 4096 else k + 1)"
    "used_pages s' = used_pages s + 1" "vmm.more s' = vmm.more s"
proof -
  note r = vmm_init_run [OF assms]
  obtain s' where s': "vmm_init s = Inr s'"
      "ram s' = boot_tables (k * PAGE_SIZE) (BITMAP_START + k) (ram s)" "total_mapped s' = 1024"
      "cr0 s' = cr0 s" "bitmap s' = BITMAP_START" "total_pages s' = total_pages s"
      "last_alloc_index s' = (if k + 1 \<ge> total_pages s then 4096 else k + 1)"
      "used_pages s' = used_pages s + 1" "vmm.more s' = vmm.more s"
    using r(1) by blast
  have np: "\<not> paging s'" using assms s'(4) by (simp add: boot_ready_def paging_def)
  have w: "hw_walk (ram s') page_dir v = (if v < 0x400000 then Some v
       else if 0xC0000000 \<le> v \<and> v < 0xC0400000 then Some (v - 0xC0000000) else None)" for v
    unfolding s'(2) by (rule boot_tables_walk [OF page_frame r(2,3)])
  have p: "pde (ram s') j = (if j = 0 \<or> j = 768 then (k * PAGE_SIZE) OR 3 else 2)" if "j < 1024" for j
    unfolding s'(2) by (rule boot_tables_read(1) [OF page_frame r(2,3) that])
  show thesis by (rule that [OF s'(1) np s'(3,2) w p s'(5-9)])
qed

text \<open>Once paging is on the allocator's next scan faults on the bitmap.\<close>

lemma ready_state:
  assumes "boot_ready k s" "vmm_init s = Inr s1"
  shows "hw_walk (ram s1) page_dir v = (if v < 0x400000 then Some v
       else if 0xC0000000 \<le> v \<and> v < 0xC0400000 then Some (v - 0xC0000000) else None)"
    and "bitmap s1 = BITMAP_START" "total_pages s1 = total_pages s"
    and "last_alloc_index s1 = (if k + 1 \<ge> total_pages s then 4096 else k + 1)"
proof -
  obtain s' where "vmm_init s = Inr s'"
      "\<And>v. hw_walk (ram s') page_dir v = (if v < 0x400000 then Some v
       else if 0xC0000000 \<le> v \<and> v < 0xC0400000 then Some (v - 0xC0000000) else None)"
      "bitmap s' = BITMAP_START" "total_pages s' = total_pages s"
      "last_alloc_index s' = (if k + 1 \<ge> total_pages s then 4096 else k + 1)"
    by (rule vmm_init_ready [OF assms(1)]) (rule that; assumption)
  moreover from this(1) assms(2) have "s' = s1" by simp
  ultimately show "hw_walk (ram s1) page_dir v = (if v < 0x400000 then Some v
       else if 0xC0000000 \<le> v \<and> v < 0xC0400000 then Some (v - 0xC0000000) else None)"
    and "bitmap s1 = BITMAP_START" "total_pages s1 = total_pages s"
    and "last_alloc_index s1 = (if k + 1 \<ge> total_pages s then 4096 else k + 1)" by blast+
qed

text \<open>With paging on, the bitmap and the directory are not mapped.\<close>

lemma bitmap_unmapped:
  assumes "boot_ready k s" "vmm_init s = Inr s1" "i \<le> 0xFFFFF"
  shows "xlate (vmm_enable s1) (BITMAP_START + i) = None"
proof -
  have i: "unat i \<le> 0xFFFFF" using assms(3) by (simp add: word_le_nat_alt)
  then have "unat (BITMAP_START + i) = 0x1000000 + unat i"
    unfolding BITMAP_START_def by (subst unat_add_lem [THEN iffD1]) auto
  then have "\<not> BITMAP_START + i < 0x400000" "\<not> 0xC0000000 \<le> BITMAP_START + i"
    using i by (simp_all add: word_less_nat_alt word_le_nat_alt)
  then show ?thesis by (simp add: xlate_enabled ready_state(1) [OF assms(1,2)])
qed

lemma dir_unmapped:
  assumes "boot_ready k s" "vmm_init s = Inr s1" "i < 1024"
  shows "xlate (vmm_enable s1) (cell page_dir i) = None"
  using ready_state(1) [OF assms(1,2), of "cell page_dir i"] dir_slot [OF assms(3)]
  by (simp add: xlate_enabled flip: slot_0 slot_768)

text \<open>\<open>alloc_page\<close> faults on the first byte it reads, also in a state with other upper fields.\<close>

lemma enabled_alloc_faults:
  assumes "boot_ready k s" "vmm_init s = Inr s1"
    and "xlate t = xlate (vmm_enable s1)" "bitmap t = bitmap s1" "total_pages t = total_pages s1"
    and "last_alloc_index t = last_alloc_index s1"
  shows "alloc_page t = Inl (Page_Fault (BITMAP_START + (if k + 1 < total_pages s then k + 1 else 4096)))"
proof -
  note b = ready_state(2,3) [OF assms(1,2)] and l = ready_state(4) [OF assms(1,2)]
  have k: "4096 \<le> k" "k < 8192" "k < total_pages s" using assms(1) by (simp_all add: boot_ready_def)
  define i where "i = (if k + 1 < total_pages s then k + 1 else 4096)"
  have "k + 1 \<le> 8192" using word_Suc_less [OF k(2)] k(2) by (simp add: word_le_nat_alt word_less_nat_alt)
  then have "i \<le> 8192" by (simp add: i_def)
  then have "i \<le> 0xFFFFF" by (rule order_trans) simp
  then have "xlate t (BITMAP_START + i) = None" using bitmap_unmapped [OF assms(1,2)] assms(3) by simp
  moreover have "last_alloc_index t = i" by (simp add: assms(6) l i_def flip: not_le)
  moreover have "i < total_pages s" using le_less_trans [OF k(1,3)] by (simp add: i_def)
  ultimately show ?thesis
    unfolding i_def [symmetric] by (simp add: alloc_page_def Let_def b assms(4,5) alloc_scan.simps [of i] ld8_unmapped)
qed

lemma enabled_free_page:
  assumes "boot_ready k s" "vmm_init s = Inr s1"
  shows "pmm_free_page p (vmm_enable s1) =
    (if p div PAGE_SIZE < 4096 then Inr (emit (Printl ''[ERROR] [PMM] CANNOT FREE KERNEL PAGES'') (vmm_enable s1))
     else Inl (Page_Fault (BITMAP_START + p div PAGE_SIZE)))"
proof -
  have "unat (p div PAGE_SIZE) = unat p div 4096" by (simp add: unat_div PAGE_SIZE_def)
  moreover have "unat p < 2 ^ 32" using unsigned_less [of p] by simp
  ultimately have "p div PAGE_SIZE \<le> 0xFFFFF" by (simp add: word_le_nat_alt)
  with bitmap_unmapped [OF assms] have "xlate (vmm_enable s1) (BITMAP_START + p div PAGE_SIZE) = None" by blast
  then show ?thesis by (simp add: pmm_free_page_def Let_def ld8_unmapped ready_state(2) [OF assms])
qed

text \<open>The initialisations, run again with paging on, fault on their first write.\<close>

lemma foldE_first: "f m s = Inl e \<Longrightarrow> m < n \<Longrightarrow> foldE f [m..<n] s = Inl e"
  by (simp add: upt_conv_Cons)

lemma enabled_pmm_init:
  assumes "boot_ready k s" "vmm_init s = Inr s1"
  shows "pmm_init m (vmm_enable s1) = Inl (Page_Fault BITMAP_START)"
proof -
  have x: "xlate (vmm_enable s1) BITMAP_START = None" using bitmap_unmapped [OF assms, of 0] by simp
  have f: "st8 BITMAP_START v t = Inl (Page_Fault BITMAP_START)" if "xlate t = xlate (vmm_enable s1)" for v t
    by (rule st8_unmapped) (simp add: that x)
  show ?thesis
  proof (cases "unat (m * 1024 * 1024 div PAGE_SIZE) = 0")
    case True
    then show ?thesis
      by (simp add: pmm_init_def Let_def itoaE_10 foldE_first f fun_eq_iff xlate_def KERNEL_END_def PAGE_SIZE_def)
  next
    case False
    then show ?thesis
      by (simp add: pmm_init_def Let_def foldE_first f fun_eq_iff xlate_def)
  qed
qed

lemma enabled_vmm_init:
  assumes "boot_ready k s" "vmm_init s = Inr s1"
  shows "vmm_init (vmm_enable s1) = Inl (Page_Fault page_dir)"
proof -
  have "xlate (vmm_enable s1) page_dir = None" using dir_unmapped [OF assms, of 0] by (simp add: cell_def)
  then have "st32 page_dir v (vmm_enable s1) = Inl (Page_Fault page_dir)" for v
    by (simp add: st32_def st8_unmapped)
  then show ?thesis by (simp add: vmm_init_def foldE_first cell_def)
qed

text \<open>Sample states: one whose next frame is free, and one with the bitmap's own frames in use.\<close>

definition sample_boot :: vmm where
  "sample_boot = \<lparr>ram = (\<lambda>_. 0), cr0 = 0, cr3 = 0, trace = [], bitmap = BITMAP_START,
     total_pages = 0x20000, used_pages = 4096, last_alloc_index = 4096, total_mapped = 0\<rparr>"

definition sample_vmm :: vmm where
  "sample_vmm = \<lparr>ram = (\<lambda>_. 0)(BITMAP_START + 4096 := 1, BITMAP_START + 4097 := 1), cr0 = 0, cr3 = 0,
     trace = [], bitmap = BITMAP_START, total_pages = 4100, used_pages = 4098,
     last_alloc_index = 4098, total_mapped = 0\<rparr>"

lemma sample_boot_ready: "boot_ready 4096 sample_boot"
  by (auto simp: boot_ready_def sample_boot_def paging_def)

lemma sample_vmm_pde: "i < 1024 \<Longrightarrow> pde (ram sample_vmm) i = 0"
proof -
  assume i: "i < 1024"
  have "pde (ram sample_vmm) i = rd32 (\<lambda>_. 0) (cell page_dir i)"
    unfolding pde_def
    by (rule rd32_frame_cong [OF page_dir_frame i])
      (auto simp: sample_vmm_def frame_of_def page_dir_def config_defs)
  then show ?thesis by (simp add: rd32_def)
qed

lemma off_bitmap_small:
  assumes "frame_of p = p" "unat BITMAP_START + unat n \<le> unat p"
  shows "off_bitmap n p"
  unfolding off_bitmap_def
proof (intro allI impI)
  fix a assume a: "frame_of a = p"
  have "unat p \<le> unat a"
    using frame_low(1) [of a] frame_plus [of p] a word_and_le2 [of a "0xFFFFF000"]
    by (simp add: frame_of_def word_le_nat_alt)
  moreover from this have "BITMAP_START \<le> a" using assms(2) by (simp add: word_le_nat_alt)
  ultimately show "n \<le> a - BITMAP_START" using assms(2) by (simp add: word_le_nat_alt unat_sub)
qed

lemma sample_vmm_used: "used_set sample_vmm = {4096, 4097}"
  by (auto simp: used_set_def sample_vmm_def split: if_splits)

lemma sample_vmm_free:
  assumes "p \<in> frame_pool sample_vmm - frame_owned sample_vmm"
  shows "p = 0x1002000 \<or> p = 0x1003000"
proof -
  obtain i where i: "p = i * PAGE_SIZE" "4096 \<le> i" "i < 4100" "i \<noteq> 4096" "i \<noteq> 4097"
    using assms unfolding frame_pool_def frame_owned_def sample_vmm_used
    by (auto simp: sample_vmm_def)
  have "i = 4098 \<or> i = 4099" using i(2-5) by unat_arith
  then show ?thesis using i(1) by (auto simp: PAGE_SIZE_def)
qed

lemma sample_vmm_ok:
  "vmm_inv sample_vmm" "hw_walk (ram sample_vmm) page_dir v = None" "page_ready 0x40000000 sample_vmm"
proof -
  have none: "\<not> present 0" by (simp add: present_def)
  have p: "pmm_inv sample_vmm"
    unfolding pmm_inv_def sample_vmm_used by (simp add: sample_vmm_def paging_def)
  have f: "frame_of 0x1002000 = 0x1002000" "frame_of 0x1003000 = 0x1003000"
    "frame_of 0x40000000 = (0x40000000 :: u32)"
    by (simp_all add: frame_of_def)
  have n: "unat (total_pages sample_vmm) = 4100" by (simp add: sample_vmm_def)
  have o: "off_bitmap (total_pages sample_vmm) q" if "q \<in> {0x1002000, 0x1003000, 0x40000000}" for q
    by (rule off_bitmap_small) (use that f n in \<open>auto simp: BITMAP_START_def\<close>)
  show "vmm_inv sample_vmm"
    unfolding vmm_inv_def
  proof (intro conjI ballI)
    fix q assume "q \<in> frame_pool sample_vmm - frame_owned sample_vmm"
    from sample_vmm_free [OF this] show "q \<noteq> page_dir" "off_bitmap (total_pages sample_vmm) q"
      using o by (auto simp: page_dir_def config_defs)
  qed (use p none in \<open>auto simp: sample_vmm_pde\<close>)
  show "hw_walk (ram sample_vmm) page_dir v = None"
    by (simp add: hw_walk_pde sample_vmm_pde index_less none)
  have "0x40000000 \<notin> frame_pool sample_vmm"
  proof
    assume "0x40000000 \<in> frame_pool sample_vmm"
    then obtain k where k: "0x40000000 = k * PAGE_SIZE" "k < 4100"
      by (auto simp: frame_pool_def sample_vmm_def)
    from k(2) have "k < 0x100000" by (rule less_trans) simp
    from unat_page [OF this, folded k(1)] k(2) show False by (simp add: word_less_nat_alt)
  qed
  moreover have "4098 * PAGE_SIZE \<in> frame_pool sample_vmm - frame_owned sample_vmm"
    by (rule free_frame_not_owned [OF p]) (simp_all add: sample_vmm_def)
  ultimately show "page_ready 0x40000000 sample_vmm"
    using o [of "0x40000000"] f
    by (auto simp: page_ready_def unshared_def sample_vmm_pde index_less none page_dir_def config_defs)
qed

section \<open>Properties\<close>

text \<open>
  C5. The software walk agrees with the hardware: before paging is enabled, \<open>vmm_v_to_p\<close> returns
  for every address what the MMU will translate it to after \<open>vmm_enable\<close>, and 0 exactly where
  the MMU will fault.
\<close>

theorem v_to_p_is_mmu:
  assumes "\<not> paging s"
  shows "vmm_v_to_p v s = Inr (case xlate (vmm_enable s) v of None \<Rightarrow> 0 | Some p \<Rightarrow> p)"
  unfolding xlate_enabled by (rule v_to_p_direct [OF assms])

theorem v_to_p_is_mmu_witness: "vmm_v_to_p 0x1234 sample_vmm = Inr 0"
  using v_to_p_is_mmu [OF inv_direct [OF sample_vmm_ok(1)], of "0x1234"] sample_vmm_ok(2)
  by (simp add: xlate_enabled)

text \<open>
  C2. Mapping a page: where the page is not mapped, \<open>vmm_map_page\<close> returns with the page, and no
  other, translated to the frame given, whatever table had to be created for it; the state stays
  well formed and the page counter goes up by one.
\<close>

theorem map_page_contract:
  assumes "vmm_inv s" "page_ready v s" "hw_walk (ram s) page_dir v = None"
    and "frame_of p = p" "fl < 4096" "fl AND PG_PRESENT = PG_PRESENT"
  shows "\<exists>s'. vmm_map_page v p fl s = Inr s' \<and> vmm_inv s' \<and> total_mapped s' = total_mapped s + 1 \<and>
    (\<forall>a. xlate (vmm_enable s') a =
       (if frame_of a = v then Some (p + (a AND 0xFFF)) else xlate (vmm_enable s) a))"
  using map_page_new [OF assms(1-5)] assms(6) by (auto simp: xlate_enabled)

theorem map_page_contract_witness:
  "\<exists>s'. vmm_map_page 0x40000000 0x5000 7 sample_vmm = Inr s' \<and> xlate (vmm_enable s') 0x40000123 = Some 0x5123"
proof -
  have "frame_of 0x5000 = (0x5000 :: u32)" "frame_of 0x40000123 = (0x40000000 :: u32)"
    by (simp_all add: frame_of_def)
  then show ?thesis
    using map_page_contract [OF sample_vmm_ok(1,3,2), of "0x5000" 7] by force
qed

text \<open>
  C11. Unmapping undoes mapping, and a page can be moved: map, unmap and map again to another frame
  all return, the translation in between is the one before, and at the end the page translates
  to the second frame.
\<close>

theorem map_unmap_remap:
  assumes "vmm_inv s" "page_ready v s" "hw_walk (ram s) page_dir v = None"
    and "frame_of p = p" "frame_of q = q"
  shows "(\<exists>s1 s2. vmm_map_page v p (PG_PRESENT OR PG_WRITABLE) s = Inr s1 \<and>
      hw_walk (ram s1) page_dir v = Some p \<and> vmm_unmap_page v s1 = Inr s2 \<and>
      hw_walk (ram s2) page_dir = hw_walk (ram s) page_dir) \<and>
    (\<exists>s1 s2 s3. vmm_map_page v p (PG_PRESENT OR PG_WRITABLE) s = Inr s1 \<and>
      vmm_unmap_page v s1 = Inr s2 \<and> vmm_map_page v q (PG_PRESENT OR PG_WRITABLE) s2 = Inr s3 \<and>
      hw_walk (ram s3) page_dir =
        (\<lambda>a. if frame_of a = v then Some (q + (a AND 0xFFF)) else hw_walk (ram s) page_dir a))"
  using pages.unmap_map [OF assms(1-4)] pages.remap [OF assms] by blast

theorem map_unmap_remap_witness:
  "\<exists>s1 s2. vmm_map_page 0x40000000 0x5000 (PG_PRESENT OR PG_WRITABLE) sample_vmm = Inr s1 \<and>
     vmm_unmap_page 0x40000000 s1 = Inr s2 \<and> hw_walk (ram s2) page_dir 0x40000000 = None"
proof -
  have "frame_of 0x5000 = (0x5000 :: u32)" by (simp add: frame_of_def)
  from map_unmap_remap [OF sample_vmm_ok(1,3,2) this this] sample_vmm_ok(2)
  show ?thesis by auto
qed

text \<open>
  C9. \<open>vmm_init\<close> builds the promised address space: after it and \<open>vmm_enable\<close> the first 4 MiB
  translate to themselves, the 4 MiB from \<open>0xC0000000\<close> to the same frames, and every other
  access faults.
\<close>

theorem vmm_init_identity:
  assumes "boot_ready k s"
  shows "\<exists>s'. vmm_init s = Inr s' \<and> total_mapped s' = 1024 \<and>
    (\<forall>v. xlate (vmm_enable s') v = (if v < 0x400000 then Some v
       else if 0xC0000000 \<le> v \<and> v < 0xC0400000 then Some (v - 0xC0000000) else None))"
  using assms by (rule vmm_init_ready) (simp add: xlate_enabled)

theorem vmm_init_identity_witness:
  "\<exists>s'. vmm_init sample_boot = Inr s' \<and> xlate (vmm_enable s') 0xB8000 = Some 0xB8000"
  using vmm_init_identity [OF sample_boot_ready] by force

text \<open>
  C14. The memory manager cannot be used after the boot sequence enables paging: neither the
  directory (at 32 MiB) nor the allocator's bitmap (at 16 MiB) is mapped.  Every function of
  \<open>PMM.c\<close> and \<open>VMM.c\<close> that reads or writes one of them page-faults on its first access, at the
  address given: mapping, unmapping and translation, allocation, the release of a frame at or above
  16 MiB, the self-test and both initialisations.  The release of a frame below 16 MiB, which is
  refused before the bitmap is read, and \<open>vmm_print_stats\<close> only print.
\<close>

theorem manager_faults_after_enable:
  assumes "boot_ready k s"
  shows "\<exists>s1. vmm_init s = Inr s1 \<and> (\<forall>v p fl.
    vmm_v_to_p v (vmm_enable s1) = Inl (Page_Fault (cell page_dir (pd_index v))) \<and>
    vmm_map_page v p fl (vmm_enable s1) = Inl (Page_Fault (cell page_dir (pd_index v))) \<and>
    vmm_unmap_page v (vmm_enable s1) = Inl (Page_Fault (cell page_dir (pd_index v)))) \<and>
    (let first = BITMAP_START + (if k + 1 < total_pages s then k + 1 else 4096) in
      alloc_page (vmm_enable s1) = Inl (Page_Fault first) \<and> pmm_test (vmm_enable s1) = Inl (Page_Fault first)) \<and>
    (\<forall>p. pmm_free_page p (vmm_enable s1) =
      (if p div PAGE_SIZE < 4096
       then Inr (emit (Printl ''[ERROR] [PMM] CANNOT FREE KERNEL PAGES'') (vmm_enable s1))
       else Inl (Page_Fault (BITMAP_START + p div PAGE_SIZE)))) \<and>
    (\<forall>m. pmm_init m (vmm_enable s1) = Inl (Page_Fault BITMAP_START)) \<and>
    vmm_init (vmm_enable s1) = Inl (Page_Fault page_dir) \<and>
    (\<exists>e. vmm_print_stats (vmm_enable s1) = emit e (vmm_enable s1))"
proof -
  obtain s1 where run: "vmm_init s = Inr s1" using vmm_init_ready [OF assms] by metis
  note dir = dir_unmapped [OF assms run index_less(1)]
  have dir': "ld32 (cell page_dir (pd_index v)) (emit e (vmm_enable s1)) =
      Inl (Page_Fault (cell page_dir (pd_index v)))" for e v
    by (rule ld32_unmapped) (use dir in \<open>simp add: xlate_def\<close>)
  note a = enabled_alloc_faults [OF assms run, of "emit _ (vmm_enable s1)"]
    enabled_alloc_faults [OF assms run, of "vmm_enable s1"]
  have tables: "vmm_v_to_p v (vmm_enable s1) = Inl (Page_Fault (cell page_dir (pd_index v))) \<and>
    vmm_map_page v p fl (vmm_enable s1) = Inl (Page_Fault (cell page_dir (pd_index v))) \<and>
    vmm_unmap_page v (vmm_enable s1) = Inl (Page_Fault (cell page_dir (pd_index v)))" for v p fl
    using ld32_unmapped [OF dir] dir'
    by (simp add: vmm_v_to_p_def vmm_map_page_def vmm_unmap_page_def vmm_need_table_def del: append.simps)
  have "\<exists>e. vmm_print_stats (vmm_enable s1) = emit e (vmm_enable s1)" by (auto simp: vmm_print_stats_def)
  then show ?thesis
    using run tables enabled_free_page [OF assms run] enabled_pmm_init [OF assms run] enabled_vmm_init [OF assms run]
    by (simp add: a pmm_test_def fun_eq_iff xlate_def Let_def del: append.simps)
qed

theorem manager_faults_after_enable_witness:
  "\<exists>s1. vmm_init sample_boot = Inr s1 \<and> alloc_page (vmm_enable s1) = Inl (Page_Fault 0x1001001)"
proof -
  have "(4096 :: u32) + 1 < total_pages sample_boot" "BITMAP_START + (4096 + 1) = 0x1001001"
    by (simp_all add: sample_boot_def BITMAP_START_def)
  with manager_faults_after_enable [OF sample_boot_ready] show ?thesis by (auto simp: Let_def)
qed

text \<open>
  The heap's window is taken before the heap exists: \<open>vmm_init\<close> already translates
  \<open>TEST_HEAP_VIRT\<close> and the pages after it to the kernel's load address, so mapping any heap page
  there only prints that it is mapped; writes to the heap land in the kernel image.
\<close>

lemma heap_window_is_kernel_image:
  assumes "boot_ready k s"
  shows "\<exists>s1. vmm_init s = Inr s1 \<and> xlate (vmm_enable s1) TEST_HEAP_VIRT = Some KERNEL_LOAD \<and>
    (\<forall>n p fl. n < 0x300 \<longrightarrow> (\<exists>e e'. vmm_map_page (TEST_HEAP_VIRT + n * PAGE_SIZE) p fl s1 = Inr (emit e' (emit e s1))))"
  using assms
proof (rule vmm_init_ready)
  fix s1 :: "'a vmm_scheme"
  assume run: "vmm_init s = Inr s1" "\<not> paging s1"
    and w: "\<And>v. hw_walk (ram s1) page_dir v = (if v < 0x400000 then Some v
       else if 0xC0000000 \<le> v \<and> v < 0xC0400000 then Some (v - 0xC0000000) else None)"
  have m: "\<exists>e e'. vmm_map_page (TEST_HEAP_VIRT + n * PAGE_SIZE) p fl s1 = Inr (emit e' (emit e s1))"
    if n: "n < 0x300" for n p fl
  proof -
    have "unat (n * PAGE_SIZE) = unat n * 4096" by (rule unat_page) (use n in \<open>rule less_trans\<close>, simp)
    then have "unat (TEST_HEAP_VIRT + n * PAGE_SIZE) = 0xC0100000 + unat n * 4096"
      using n unfolding TEST_HEAP_VIRT_def by (subst unat_add_lem [THEN iffD1]) (auto simp: word_less_nat_alt)
    then have "hw_walk (ram s1) page_dir (TEST_HEAP_VIRT + n * PAGE_SIZE) \<noteq> None"
      unfolding w using n by (auto simp: word_less_nat_alt word_le_nat_alt)
    from map_page_old [OF run(2) this] show ?thesis by blast
  qed
  have "xlate (vmm_enable s1) TEST_HEAP_VIRT = Some KERNEL_LOAD"
    by (simp add: xlate_enabled w config_defs)
  with run m show ?thesis by blast
qed

text \<open>
  One table serves two windows: after \<open>vmm_init\<close> unmapping a page of the kernel window at
  \<open>0xC0000000\<close> also unmaps the same page of the identity-mapped first 4 MiB.
\<close>

lemma kernel_window_shared:
  assumes "boot_ready k s" "v < 0x400000"
  shows "\<exists>s1 s2. vmm_init s = Inr s1 \<and> hw_walk (ram s1) page_dir v = Some v \<and>
    vmm_unmap_page (0xC0000000 + v) s1 = Inr s2 \<and> total_mapped s2 = 1023 \<and>
    hw_walk (ram s2) page_dir (0xC0000000 + v) = None \<and> hw_walk (ram s2) page_dir v = None"
  using assms(1)
proof (rule vmm_init_ready)
  fix s1 :: "'a vmm_scheme"
  assume run: "vmm_init s = Inr s1" "\<not> paging s1" "total_mapped s1 = 1024"
    and w: "\<And>v. hw_walk (ram s1) page_dir v = (if v < 0x400000 then Some v
       else if 0xC0000000 \<le> v \<and> v < 0xC0400000 then Some (v - 0xC0000000) else None)"
    and p: "\<And>j. j < 1024 \<Longrightarrow> pde (ram s1) j = (if j = 0 \<or> j = 768 then (k * PAGE_SIZE) OR 3 else 2)"
  let ?v = "0xC0000000 + v"
  have u: "unat ?v = 0xC0000000 + unat v"
    using assms(2) by (subst unat_add_lem [THEN iffD1]) (auto simp: word_less_nat_alt)
  then have hi: "0xC0000000 \<le> ?v \<and> ?v < 0xC0400000" "\<not> ?v < 0x400000"
    using assms(2) by (simp_all add: word_le_nat_alt word_less_nat_alt)
  have i: "pd_index v = 0" "pd_index ?v = 768" using assms(2) hi by (simp_all add: slot_0 slot_768)
  have "(0xC0000000 + x) div 4096 mod 1024 = x div 4096 mod 1024" for x :: nat
  proof -
    have "(0xC0000000 + x) div 4096 = 768 * 1024 + x div 4096" by simp
    then show ?thesis by (simp only: mod_mult_self3)
  qed
  then have "unat (pt_index ?v) = unat (pt_index v)" unfolding unat_indices u .
  then have ti: "pt_index ?v = pt_index v" by (rule unsigned_word_eqI)
  define q where "q = k * PAGE_SIZE"
  have q: "frame_of q = q" "q \<noteq> page_dir"
    unfolding q_def by (rule page_frame, rule vmm_init_run(2) [OF assms(1)])
  have pd: "pde (ram s1) 0 = q OR 3" "pde (ram s1) 768 = q OR 3" by (simp_all add: p q_def)
  have z: "\<not> present 0" by (simp add: present_def)
  have e: "present (rd32 (ram s1) (cell q (pt_index v)))"
    using w [of v] assms(2) walk_none_entry [of "ram s1" v] entry_flags [OF q(1)] by (simp add: i pd)
  define m where "m = wr32 (cell q (pt_index v)) 0 (ram s1)"
  obtain t where t: "vmm_unmap_page ?v s1 = Inr (s1\<lparr>ram := m, total_mapped := total_mapped s1 - 1, trace := t\<rparr>)"
    unfolding m_def
    using run(2) e pd(2) entry_flags [OF q(1)] unfolding vmm_unmap_page_def Let_def frame_of_def [symmetric] i ti
    by (simp add: run_simps pde_def present_def emit_def)
  have "rd32 m (cell q (pt_index v)) = 0" by (simp add: m_def mem_simps)
  moreover have "pde m j = pde (ram s1) j" if "j < 1024" for j
    unfolding m_def pde_def using rd32_wr32_cell [OF q(1) page_dir_frame index_less(2) that] q(2) by simp
  ultimately have "hw_walk m page_dir v = None" "hw_walk m page_dir ?v = None"
    using entry_flags [OF q(1)] z by (simp_all add: hw_walk_pde i pd ti)
  with t run w assms(2) show ?thesis by auto
qed

text \<open>
  Mapping when there is no frame for the table: the request is reported and nothing changes
  but the console trace; the address stays unmapped.
\<close>

lemma map_page_no_frame:
  assumes "pmm_inv s" "frame_owned s = frame_pool s" "pde (ram s) (pd_index v) AND PG_PRESENT = 0"
  shows "\<exists>t. vmm_map_page v p fl s = Inr (s\<lparr>trace := trace s @ t\<rparr>) \<and> hw_walk (ram s) page_dir v = None"
proof -
  have np: "\<not> paging s" using assms(1) by (simp add: pmm_inv_def)
  have "pmm_inv (emit (map_msg v p) s)" "frame_owned (emit (map_msg v p) s) = frame_pool (emit (map_msg v p) s)"
    using assms by simp_all
  then obtain e where "alloc_page (emit (map_msg v p) s) = Inr (0, emit e (emit (map_msg v p) s))"
    using assms(2) all_used_iff [OF assms(1)] by (cases rule: alloc_page_inv_cases) auto
  then have "\<exists>t. vmm_map_page v p fl s = Inr (s\<lparr>trace := trace s @ t\<rparr>)"
    using np assms(3) unfolding vmm_map_page_def Let_def map_msg_def [symmetric] vmm_need_table_def
    by (simp add: run_simps pde_def) (simp add: emit_def, blast)
  moreover have "hw_walk (ram s) page_dir v = None"
    using assms(3) by (simp add: hw_walk_pde present_def)
  ultimately show ?thesis by blast
qed

end
