(* ===== verification/Block_List.thy ===== *)
theory Block_List
  imports Prelude
begin

text \<open>
  Free blocks of a heap as a list of (address, size) pairs in address order, the operations of a
  first-fit heap on such lists, and the doubly linked list of headers in RAM that represents one.
  The header of a block is \<open>16 + k\<close> bytes: four fields from offset \<open>k\<close> on (size, used byte, next,
  prev).  The kernel heap has \<open>k = 0\<close>; the heap of the old kernel keeps a magic number in front of
  the fields, \<open>k = 4\<close>.
\<close>

section \<open>Lists of blocks\<close>

type_synonym blocks = "(u32 \<times> u32) list"

definition hlen :: "u32 \<Rightarrow> nat" where
  "hlen k = 16 + unat k"

definition extent :: "u32 \<Rightarrow> u32 \<times> u32 \<Rightarrow> nat set" where
  "extent k b = {unat (fst b) ..< unat (fst b) + hlen k + unat (snd b)}"

definition bytes :: "u32 \<Rightarrow> blocks \<Rightarrow> nat set" where
  "bytes k bs = (\<Union>b \<in> set bs. extent k b)"

text \<open>Every block ends before the next one starts, and inside the address space; none is at 0.\<close>

definition block_end :: "u32 \<Rightarrow> u32 \<times> u32 \<Rightarrow> nat" where
  "block_end k b = unat (fst b) + hlen k + unat (snd b)"

definition before :: "u32 \<Rightarrow> u32 \<times> u32 \<Rightarrow> u32 \<times> u32 \<Rightarrow> bool" where
  "before k x y \<longleftrightarrow> block_end k x \<le> unat (fst y)"

definition blocks_ok :: "u32 \<Rightarrow> blocks \<Rightarrow> bool" where
  "blocks_ok k bs \<longleftrightarrow> sorted_wrt (before k) bs \<and> (\<forall>b \<in> set bs. fst b \<noteq> 0 \<and> block_end k b \<le> 2 ^ 32)"

fun take_fit :: "u32 \<Rightarrow> (u32 \<Rightarrow> u32 option) \<Rightarrow> u32 \<Rightarrow> blocks \<Rightarrow> ((u32 \<times> u32) \<times> blocks) option" where
  "take_fit k rest sz [] = None"
| "take_fit k rest sz ((a, n) # bs) =
     (if sz \<le> n
      then Some (case rest n of None \<Rightarrow> ((a, n), bs) | Some r \<Rightarrow> ((a, sz), (a + (16 + k) + sz, r) # bs))
      else map_option (\<lambda>(b, bs'). (b, (a, n) # bs')) (take_fit k rest sz bs))"

fun insert_block :: "u32 \<times> u32 \<Rightarrow> blocks \<Rightarrow> blocks" where
  "insert_block b [] = [b]"
| "insert_block b (c # bs) = (if fst c < fst b then c # insert_block b bs else b # c # bs)"

fun merge_adjacent :: "u32 \<Rightarrow> blocks \<Rightarrow> blocks" where
  "merge_adjacent k ((a, n) # (b, m) # bs) =
     (if b = a + (16 + k) + n then merge_adjacent k ((a, n + ((16 + k) + m)) # bs)
      else (a, n) # merge_adjacent k ((b, m) # bs))"
| "merge_adjacent k bs = bs"

section \<open>Changes of memory in a set of bytes\<close>

definition agree :: "nat set \<Rightarrow> memory \<Rightarrow> memory \<Rightarrow> bool" where
  "agree S m m' \<longleftrightarrow> (\<forall>x :: u32. unat x \<notin> S \<longrightarrow> m' x = m x)"

lemma agree_refl [simp]: "agree S m m"
  by (simp add: agree_def)

lemma agree_trans: "agree S m m' \<Longrightarrow> agree S m' m'' \<Longrightarrow> agree S m m''"
  by (simp add: agree_def)

lemma agree_mono: "agree S m m' \<Longrightarrow> S \<subseteq> T \<Longrightarrow> agree T m m'"
  by (auto simp: agree_def)

lemma agree_wr32: "{unat x ..< unat x + 4} \<subseteq> S \<Longrightarrow> unat x + 4 \<le> 2 ^ 32 \<Longrightarrow> agree S m (wr32 x v m)"
  unfolding agree_def
proof (intro allI impI)
  fix y :: u32 assume S: "{unat x ..< unat x + 4} \<subseteq> S" "unat x + 4 \<le> 2 ^ 32" and y: "unat y \<notin> S"
  have "x + i \<noteq> y" if i: "i \<in> {0, 1, 2, 3}" for i
  proof
    assume "x + i = y"
    moreover have "unat (x + i) = unat x + unat i"
      using S(2) i by (subst unat_add_lem [THEN iffD1]) auto
    moreover have "unat i < 4" using i by auto
    ultimately have "unat y \<in> {unat x ..< unat x + 4}" by auto
    then show False using S(1) y by blast
  qed
  then show "wr32 x v m y = m y" by (intro wr32_other) blast
qed

lemma agree_upd: "unat x \<in> S \<Longrightarrow> agree S m (m(x := v))"
  by (auto simp: agree_def)

section \<open>Headers\<close>

definition block_tag :: "u32 \<Rightarrow> memory \<Rightarrow> u32 \<Rightarrow> bool" where
  "block_tag k m a \<longleftrightarrow> (k = 4 \<longrightarrow> rd32 m a = 0xDEADBEEF)"

definition hdr :: "u32 \<Rightarrow> memory \<Rightarrow> u32 \<Rightarrow> u32 \<Rightarrow> u8 \<Rightarrow> u32 \<Rightarrow> u32 \<Rightarrow> bool" where
  "hdr k m a n u nx pv \<longleftrightarrow> rd32 m (a + k) = n \<and> m (a + k + 4) = u \<and>
     rd32 m (a + k + 8) = nx \<and> rd32 m (a + k + 12) = pv \<and> block_tag k m a"

definition hrange :: "u32 \<Rightarrow> u32 \<Rightarrow> nat set" where
  "hrange k a = {unat a ..< unat a + hlen k}"

lemma in_hdr: "unat a + hlen k \<le> 2 ^ 32 \<Longrightarrow> i < 16 \<Longrightarrow> unat (a + k + i) = unat a + unat k + unat i"
proof -
  assume h: "unat a + hlen k \<le> 2 ^ 32" "i < 16"
  then have "unat i < 16" by (simp add: word_less_nat_alt)
  with h have "unat (a + k) = unat a + unat k"
    by (subst unat_add_lem [THEN iffD1]) (auto simp: hlen_def)
  with h \<open>unat i < 16\<close> show ?thesis
    by (subst unat_add_lem [THEN iffD1]) (auto simp: hlen_def)
qed

lemma hdr_bytes:
  assumes "agree S m m'" "hrange k a \<inter> S = {}" "unat a + hlen k \<le> 2 ^ 32" "i < 16"
  shows "m' (a + k + i) = m (a + k + i)"
proof -
  have "unat i < 16" using assms(4) by (simp add: word_less_nat_alt)
  then have "unat (a + k + i) \<in> hrange k a"
    using in_hdr [OF assms(3,4)] by (auto simp: hrange_def hlen_def)
  then show ?thesis using assms(1,2) by (auto simp: agree_def)
qed

lemma hdr_agree:
  assumes "agree S m m'" "hrange k a \<inter> S = {}" "unat a + hlen k \<le> 2 ^ 32"
  shows "hdr k m' a n u nx pv = hdr k m a n u nx pv"
proof -
  note e = hdr_bytes [OF assms]
  have "m' (a + i) = m (a + i)" if "i < 4" for i
  proof -
    have "unat i < 4" using that by (simp add: word_less_nat_alt)
    then have "unat (a + i) = unat a + unat i"
      using assms(3) by (subst unat_add_lem [THEN iffD1]) (auto simp: hlen_def)
    then have "unat (a + i) \<in> hrange k a" using \<open>unat i < 4\<close> by (simp add: hrange_def hlen_def)
    then show ?thesis using assms(1,2) by (auto simp: agree_def)
  qed
  from this [of 0] this [of 1] this [of 2] this [of 3] have "block_tag k m' a = block_tag k m a"
    by (simp add: block_tag_def rd32_def)
  then show ?thesis
    using e [of 0] e [of 1] e [of 2] e [of 3] e [of 4] e [of 8] e [of 9] e [of 10] e [of 11]
      e [of 12] e [of 13] e [of 14] e [of 15]
    by (simp add: hdr_def rd32_def add.assoc)
qed

text \<open>Writing one field of a header.\<close>

lemma sep4_fields:
  "sep4 x (x + 8)" "sep4 x (x + 12)" "sep4 (x + 8) x" "sep4 (x + 12) x" "sep4 (x + 8) (x + 12)"
  "sep4 (x + 12) (x + 8)"
  by (auto simp: sep4_def add.assoc)

lemma wr32_field:
  "wr32 x v m (x + 4) = m (x + 4)" "wr32 (x + 8) v m (x + 4) = m (x + 4)"
  "wr32 (x + 12) v m (x + 4) = m (x + 4)"
  by (simp_all add: wr32_def add.assoc)

lemma rd32_upd_field:
  "rd32 (m(x + 4 := v)) x = rd32 m x" "rd32 (m(x + 4 := v)) (x + 8) = rd32 m (x + 8)"
  "rd32 (m(x + 4 := v)) (x + 12) = rd32 m (x + 12)"
  by (simp_all add: rd32_def add.assoc)

lemma tag_write:
  "block_tag k (wr32 (a + k) v m) a = block_tag k m a" "block_tag k (m(a + k + 4 := w)) a = block_tag k m a"
  "block_tag k (wr32 (a + k + 8) v m) a = block_tag k m a" "block_tag k (wr32 (a + k + 12) v m) a = block_tag k m a"
proof -
  have "sep4 (a + 4) a" "sep4 (a + 4 + 8) a" "sep4 (a + 4 + 12) a" by (auto simp: sep4_def add.assoc)
  then show "block_tag k (wr32 (a + k) v m) a = block_tag k m a" "block_tag k (wr32 (a + k + 8) v m) a = block_tag k m a"
    "block_tag k (wr32 (a + k + 12) v m) a = block_tag k m a"
    by (auto simp: block_tag_def mem_simps simp del: add.assoc)
  show "block_tag k (m(a + k + 4 := w)) a = block_tag k m a" by (auto simp: block_tag_def rd32_def add.assoc)
qed

lemma hdr_write:
  assumes "hdr k m a n u nx pv"
  shows "hdr k (wr32 (a + k) v m) a v u nx pv" "hdr k (m(a + k + 4 := w)) a n w nx pv"
    "hdr k (wr32 (a + k + 8) v m) a n u v pv" "hdr k (wr32 (a + k + 12) v m) a n u nx v"
  using assms unfolding hdr_def
  by (simp_all only: mem_simps sep4_fields wr32_field rd32_upd_field fun_upd_same tag_write simp_thms)

lemma agree_write:
  assumes "unat a + hlen k \<le> 2 ^ 32" "hrange k a \<subseteq> S"
  shows "agree S m (wr32 (a + k) v m)" "agree S m (m(a + k + 4 := w))"
    "agree S m (wr32 (a + k + 8) v m)" "agree S m (wr32 (a + k + 12) v m)"
  using in_hdr [OF assms(1), of 0] in_hdr [OF assms(1), of 4] in_hdr [OF assms(1), of 8]
    in_hdr [OF assms(1), of 12] assms
  by (auto intro!: agree_wr32 agree_upd simp: hrange_def hlen_def)

section \<open>The linked lists of headers\<close>

text \<open>
  \<open>dlu u k m pv p bs q l\<close>: from pointer \<open>p\<close>, with \<open>pv\<close> before it, the headers of \<open>bs\<close>, whose used
  flags are \<open>u\<close>, are linked in both directions up to pointer \<open>q\<close>, and \<open>l\<close> is the header before \<open>q\<close>.
  A list of free blocks is \<open>dll\<close>.  Relinking needs only that the blocks lie apart; the free lists
  are in address order besides.
\<close>

fun dlu :: "u8 \<Rightarrow> u32 \<Rightarrow> memory \<Rightarrow> u32 \<Rightarrow> u32 \<Rightarrow> blocks \<Rightarrow> u32 \<Rightarrow> u32 \<Rightarrow> bool" where
  "dlu u k m pv p [] q l = (p = q \<and> l = pv)"
| "dlu u k m pv p ((a, n) # bs) q l =
     (p = a \<and> hdr k m a n u (rd32 m (a + k + 8)) pv \<and> dlu u k m a (rd32 m (a + k + 8)) bs q l)"

abbreviation dll :: "u32 \<Rightarrow> memory \<Rightarrow> u32 \<Rightarrow> u32 \<Rightarrow> blocks \<Rightarrow> u32 \<Rightarrow> u32 \<Rightarrow> bool" where
  "dll \<equiv> dlu 0"

definition apart :: "u32 \<Rightarrow> u32 \<times> u32 \<Rightarrow> u32 \<times> u32 \<Rightarrow> bool" where
  "apart k x y \<longleftrightarrow> extent k x \<inter> extent k y = {}"

definition blocks_apart :: "u32 \<Rightarrow> blocks \<Rightarrow> bool" where
  "blocks_apart k bs \<longleftrightarrow> sorted_wrt (apart k) bs \<and> (\<forall>b \<in> set bs. fst b \<noteq> 0 \<and> block_end k b \<le> 2 ^ 32)"

lemma hdr_next: "hdr k m a n u nx pv \<Longrightarrow> rd32 m (a + k + 8) = nx"
  by (simp add: hdr_def)

lemma dlu_append:
  "dlu u k m pv p (xs @ ys) q l \<longleftrightarrow> (\<exists>r t. dlu u k m pv p xs r t \<and> dlu u k m t r ys q l)"
proof (induction xs arbitrary: pv p)
  case (Cons b xs)
  then show ?case by (cases b) simp
qed simp

lemma dlu_last: "dlu u k m pv p xs q l \<Longrightarrow> l = (if xs = [] then pv else fst (last xs))"
  by (induction u k m pv p xs q l rule: dlu.induct) auto

lemma dlu_first: "dlu u k m pv p xs q l \<Longrightarrow> p = (if xs = [] then q else fst (hd xs))"
  by (cases xs) auto

lemma dlu_agree:
  assumes "agree S m m'" "\<forall>b \<in> set bs. hrange k (fst b) \<inter> S = {} \<and> unat (fst b) + hlen k \<le> 2 ^ 32"
  shows "dlu u k m' pv p bs q l = dlu u k m pv p bs q l"
  using assms(2)
proof (induction bs arbitrary: pv p)
  case (Cons b bs)
  obtain a n where b: "b = (a, n)" by force
  have h: "hdr k m' a n u nx pv' = hdr k m a n u nx pv'" for n u nx pv'
    by (rule hdr_agree [OF assms(1)]) (use Cons.prems b in auto)
  have "m' (a + k + i) = m (a + k + i)" if "i < 16" for i
    by (rule hdr_bytes [OF assms(1) _ _ that]) (use Cons.prems b in auto)
  from this [of 8] this [of 9] this [of 10] this [of 11]
  have "rd32 m' (a + k + 8) = rd32 m (a + k + 8)" by (simp add: rd32_def add.assoc)
  with h Cons.IH Cons.prems show ?case by (simp add: b)
qed simp

lemma blocks_ok_append:
  "blocks_ok k (xs @ ys) \<longleftrightarrow> blocks_ok k xs \<and> blocks_ok k ys \<and> (\<forall>x \<in> set xs. \<forall>y \<in> set ys. before k x y)"
  by (auto simp: blocks_ok_def sorted_wrt_append)

lemma blocks_ok_Cons:
  "blocks_ok k (b # bs) \<longleftrightarrow> fst b \<noteq> 0 \<and> block_end k b \<le> 2 ^ 32 \<and> (\<forall>y \<in> set bs. before k b y) \<and> blocks_ok k bs"
  by (auto simp: blocks_ok_def)

lemma blocks_ok_Nil [simp]: "blocks_ok k []"
  by (simp add: blocks_ok_def)

lemma block_bounds:
  "block_end k b \<le> 2 ^ 32 \<Longrightarrow> unat (fst b) + hlen k \<le> 2 ^ 32"
  by (simp add: block_end_def)

lemma before_disjoint:
  assumes "before k x y"
  shows "hrange k (fst x) \<inter> hrange k (fst y) = {}" "hrange k (fst y) \<inter> hrange k (fst x) = {}"
    "extent k x \<inter> hrange k (fst y) = {}" "hrange k (fst y) \<inter> extent k x = {}"
    "hrange k (fst x) \<inter> extent k y = {}" "extent k x \<inter> extent k y = {}"
  using assms by (auto simp: before_def block_end_def hrange_def extent_def)

lemma hrange_extent: "hrange k (fst b) \<subseteq> extent k b"
  by (auto simp: hrange_def extent_def)

lemma apart_disjoint:
  assumes "apart k x y"
  shows "hrange k (fst x) \<inter> hrange k (fst y) = {}" "hrange k (fst y) \<inter> hrange k (fst x) = {}"
  using assms hrange_extent [of k x] hrange_extent [of k y] by (auto simp: apart_def)

lemma apart_sym: "apart k x y = apart k y x"
  by (auto simp: apart_def)

lemma blocks_apart_append:
  "blocks_apart k (xs @ ys) \<longleftrightarrow> blocks_apart k xs \<and> blocks_apart k ys \<and> (\<forall>x \<in> set xs. \<forall>y \<in> set ys. apart k x y)"
  by (auto simp: blocks_apart_def sorted_wrt_append)

lemma blocks_apart_Cons:
  "blocks_apart k (b # bs) \<longleftrightarrow> fst b \<noteq> 0 \<and> block_end k b \<le> 2 ^ 32 \<and> (\<forall>y \<in> set bs. apart k b y) \<and> blocks_apart k bs"
  by (auto simp: blocks_apart_def)

lemma blocks_ok_apart: "blocks_ok k bs \<Longrightarrow> blocks_apart k bs"
  using before_disjoint(6) unfolding blocks_ok_def blocks_apart_def apart_def
  by (blast intro: sorted_wrt_mono_rel)

text \<open>Redirecting the end of a segment, and the back link of its first block.\<close>

definition set_next :: "u32 \<Rightarrow> u32 \<Rightarrow> u32 \<Rightarrow> memory \<Rightarrow> memory" where
  "set_next k l r m = (if l = 0 then m else wr32 (l + k + 8) r m)"

definition set_prev :: "u32 \<Rightarrow> u32 \<Rightarrow> u32 \<Rightarrow> memory \<Rightarrow> memory" where
  "set_prev k r l m = (if r = 0 then m else wr32 (r + k + 12) l m)"

lemma agree_set:
  assumes "l = 0 \<or> (unat l + hlen k \<le> 2 ^ 32 \<and> hrange k l \<subseteq> S)"
  shows "agree S m (set_next k l r m)" "agree S m (set_prev k l r m)"
  using assms agree_write [of l k S] by (auto simp: set_next_def set_prev_def)

lemma dlu_set_next:
  assumes "dlu u k m 0 p xs r l" "blocks_apart k xs"
  shows "dlu u k (set_next k l c m) 0 (if xs = [] then c else p) xs c l"
proof (cases xs rule: rev_cases)
  case Nil
  with assms show ?thesis by (simp add: set_next_def)
next
  case (snoc ys b)
  obtain a n where b: "b = (a, n)" by force
  obtain t where t: "dlu u k m 0 p ys a t" "hdr k m a n u r t" "l = a"
    using assms(1) by (auto simp: snoc b dlu_append)
  have ok: "a \<noteq> 0" "block_end k b \<le> 2 ^ 32" "\<forall>y \<in> set ys. apart k y b \<and> block_end k y \<le> 2 ^ 32"
    using assms(2) by (auto simp: snoc b blocks_apart_def sorted_wrt_append)
  have m: "set_next k l c m = wr32 (a + k + 8) c m" using ok(1) t(3) by (simp add: set_next_def)
  have "agree (hrange k a) m (wr32 (a + k + 8) c m)"
    using agree_write(3) [of a k "hrange k a"] block_bounds [OF ok(2)] b by simp
  then have "dlu u k (wr32 (a + k + 8) c m) 0 p ys a t"
    using t(1) dlu_agree [of "hrange k a"] ok(3) apart_disjoint(1) [of k _ b] block_bounds b by auto
  moreover have "hdr k (wr32 (a + k + 8) c m) a n u c t" by (rule hdr_write(3) [OF t(2)])
  moreover from this have "rd32 (wr32 (a + k + 8) c m) (a + k + 8) = c" by (rule hdr_next)
  ultimately have "dlu u k (wr32 (a + k + 8) c m) 0 p (ys @ [b]) c a"
    unfolding dlu_append b by auto
  then show ?thesis unfolding m by (simp add: snoc t(3))
qed

lemma dlu_set_prev:
  assumes "dlu u k m pv c ys 0 t" "blocks_apart k ys"
  shows "dlu u k (set_prev k c v m) v c ys 0 (if ys = [] then v else t)"
proof (cases ys)
  case Nil
  with assms show ?thesis by (simp add: set_prev_def)
next
  case (Cons b zs)
  obtain a n where b: "b = (a, n)" by force
  define nx where "nx = rd32 m (a + k + 8)"
  have t: "c = a" "hdr k m a n u nx pv" "dlu u k m a nx zs 0 t"
    using assms(1) by (simp_all add: Cons b nx_def)
  have ok: "a \<noteq> 0" "block_end k b \<le> 2 ^ 32" "\<forall>y \<in> set zs. apart k b y \<and> block_end k y \<le> 2 ^ 32"
    using assms(2) by (auto simp: Cons b blocks_apart_Cons blocks_apart_def)
  have m: "set_prev k c v m = wr32 (a + k + 12) v m" using ok(1) t(1) by (simp add: set_prev_def)
  have "agree (hrange k a) m (wr32 (a + k + 12) v m)"
    using agree_write(4) [of a k "hrange k a"] block_bounds [OF ok(2)] b by simp
  then have "dlu u k (wr32 (a + k + 12) v m) a nx zs 0 t"
    using t(3) dlu_agree [of "hrange k a"] ok(3) apart_disjoint(2) [of k b] block_bounds b by auto
  moreover have "hdr k (wr32 (a + k + 12) v m) a n u nx v" by (rule hdr_write(4) [OF t(2)])
  moreover from this have "rd32 (wr32 (a + k + 12) v m) (a + k + 8) = nx" by (rule hdr_next)
  ultimately show ?thesis unfolding m Cons b by (simp add: t(1))
qed

section \<open>Splicing lists\<close>

text \<open>The bytes of all headers of a list.\<close>

definition heads :: "u32 \<Rightarrow> blocks \<Rightarrow> nat set" where
  "heads k bs = (\<Union>b \<in> set bs. hrange k (fst b))"

lemma heads_simps [simp]:
  "heads k [] = {}" "heads k (b # bs) = hrange k (fst b) \<union> heads k bs"
  "heads k (xs @ ys) = heads k xs \<union> heads k ys"
  by (auto simp: heads_def)

lemma bytes_simps [simp]:
  "bytes k [] = {}" "bytes k (b # bs) = extent k b \<union> bytes k bs"
  "bytes k (xs @ ys) = bytes k xs \<union> bytes k ys"
  by (auto simp: bytes_def)

lemma heads_bytes: "heads k bs \<subseteq> bytes k bs"
  using hrange_extent by (fastforce simp: heads_def bytes_def)

lemma bytes_apart:
  "blocks_ok k (xs @ ys) \<Longrightarrow> bytes k xs \<inter> bytes k ys = {}"
  using before_disjoint(6) by (fastforce simp: blocks_ok_append bytes_def)

lemma heads_apart:
  "blocks_ok k (xs @ ys) \<Longrightarrow> heads k xs \<inter> heads k ys = {}"
  using bytes_apart [of k xs ys] heads_bytes [of k xs] heads_bytes [of k ys] by blast

lemma extent_apart:
  assumes "blocks_ok k (xs @ b # ys)"
  shows "extent k b \<inter> bytes k (xs @ ys) = {}"
proof -
  have "blocks_ok k ((xs @ [b]) @ ys)" "blocks_ok k (xs @ ([b] @ ys))" using assms by simp_all
  from bytes_apart [OF this(1)] bytes_apart [OF this(2)] show ?thesis by auto
qed

lemma heads_disjoint:
  "blocks_apart k (xs @ ys) \<Longrightarrow> heads k xs \<inter> heads k ys = {}"
  using apart_disjoint(1) by (fastforce simp: blocks_apart_append heads_def)

lemma apart_bound: "blocks_apart k bs \<Longrightarrow> b \<in> set bs \<Longrightarrow> unat (fst b) + hlen k \<le> 2 ^ 32"
  by (auto simp: blocks_apart_def block_end_def)

lemma dlu_keep:
  assumes "agree S m m'" "heads k bs \<inter> S = {}" "blocks_apart k bs"
  shows "dlu u k m' pv p bs q l = dlu u k m pv p bs q l"
  using assms(2) apart_bound [OF assms(3)] by (intro dlu_agree [OF assms(1)]) (fastforce simp: heads_def)

text \<open>The ends of a segment are 0 or headers of it.\<close>

lemma dlu_ends:
  assumes "dlu u k m 0 p xs r l"
  shows "l = 0 \<or> (\<exists>b \<in> set xs. l = fst b)" "l = 0 \<Longrightarrow> blocks_apart k xs \<Longrightarrow> xs = []"
  using dlu_last [OF assms] last_in_set [of xs] by (auto simp: blocks_apart_def split: if_splits)

lemma dlu_start:
  assumes "dlu u k m v c ys 0 t"
  shows "c = 0 \<or> (\<exists>b \<in> set ys. c = fst b)" "c = 0 \<Longrightarrow> blocks_apart k ys \<Longrightarrow> ys = []"
  using dlu_first [OF assms] hd_in_set [of ys] by (auto simp: blocks_apart_def split: if_splits)

lemma dlu_end_nil:
  assumes "dlu u k m 0 p xs r l" "blocks_apart k xs"
  shows "l = 0 \<longleftrightarrow> xs = []"
proof
  show "l = 0 \<Longrightarrow> xs = []" using dlu_ends(2) [OF assms(1)] assms(2) by blast
  show "xs = [] \<Longrightarrow> l = 0" using dlu_last [OF assms(1)] by simp
qed

lemma dlu_agree_next:
  assumes "dlu u k m 0 p xs r l" "blocks_apart k xs"
  shows "agree (heads k xs) m' (set_next k l c m')"
proof (rule agree_set(1))
  show "l = 0 \<or> (unat l + hlen k \<le> 2 ^ 32 \<and> hrange k l \<subseteq> heads k xs)"
    using dlu_ends(1) [OF assms(1)] apart_bound [OF assms(2)] by (auto simp: heads_def)
qed

lemma dlu_agree_prev:
  assumes "dlu u k m v c ys 0 t" "blocks_apart k ys"
  shows "agree (heads k ys) m' (set_prev k c l m')"
proof (rule agree_set(2))
  show "c = 0 \<or> (unat c + hlen k \<le> 2 ^ 32 \<and> hrange k c \<subseteq> heads k ys)"
    using dlu_start(1) [OF assms(1)] apart_bound [OF assms(2)] by (auto simp: heads_def)
qed

text \<open>Two segments linked to each other in both directions are one list.\<close>

lemma dlu_link:
  assumes "dlu u k m 0 p xs r l" "dlu u k m v c ys 0 t" "blocks_apart k (xs @ ys)"
  defines "m' \<equiv> set_prev k c l (set_next k l c m)"
  shows "dlu u k m' 0 (if xs = [] then c else p) (xs @ ys) 0 (if ys = [] then l else t)"
    "agree (heads k (xs @ ys)) m m'" "agree (heads k (xs @ ys)) m (set_next k l c m)"
proof -
  have ok: "blocks_apart k xs" "blocks_apart k ys" using assms(3) by (simp_all add: blocks_apart_append)
  let ?n = "set_next k l c m"
  have n: "agree (heads k xs) m ?n" by (rule dlu_agree_next [OF assms(1) ok(1)])
  have "dlu u k ?n v c ys 0 t"
    using assms(2) dlu_keep [OF n] heads_disjoint [OF assms(3)] ok(2) by blast
  from dlu_set_prev [OF this ok(2)] have ys: "dlu u k m' l c ys 0 (if ys = [] then l else t)"
    by (simp add: m'_def)
  have p: "agree (heads k ys) ?n m'"
    unfolding m'_def by (rule dlu_agree_prev [OF assms(2) ok(2)])
  have xs: "dlu u k m' 0 (if xs = [] then c else p) xs c l"
    using dlu_set_next [OF assms(1) ok(1), of c] dlu_keep [OF p] heads_disjoint [OF assms(3)] ok(1) by blast
  show "dlu u k m' 0 (if xs = [] then c else p) (xs @ ys) 0 (if ys = [] then l else t)"
    unfolding dlu_append using xs ys by blast
  show "agree (heads k (xs @ ys)) m m'" "agree (heads k (xs @ ys)) m ?n"
    using agree_mono [OF n, of "heads k (xs @ ys)"] agree_mono [OF p, of "heads k (xs @ ys)"]
      agree_trans [of "heads k (xs @ ys)" m ?n m'] by auto
qed

text \<open>The same facts for the free lists.\<close>

lemma ok_bound: "blocks_ok k bs \<Longrightarrow> b \<in> set bs \<Longrightarrow> unat (fst b) + hlen k \<le> 2 ^ 32"
  by (rule apart_bound [OF blocks_ok_apart])

lemmas dll_append = dlu_append [where u = 0]
lemmas dll_first = dlu_first [where u = 0]
lemmas dll_set_next = dlu_set_next [where u = 0, OF _ blocks_ok_apart]
lemmas dll_set_prev = dlu_set_prev [where u = 0, OF _ blocks_ok_apart]
lemmas dll_keep = dlu_keep [where u = 0, OF _ _ blocks_ok_apart]
lemmas dll_end_nil = dlu_end_nil [where u = 0, OF _ blocks_ok_apart]
lemmas agree_next = dlu_agree_next [where u = 0, OF _ blocks_ok_apart]
lemmas agree_prev = dlu_agree_prev [where u = 0, OF _ blocks_ok_apart]
lemmas link_segments = dlu_link [where u = 0, OF _ _ blocks_ok_apart]

lemma dll_first_nil:
  assumes "dll k m v p xs a l" "blocks_ok k (xs @ (a, n) # ys)"
  shows "p = a \<longleftrightarrow> xs = []"
proof
  assume p: "p = a"
  show "xs = []"
  proof (rule ccontr)
    assume ne: "xs \<noteq> []"
    then have "before k (hd xs) (a, n)" using assms(2) by (simp add: blocks_ok_append)
    moreover have "fst (hd xs) = a" using dll_first [OF assms(1)] ne p by simp
    ultimately show False by (simp add: before_def block_end_def hlen_def)
  qed
qed (use dll_first [OF assms(1)] in simp)

text \<open>Taking a block out, and cutting its tail off as a new block.\<close>

lemma blocks_ok_remove: "blocks_ok k (xs @ b # ys) \<Longrightarrow> blocks_ok k (xs @ ys)"
  by (auto simp: blocks_ok_append blocks_ok_Cons)

lemma cut_bounds:
  assumes "block_end k (a, n) \<le> 2 ^ 32" "unat sz + hlen k \<le> unat n"
  shows "unat (a + (16 + k) + sz) = unat a + hlen k + unat sz"
    "unat (n - sz - (16 + k)) = unat n - unat sz - hlen k"
proof -
  have k: "unat (16 + k) = hlen k"
    using assms by (subst unat_add_lem [THEN iffD1]) (auto simp: hlen_def block_end_def)
  have "unat (a + (16 + k)) = unat a + hlen k"
    using assms k by (subst unat_add_lem [THEN iffD1]) (auto simp: block_end_def hlen_def)
  then show "unat (a + (16 + k) + sz) = unat a + hlen k + unat sz"
    using assms by (subst unat_add_lem [THEN iffD1]) (auto simp: block_end_def hlen_def)
  have "unat (n - sz) = unat n - unat sz"
    by (rule unat_sub) (use assms(2) in \<open>simp add: word_le_nat_alt\<close>)
  then show "unat (n - sz - (16 + k)) = unat n - unat sz - hlen k"
    using k assms(2) by (subst unat_sub) (auto simp: word_le_nat_alt)
qed

lemma cut_ok:
  assumes "blocks_ok k (xs @ (a, n) # ys)" "unat sz + hlen k \<le> unat n"
    and b_def: "b = a + (16 + k) + sz" and r_def: "r = n - sz - (16 + k)"
  shows "blocks_ok k (xs @ (b, r) # ys)" "extent k (b, r) \<subseteq> extent k (a, n)"
    "extent k (a, sz) \<inter> extent k (b, r) = {}" "extent k (a, sz) \<union> extent k (b, r) = extent k (a, n)"
    "unat b = unat a + hlen k + unat sz" "block_end k (b, r) = block_end k (a, n)"
proof -
  have e: "block_end k (a, n) \<le> 2 ^ 32" using assms(1) by (auto simp: blocks_ok_append blocks_ok_Cons)
  note c = cut_bounds [OF e assms(2), folded b_def r_def]
  show b: "unat b = unat a + hlen k + unat sz" and be: "block_end k (b, r) = block_end k (a, n)"
    using c assms(2) by (simp_all add: block_end_def)
  have "b \<noteq> 0" using b by (auto simp: hlen_def)
  moreover have "\<forall>x \<in> set xs. before k x (b, r)" "\<forall>y \<in> set ys. before k (b, r) y"
    using assms(1) b be by (auto simp: blocks_ok_append blocks_ok_Cons before_def)
  ultimately show "blocks_ok k (xs @ (b, r) # ys)"
    using assms(1) be by (auto simp: blocks_ok_append blocks_ok_Cons)
  show "extent k (b, r) \<subseteq> extent k (a, n)" "extent k (a, sz) \<inter> extent k (b, r) = {}"
    "extent k (a, sz) \<union> extent k (b, r) = extent k (a, n)"
    using b be c(2) assms(2) by (auto simp: extent_def block_end_def)
qed

lemma cut_segments:
  assumes xs: "dll k m 0 p xs a l" and h: "hdr k m a n u nx l" and ys: "dll k m a nx ys 0 t"
    and ok: "blocks_ok k (xs @ (a, n) # ys)" and fit: "unat sz + hlen k \<le> unat n"
    and b_def: "b = a + (16 + k) + sz" and r_def: "r = n - sz - (16 + k)"
    and mh: "agree (hrange k b) m mh" "hdr k mh b r 0 nx a"
    and m3: "agree (hrange k a) (set_prev k nx b mh) m3" "hdr k m3 a sz u' b l"
  shows "dll k m3 0 p xs a l" "\<exists>t'. dll k m3 a b ((b, r) # ys) 0 t'"
    "agree (bytes k (xs @ (a, n) # ys)) m m3" "hdr k (set_prev k nx b mh) a n u nx l"
proof -
  note c = cut_ok [OF ok fit b_def r_def]
  have oks: "blocks_ok k xs" "blocks_ok k ys" "block_end k (a, n) \<le> 2 ^ 32"
    using ok by (auto simp: blocks_ok_append blocks_ok_Cons)
  have hb: "hrange k b \<subseteq> extent k (a, n)" using hrange_extent [of k "(b, r)"] c(2) by simp
  have ha: "hrange k a \<subseteq> extent k (a, sz)" using hrange_extent [of k "(a, sz)"] by simp
  then have han: "hrange k a \<subseteq> extent k (a, n)" using c(4) by blast
  have ap: "extent k (a, n) \<inter> heads k xs = {}" "extent k (a, n) \<inter> heads k ys = {}"
    using extent_apart [OF ok] heads_bytes [of k xs] heads_bytes [of k ys] by auto
  have xy: "heads k xs \<inter> heads k ys = {}"
    by (rule heads_apart) (rule blocks_ok_remove [OF ok])
  let ?m2 = "set_prev k nx b mh"
  have kx: "dll k mh 0 p xs a l" using dll_keep [OF mh(1) _ oks(1)] xs ap(1) hb by blast
  have ky: "dll k mh a nx ys 0 t" using dll_keep [OF mh(1) _ oks(2)] ys ap(2) hb by blast
  have a2: "agree (heads k ys) mh ?m2" by (rule agree_prev [OF ky oks(2)])
  have ky2: "dll k ?m2 b nx ys 0 (if ys = [] then b else t)" by (rule dll_set_prev [OF ky oks(2)])
  have kx2: "dll k ?m2 0 p xs a l" using dll_keep [OF a2 _ oks(1)] kx xy by blast
  have bb: "unat b + hlen k \<le> 2 ^ 32" using c(6) oks(3) by (simp add: block_end_def)
  have ba: "unat a + hlen k \<le> 2 ^ 32" using oks(3) by (simp add: block_end_def)
  have hb2: "hdr k ?m2 b r 0 nx a" using hdr_agree [OF a2 _ bb] mh(2) ap(2) hb by blast
  have "hdr k mh a n u nx l"
    using hdr_agree [OF mh(1) _ ba] h ha c(3) hrange_extent [of k "(b, r)"] by fastforce
  then show "hdr k ?m2 a n u nx l" using hdr_agree [OF a2 _ ba] ap(2) han by blast
  show "dll k m3 0 p xs a l" using dll_keep [OF m3(1) _ oks(1)] kx2 ap(1) han by blast
  have "dll k m3 b nx ys 0 (if ys = [] then b else t)"
    using dll_keep [OF m3(1) _ oks(2)] ky2 ap(2) han by blast
  moreover have "hdr k m3 b r 0 nx a"
    using hdr_agree [OF m3(1) _ bb] hb2 ha c(3) hrange_extent [of k "(b, r)"] by fastforce
  ultimately show "\<exists>t'. dll k m3 a b ((b, r) # ys) 0 t'" by (auto simp: hdr_def)
  have "hrange k b \<union> heads k ys \<union> hrange k a \<subseteq> bytes k (xs @ (a, n) # ys)"
    using hb han heads_bytes [of k ys] by auto
  then show "agree (bytes k (xs @ (a, n) # ys)) m m3"
    by (intro agree_trans [OF agree_trans [OF agree_mono [OF mh(1)] agree_mono [OF a2]] agree_mono [OF m3(1)]])
      auto
qed

lemma hdr_keep:
  assumes "agree (heads k bs) m m'" "extent k (a, n) \<inter> bytes k bs = {}" "block_end k (a, n) \<le> 2 ^ 32"
  shows "hdr k m' a n' u nx pv = hdr k m a n' u nx pv"
proof (rule hdr_agree [OF assms(1)])
  show "hrange k a \<inter> heads k bs = {}"
    using assms(2) hrange_extent [of k "(a, n)"] heads_bytes [of k bs] by auto
qed (use assms(3) in \<open>simp add: block_end_def\<close>)

lemma insert_block_split:
  "insert_block b bs = takeWhile (\<lambda>c. fst c < fst b) bs @ b # dropWhile (\<lambda>c. fst c < fst b) bs"
  by (induction b bs rule: insert_block.induct) auto

text \<open>Putting a header between two segments.\<close>

lemma insert_segments:
  assumes xs: "dll k m 0 p xs r l" and ys: "dll k m l r ys 0 t" and ok: "blocks_ok k (xs @ (a, n) # ys)"
    and m3: "agree (hrange k a) m m3" "hdr k m3 a n 0 r l"
  defines "m5 \<equiv> set_prev k r a (set_next k l a m3)"
  shows "\<exists>t'. dll k m5 0 (if xs = [] then a else p) (xs @ (a, n) # ys) 0 t'"
    "agree (hrange k a \<union> heads k xs \<union> heads k ys) m m5"
proof -
  have oks: "blocks_ok k xs" "blocks_ok k ys" "block_end k (a, n) \<le> 2 ^ 32" "blocks_ok k (xs @ ys)"
    using ok blocks_ok_remove [OF ok] by (auto simp: blocks_ok_append blocks_ok_Cons)
  have ap: "extent k (a, n) \<inter> bytes k (xs @ ys) = {}" by (rule extent_apart [OF ok])
  have ra: "hrange k a \<inter> heads k xs = {}" "hrange k a \<inter> heads k ys = {}"
    using ap hrange_extent [of k "(a, n)"] heads_bytes [of k xs] heads_bytes [of k ys] by auto
  have xy: "heads k xs \<inter> heads k ys = {}" by (rule heads_apart [OF oks(4)])
  let ?m4 = "set_next k l a m3"
  have x3: "dll k m3 0 p xs r l" using dll_keep [OF m3(1) _ oks(1)] xs ra by blast
  have y3: "dll k m3 l r ys 0 t" using dll_keep [OF m3(1) _ oks(2)] ys ra by blast
  have a4: "agree (heads k xs) m3 ?m4" by (rule agree_next [OF x3 oks(1)])
  have x4: "dll k ?m4 0 (if xs = [] then a else p) xs a l" by (rule dll_set_next [OF x3 oks(1)])
  have y4: "dll k ?m4 l r ys 0 t" using dll_keep [OF a4 _ oks(2)] y3 xy by blast
  have ba: "unat a + hlen k \<le> 2 ^ 32" using oks(3) by (simp add: block_end_def)
  have h4: "hdr k ?m4 a n 0 r l" using hdr_agree [OF a4 _ ba] m3(2) ra by blast
  have a5: "agree (heads k ys) ?m4 m5" unfolding m5_def by (rule agree_prev [OF y4 oks(2)])
  have y5: "dll k m5 a r ys 0 (if ys = [] then a else t)"
    unfolding m5_def by (rule dll_set_prev [OF y4 oks(2)])
  have x5: "dll k m5 0 (if xs = [] then a else p) xs a l" using dll_keep [OF a5 _ oks(1)] x4 xy by blast
  have h5: "hdr k m5 a n 0 r l" using hdr_agree [OF a5 _ ba] h4 ra by blast
  have "dll k m5 l a ((a, n) # ys) 0 (if ys = [] then a else t)"
    using h5 y5 by (simp add: hdr_def)
  with x5 show "\<exists>t'. dll k m5 0 (if xs = [] then a else p) (xs @ (a, n) # ys) 0 t'"
    unfolding dll_append by blast
  show "agree (hrange k a \<union> heads k xs \<union> heads k ys) m m5"
    by (rule agree_trans [OF agree_trans [OF agree_mono [OF m3(1)] agree_mono [OF a4]] agree_mono [OF a5]]) auto
qed

text \<open>Absorbing the next block.\<close>

lemma absorb_ok:
  assumes "blocks_ok k (xs @ (a, n) # (b, m) # ys)" "b = a + (16 + k) + n" "hlen k < 2 ^ 32"
  shows "blocks_ok k (xs @ (a, n + ((16 + k) + m)) # ys)"
    "unat (n + ((16 + k) + m)) = unat n + (hlen k + unat m)"
    "extent k (a, n + ((16 + k) + m)) = extent k (a, n) \<union> extent k (b, m)"
proof -
  have e: "block_end k (a, n) \<le> 2 ^ 32" "block_end k (b, m) \<le> 2 ^ 32" "before k (a, n) (b, m)" "a \<noteq> 0"
    using assms(1) by (auto simp: blocks_ok_append blocks_ok_Cons)
  have k: "unat (16 + k) = hlen k"
    using assms(3) by (subst unat_add_lem [THEN iffD1]) (auto simp: hlen_def)
  have a16: "unat (a + (16 + k)) = unat a + hlen k" if "unat a + hlen k < 2 ^ 32"
    using that k by (subst unat_add_lem [THEN iffD1]) auto
  have "b = a + ((16 + k) + n)" using assms(2) by (simp add: algebra_simps)
  moreover have lt: "unat a + hlen k + unat n < 2 ^ 32"
    using e(2,3) by (auto simp: before_def block_end_def hlen_def)
  ultimately have b: "unat b = unat a + hlen k + unat n"
    using assms(2) a16 by (simp, subst unat_add_lem [THEN iffD1]) auto
  have "unat ((16 + k) + m) = hlen k + unat m"
    using k e(2) by (subst unat_add_lem [THEN iffD1]) (auto simp: block_end_def b hlen_def)
  then show s: "unat (n + ((16 + k) + m)) = unat n + (hlen k + unat m)"
    using e(2) b by (subst unat_add_lem [THEN iffD1]) (auto simp: block_end_def hlen_def)
  have be: "block_end k (a, n + ((16 + k) + m)) = block_end k (b, m)"
    unfolding block_end_def fst_conv snd_conv s using b by simp
  show "blocks_ok k (xs @ (a, n + ((16 + k) + m)) # ys)"
    using assms(1) e(2,4) be by (auto simp: blocks_ok_append blocks_ok_Cons before_def)
  show "extent k (a, n + ((16 + k) + m)) = extent k (a, n) \<union> extent k (b, m)"
    unfolding extent_def fst_conv snd_conv s using b by auto
qed

lemma absorb_segments:
  assumes d: "dll k m 0 p (xs @ (a, n) # (b, j) # ys) 0 l" and ok: "blocks_ok k (xs @ (a, n) # (b, j) # ys)"
    and adj: "b = a + (16 + k) + n" and k: "hlen k < 2 ^ 32"
  defines "nnx \<equiv> rd32 m (b + k + 8)" and "n' \<equiv> n + ((16 + k) + j)"
  defines "m' \<equiv> set_prev k nnx a (wr32 (a + k + 8) nnx (wr32 (a + k) n' m))"
  shows "\<exists>l'. dll k m' 0 p (xs @ (a, n') # ys) 0 l'" "agree (heads k ((a, n) # ys)) m m'"
    "hdr k m b j 0 nnx a" "rd32 (wr32 (a + k) n' m) (b + k + 8) = nnx" "rd32 (wr32 (a + k) n' m) (a + k + 8) = b"
    "nnx = (case ys of [] \<Rightarrow> 0 | c # _ \<Rightarrow> fst c)"
proof -
  obtain l1 where x: "dll k m 0 p xs a l1" and h: "hdr k m a n 0 b l1" and hb: "hdr k m b j 0 nnx a"
    and y: "dll k m b nnx ys 0 l"
    using d unfolding dll_append nnx_def by (auto dest: dll_first)
  show "hdr k m b j 0 nnx a" by (rule hb)
  have oks: "blocks_ok k xs" "blocks_ok k ys" "block_end k (a, n) \<le> 2 ^ 32" "block_end k (b, j) \<le> 2 ^ 32"
      "before k (a, n) (b, j)" "blocks_ok k (xs @ (a, n) # ys)"
    using ok by (auto simp: blocks_ok_append blocks_ok_Cons)
  have ba: "unat a + hlen k \<le> 2 ^ 32" and bb: "unat b + hlen k \<le> 2 ^ 32"
    using oks(3,4) by (simp_all add: block_end_def)
  have ap: "extent k (a, n) \<inter> bytes k (xs @ ys) = {}" by (rule extent_apart [OF oks(6)])
  have ra: "hrange k a \<inter> heads k xs = {}" "hrange k a \<inter> heads k ys = {}"
    using ap hrange_extent [of k "(a, n)"] heads_bytes [of k xs] heads_bytes [of k ys] by auto
  have xy: "heads k xs \<inter> heads k ys = {}" by (rule heads_apart [OF blocks_ok_remove [OF oks(6)]])
  have ab: "hrange k b \<inter> hrange k a = {}" using before_disjoint(2) [OF oks(5)] by simp
  let ?m1 = "wr32 (a + k) n' m" and ?m2 = "wr32 (a + k + 8) nnx (wr32 (a + k) n' m)"
  have a1: "agree (hrange k a) m ?m1" and a2: "agree (hrange k a) ?m1 ?m2"
    using agree_write [OF ba, of "hrange k a"] by simp_all
  have h1: "hdr k ?m1 a n' 0 b l1" by (rule hdr_write(1) [OF h])
  then show "rd32 ?m1 (a + k + 8) = b" by (rule hdr_next)
  have "hdr k ?m1 b j 0 nnx a" using hdr_agree [OF a1 ab bb] hb by blast
  then show "rd32 ?m1 (b + k + 8) = nnx" by (rule hdr_next)
  have h2: "hdr k ?m2 a n' 0 nnx l1" by (rule hdr_write(3) [OF h1])
  have a12: "agree (hrange k a) m ?m2" by (rule agree_trans [OF a1 a2])
  have x2: "dll k ?m2 0 p xs a l1" using dll_keep [OF a12 _ oks(1)] x ra by blast
  have y2: "dll k ?m2 b nnx ys 0 l" using dll_keep [OF a12 _ oks(2)] y ra by blast
  have a3: "agree (heads k ys) ?m2 m'" unfolding m'_def by (rule agree_prev [OF y2 oks(2)])
  have y3: "dll k m' a nnx ys 0 (if ys = [] then a else l)"
    unfolding m'_def by (rule dll_set_prev [OF y2 oks(2)])
  have x3: "dll k m' 0 p xs a l1" using dll_keep [OF a3 _ oks(1)] x2 xy by blast
  have h3: "hdr k m' a n' 0 nnx l1" using hdr_agree [OF a3 _ ba] h2 ra by blast
  have "dll k m' l1 a ((a, n') # ys) 0 (if ys = [] then a else l)" using h3 y3 by (simp add: hdr_def)
  with x3 show "\<exists>l'. dll k m' 0 p (xs @ (a, n') # ys) 0 l'" unfolding dll_append by blast
  show "agree (heads k ((a, n) # ys)) m m'"
    by (rule agree_trans [OF agree_mono [OF a12] agree_mono [OF a3]]) auto
  show "nnx = (case ys of [] \<Rightarrow> 0 | c # _ \<Rightarrow> fst c)"
    using dll_first [OF y] by (cases ys) auto
qed

section \<open>First fit on lists\<close>

definition after_cut :: "u32 \<Rightarrow> (u32 \<Rightarrow> u32 option) \<Rightarrow> u32 \<Rightarrow> u32 \<Rightarrow> u32 \<Rightarrow> blocks" where
  "after_cut k rest sz a n = (case rest n of None \<Rightarrow> [] | Some r \<Rightarrow> [(a + (16 + k) + sz, r)])"

definition cut_size :: "(u32 \<Rightarrow> u32 option) \<Rightarrow> u32 \<Rightarrow> u32 \<Rightarrow> u32" where
  "cut_size rest sz n = (case rest n of None \<Rightarrow> n | Some r \<Rightarrow> sz)"

text \<open>The cutting rule matters on the first block that is large enough only.\<close>

lemma take_fit_cong:
  "(\<And>b. find (\<lambda>b. sz \<le> snd b) bs = Some b \<Longrightarrow> rest (snd b) = rest' (snd b)) \<Longrightarrow>
   take_fit k rest sz bs = take_fit k rest' sz bs"
  by (induction bs) (auto split: if_splits)

lemma take_fit_split:
  assumes "take_fit k rest sz bs = Some (b, bs')"
  obtains xs a n ys where "bs = xs @ (a, n) # ys" "sz \<le> n" "find (\<lambda>b. sz \<le> snd b) bs = Some (a, n)"
    "b = (a, cut_size rest sz n)" "bs' = xs @ after_cut k rest sz a n @ ys"
proof -
  have "\<exists>xs a n ys. bs = xs @ (a, n) # ys \<and> sz \<le> n \<and> find (\<lambda>b. sz \<le> snd b) bs = Some (a, n) \<and>
    b = (a, cut_size rest sz n) \<and> bs' = xs @ after_cut k rest sz a n @ ys"
    using assms
  proof (induction k rest sz bs arbitrary: b bs' rule: take_fit.induct)
    case (2 k rest sz a n bs)
    show ?case
    proof (cases "sz \<le> n")
      case True
      then show ?thesis
        using 2(2) by (intro exI [of _ "[]"] exI [of _ a] exI [of _ n] exI [of _ bs])
          (auto simp: after_cut_def cut_size_def split: option.splits)
    next
      case False
      then obtain bs0 where "take_fit k rest sz bs = Some (b, bs0)" "bs' = (a, n) # bs0"
        using 2(2) by (auto simp: map_option_case split: option.splits)
      with 2(1) [OF False, of b bs0] False show ?thesis
        by (metis append_Cons find.simps(2) snd_conv)
    qed
  qed simp
  then show thesis using that by blast
qed

lemma take_fit_None: "take_fit k rest sz bs = None \<longleftrightarrow> find (\<lambda>b. sz \<le> snd b) bs = None"
  by (induction k rest sz bs rule: take_fit.induct) auto

lemma after_block: "blocks_ok k (xs @ (a, n) # ys) \<Longrightarrow> y \<in> set ys \<Longrightarrow> a < fst y"
  by (auto simp: blocks_ok_append blocks_ok_Cons before_def block_end_def hlen_def word_less_nat_alt)

lemma insert_block_at:
  assumes "blocks_ok k (xs @ (a, n) # ys)" "\<forall>z \<in> set zs. a < fst z"
  shows "insert_block (a, m) (xs @ zs) = xs @ (a, m) # zs"
proof -
  have lt: "fst x < a" if "x \<in> set xs" for x
  proof -
    have "before k x (a, n)" using assms(1) that by (auto simp: blocks_ok_append)
    then show ?thesis by (simp add: before_def block_end_def hlen_def word_less_nat_alt)
  qed
  have "takeWhile (\<lambda>c. fst c < a) zs = []" "dropWhile (\<lambda>c. fst c < a) zs = zs"
    using assms(2) by (cases zs; force)+
  then show ?thesis using lt by (simp add: insert_block_split takeWhile_append2 dropWhile_append2)
qed

text \<open>
  A rule for the remainder is sound when it only cuts blocks that have room for one more header,
  and gives the new block the rest.
\<close>

definition sound_rest :: "u32 \<Rightarrow> (u32 \<Rightarrow> u32 option) \<Rightarrow> u32 \<Rightarrow> bool" where
  "sound_rest k rest sz \<longleftrightarrow> (\<forall>n r. sz \<le> n \<and> rest n = Some r \<longrightarrow>
     unat sz + hlen k \<le> unat n \<and> r = n - sz - (16 + k))"

lemma take_fit_ok:
  assumes "take_fit k rest sz bs = Some (b, bs')" "blocks_ok k bs" "sound_rest k rest sz"
  shows "blocks_ok k bs'" "extent k b \<inter> bytes k bs' = {}" "extent k b \<union> bytes k bs' = bytes k bs"
    "block_end k b \<le> 2 ^ 32" "fst b \<noteq> 0" "sz \<le> snd b" "length bs' \<le> length bs"
    "blocks_ok k (insert_block b bs')"
proof -
  obtain xs a n ys where s: "bs = xs @ (a, n) # ys" "sz \<le> n" "b = (a, cut_size rest sz n)"
      "bs' = xs @ after_cut k rest sz a n @ ys"
    using take_fit_split [OF assms(1)] by metis
  have ok: "blocks_ok k (xs @ (a, n) # ys)" using assms(2) s(1) by simp
  have ap: "extent k (a, n) \<inter> bytes k (xs @ ys) = {}" by (rule extent_apart [OF ok])
  have be: "block_end k (a, n) \<le> 2 ^ 32" "a \<noteq> 0"
    using ok by (auto simp: blocks_ok_append blocks_ok_Cons)
  note drop = insert_block_at [OF ok]
  note gt = after_block [OF ok]
  have key: "blocks_ok k bs' \<and> extent k b \<inter> bytes k bs' = {} \<and> extent k b \<union> bytes k bs' = bytes k bs \<and>
      block_end k b \<le> 2 ^ 32 \<and> fst b \<noteq> 0 \<and> sz \<le> snd b \<and> length bs' \<le> length bs \<and>
      blocks_ok k (insert_block b bs')"
  proof (cases "rest n")
    case None
    then show ?thesis
      using s blocks_ok_remove [OF ok] ap be drop [of ys n] gt ok
      by (auto simp: after_cut_def cut_size_def)
  next
    case (Some r)
    then have fit: "unat sz + hlen k \<le> unat n" "r = n - sz - (16 + k)"
      using assms(3) s(2) by (simp_all add: sound_rest_def)
    define c where "c = a + (16 + k) + sz"
    note ct = cut_ok [OF ok fit(1) c_def fit(2)]
    have ca: "a < c" using ct(5) by (simp add: word_less_nat_alt hlen_def)
    have bsz: "block_end k (a, sz) = unat c" using ct(5) by (simp add: block_end_def)
    then have be2: "block_end k (a, sz) \<le> 2 ^ 32" using ct(6) be(1) by (simp add: block_end_def)
    have "blocks_ok k (xs @ (a, sz) # (c, r) # ys)"
      using ct(1) ok be2 be(2) bsz
      by (auto simp: blocks_ok_append blocks_ok_Cons before_def block_end_def)
    then show ?thesis
      using s ct(1-4) ap be2 be(2) Some drop [of "(c, r) # ys" sz] gt ca
      by (auto simp: after_cut_def cut_size_def c_def)
  qed
  from key show "blocks_ok k bs'" "extent k b \<inter> bytes k bs' = {}" "extent k b \<union> bytes k bs' = bytes k bs"
    "block_end k b \<le> 2 ^ 32" "fst b \<noteq> 0" "sz \<le> snd b" "length bs' \<le> length bs"
    "blocks_ok k (insert_block b bs')" by blast+
qed

section \<open>Merging\<close>

lemma merge_ok:
  "blocks_ok k (xs @ bs) \<Longrightarrow> blocks_ok k (xs @ merge_adjacent k bs) \<and>
    bytes k (merge_adjacent k bs) = bytes k bs \<and> length (merge_adjacent k bs) \<le> length bs"
proof (induction k bs arbitrary: xs rule: merge_adjacent.induct)
  case (1 k a n b m bs)
  show ?case
  proof (cases "b = a + (16 + k) + n")
    case True
    have "hlen k < 2 ^ 32"
      using 1(3) by (auto simp: blocks_ok_append blocks_ok_Cons before_def block_end_def)
    note ab = absorb_ok [OF 1(3) True this]
    from 1(1) [OF True ab(1)] True ab(3) show ?thesis by auto
  next
    case False
    have "blocks_ok k ((xs @ [(a, n)]) @ (b, m) # bs)" using 1(3) by simp
    from 1(2) [OF False this] False show ?thesis by auto
  qed
qed simp_all

text \<open>Merging undoes a cut.\<close>

lemma merge_cut:
  assumes "c = a + (16 + k) + sz" "n = sz + ((16 + k) + r)"
  shows "merge_adjacent k (xs @ (a, sz) # (c, r) # ys) = merge_adjacent k (xs @ (a, n) # ys)"
proof (induction xs rule: length_induct)
  case (1 xs)
  consider "xs = []" | x j where "xs = [(x, j)]" | x j y i zs where "xs = (x, j) # (y, i) # zs"
    by (metis list.exhaust surj_pair)
  then show ?case
  proof cases
    case 1
    then show ?thesis using assms by (simp add: algebra_simps)
  next
    case (2 x j)
    then show ?thesis using assms by (cases ys) (auto simp: algebra_simps)
  next
    case (3 x j y i zs)
    with "1.IH" have "merge_adjacent k (((x, j + ((16 + k) + i)) # zs) @ (a, sz) # (c, r) # ys) =
        merge_adjacent k (((x, j + ((16 + k) + i)) # zs) @ (a, n) # ys)"
      "merge_adjacent k (((y, i) # zs) @ (a, sz) # (c, r) # ys) = merge_adjacent k (((y, i) # zs) @ (a, n) # ys)"
      by (auto simp del: merge_adjacent.simps append_Cons)
    then show ?thesis using 3 by simp
  qed
qed

text \<open>Putting a block back that was just taken, and merging, is merging the list before.\<close>

lemma take_fit_merge:
  assumes "take_fit k rest sz bs = Some (b, bs')" "blocks_ok k bs" "sound_rest k rest sz"
  shows "merge_adjacent k (insert_block b bs') = merge_adjacent k bs"
proof -
  obtain xs a n ys where s: "bs = xs @ (a, n) # ys" "sz \<le> n" "b = (a, cut_size rest sz n)"
      "bs' = xs @ after_cut k rest sz a n @ ys"
    using take_fit_split [OF assms(1)] by metis
  have ok: "blocks_ok k (xs @ (a, n) # ys)" using assms(2) s(1) by simp
  show ?thesis
  proof (cases "rest n")
    case None
    then show ?thesis
      using s insert_block_at [OF ok, of ys n] after_block [OF ok] by (simp add: after_cut_def cut_size_def)
  next
    case (Some r)
    then have fit: "unat sz + hlen k \<le> unat n" "r = n - sz - (16 + k)"
      using assms(3) s(2) by (simp_all add: sound_rest_def)
    define c where "c = a + (16 + k) + sz"
    have "unat c = unat a + hlen k + unat sz" using cut_ok(5) [OF ok fit(1) c_def fit(2)] .
    then have "a < c" by (simp add: word_less_nat_alt hlen_def)
    then have i: "insert_block b bs' = xs @ (a, sz) # (c, r) # ys"
      using s Some insert_block_at [OF ok, of "(c, r) # ys" sz] after_block [OF ok]
      by (simp add: after_cut_def cut_size_def c_def)
    have n: "n = sz + ((16 + k) + r)" using fit(2) by (simp add: algebra_simps)
    show ?thesis unfolding i s(1) by (rule merge_cut [OF c_def n])
  qed
qed

end
