(* ===== verification/Heap_Interface.thy ===== *)
theory Heap_Interface
  imports Block_List
begin

text \<open>
  The contract of a block heap towards its clients.  A state represents the list of its free
  blocks; an allocation takes the first block that is large enough and cuts it, a release gives
  the bytes of a block back; a block in use is kept by every operation on other blocks.  Both
  heaps of the repository provide it, the old one for requests its cutting rule handles
  (\<open>can_cut\<close>: the block found has room for the header of its rest).  Every operation takes a fuel for its list walks; two more than the length of the
  free list is enough.
\<close>

locale block_heap =
  fixes k :: u32
    and rel :: "'s \<Rightarrow> blocks \<Rightarrow> bool"
    and held :: "'s \<Rightarrow> u32 \<times> u32 \<Rightarrow> bool"
    and round_up :: "u32 \<Rightarrow> u32"
    and rest :: "u32 \<Rightarrow> u32 \<Rightarrow> u32 option"
    and can_cut :: "u32 \<Rightarrow> blocks \<Rightarrow> bool"
    and alloc :: "nat \<Rightarrow> u32 \<Rightarrow> 's \<Rightarrow> 'e + u32 \<times> 's"
    and free :: "nat \<Rightarrow> u32 \<Rightarrow> 's \<Rightarrow> 'e + 's"
  assumes rel_ok: "rel s bs \<Longrightarrow> blocks_ok k bs"
    and cut_sound: "can_cut sz bs \<Longrightarrow> find (\<lambda>b. sz \<le> snd b) bs = Some b \<Longrightarrow> rest sz (snd b) = Some r \<Longrightarrow>
      unat sz + hlen k \<le> unat (snd b) \<and> r = snd b - sz - (16 + k)"
    and alloc_fit: "rel s bs \<Longrightarrow> req \<noteq> 0 \<Longrightarrow> Suc (length bs) < fuel \<Longrightarrow> can_cut (round_up req) bs \<Longrightarrow>
      take_fit k (rest (round_up req)) (round_up req) bs = Some ((a, m), bs') \<Longrightarrow>
      \<exists>s'. alloc fuel req s = Inr (a + (16 + k), s') \<and> rel s' bs' \<and> held s' (a, m) \<and>
        (\<forall>c. held s c \<and> extent k c \<inter> bytes k bs = {} \<longrightarrow> held s' c)"
    and free_held: "rel s bs \<Longrightarrow> held s (a, m) \<Longrightarrow> blocks_ok k (insert_block (a, m) bs) \<Longrightarrow>
      Suc (length bs) < fuel \<Longrightarrow> a + (16 + k) \<noteq> 0 \<Longrightarrow>
      \<exists>s' bs'. free fuel (a + (16 + k)) s = Inr s' \<and> rel s' bs' \<and>
        bytes k bs' = bytes k bs \<union> extent k (a, m) \<and> length bs' \<le> Suc (length bs) \<and>
        (\<forall>c. held s c \<and> extent k c \<inter> (bytes k bs \<union> extent k (a, m)) = {} \<longrightarrow> held s' c)"
begin

text \<open>Its cutting rule is sound on the block that is cut.\<close>

lemma sound_take:
  assumes "can_cut sz bs"
  shows "\<exists>rest'. sound_rest k rest' sz \<and> take_fit k rest' sz bs = take_fit k (rest sz) sz bs"
proof -
  define rest' where "rest' = (\<lambda>n. if \<exists>b. find (\<lambda>b. sz \<le> snd b) bs = Some b \<and> snd b = n then rest sz n else None)"
  have "take_fit k rest' sz bs = take_fit k (rest sz) sz bs"
    by (rule take_fit_cong) (auto simp: rest'_def)
  moreover have "sound_rest k rest' sz"
    using cut_sound [OF assms] by (auto simp: sound_rest_def rest'_def split: if_splits)
  ultimately show ?thesis by blast
qed

text \<open>What one allocation does to the free bytes.\<close>

lemma take_facts:
  assumes "rel s bs" "can_cut sz bs" "take_fit k (rest sz) sz bs = Some (b, bs')"
  shows "blocks_ok k bs'" "extent k b \<inter> bytes k bs' = {}" "extent k b \<union> bytes k bs' = bytes k bs"
    "block_end k b \<le> 2 ^ 32" "sz \<le> snd b" "length bs' \<le> length bs" "blocks_ok k (insert_block b bs')"
proof -
  obtain rest' where sound: "sound_rest k rest' sz" and t: "take_fit k rest' sz bs = Some (b, bs')"
    using sound_take [OF assms(2)] assms(3) by auto
  note facts = take_fit_ok [OF t rel_ok [OF assms(1)] sound]
  from facts(1-4,6-8) show "blocks_ok k bs'" "extent k b \<inter> bytes k bs' = {}"
    "extent k b \<union> bytes k bs' = bytes k bs" "block_end k b \<le> 2 ^ 32" "sz \<le> snd b"
    "length bs' \<le> length bs" "blocks_ok k (insert_block b bs')" by blast+
qed

text \<open>Two blocks handed out one after the other do not overlap, and the first one is kept.\<close>

lemma alloc_twice:
  assumes "rel s bs" "Suc (length bs) < fuel" "q \<noteq> 0" "r \<noteq> 0"
    and "can_cut (round_up q) bs" "take_fit k (rest (round_up q)) (round_up q) bs = Some ((a, m), bs1)"
    and "can_cut (round_up r) bs1" "take_fit k (rest (round_up r)) (round_up r) bs1 = Some ((b, n), bs2)"
  shows "\<exists>s1 s2. alloc fuel q s = Inr (a + (16 + k), s1) \<and> alloc fuel r s1 = Inr (b + (16 + k), s2) \<and>
    rel s2 bs2 \<and> held s2 (a, m) \<and> held s2 (b, n) \<and> extent k (a, m) \<inter> extent k (b, n) = {}"
proof -
  obtain s1 where s1: "alloc fuel q s = Inr (a + (16 + k), s1)" "rel s1 bs1" "held s1 (a, m)"
    using alloc_fit [OF assms(1,3,2,5,6)] by blast
  note t1 = take_facts [OF assms(1,5,6)]
  have "Suc (length bs1) < fuel" using t1(6) assms(2) by simp
  then obtain s2 where s2: "alloc fuel r s1 = Inr (b + (16 + k), s2)" "rel s2 bs2" "held s2 (b, n)"
      "\<forall>c. held s1 c \<and> extent k c \<inter> bytes k bs1 = {} \<longrightarrow> held s2 c"
    using alloc_fit [OF s1(2) assms(4) _ assms(7,8)] by blast
  note t2 = take_facts [OF s1(2) assms(7,8)]
  have "extent k (a, m) \<inter> extent k (b, n) = {}" using t1(2) t2(3) by blast
  then show ?thesis using s1 s2 t1(2) by blast
qed

text \<open>Releasing a block just handed out gives back exactly the bytes it was cut from.\<close>

lemma alloc_free:
  assumes "rel s bs" "Suc (length bs) < fuel" "q \<noteq> 0" "can_cut (round_up q) bs"
    and "take_fit k (rest (round_up q)) (round_up q) bs = Some ((a, m), bs1)" "a + (16 + k) \<noteq> 0"
  shows "\<exists>s1 s2 bs2. alloc fuel q s = Inr (a + (16 + k), s1) \<and> free fuel (a + (16 + k)) s1 = Inr s2 \<and>
    rel s2 bs2 \<and> bytes k bs2 = bytes k bs"
proof -
  obtain s1 where s1: "alloc fuel q s = Inr (a + (16 + k), s1)" "rel s1 bs1" "held s1 (a, m)"
    using alloc_fit [OF assms(1,3,2,4,5)] by blast
  note t = take_facts [OF assms(1,4,5)]
  have "Suc (length bs1) < fuel" using t(6) assms(2) by simp
  from free_held [OF s1(2,3) t(7) this assms(6)] t(3)
  obtain s2 bs2 where "free fuel (a + (16 + k)) s1 = Inr s2" "rel s2 bs2" "bytes k bs2 = bytes k bs"
    by (metis sup_commute)
  with s1 show ?thesis by blast
qed

end

end
