(* ===== verification/Coalesced.thy ===== *)
theory Coalesced
  imports Heap_Interface
begin

text \<open>
  Lists of free blocks in which no two blocks touch.  Such a list is determined by its set of free
  bytes, so an operation that keeps the lists coalesced is known exactly once its effect on the
  bytes is.  Allocation keeps a list coalesced, and merging makes it so.
\<close>

definition coalesced :: "u32 \<Rightarrow> blocks \<Rightarrow> bool" where
  "coalesced k bs \<longleftrightarrow> (\<forall>b \<in> set bs. block_end k b \<notin> bytes k bs)"

lemma coalesced_Nil [simp]: "coalesced k []"
  by (simp add: coalesced_def)

lemma coalesced_mono:
  assumes "coalesced k bs" "bytes k cs \<subseteq> bytes k bs"
    and "\<And>c. c \<in> set cs \<Longrightarrow> \<exists>b \<in> set bs. block_end k c = block_end k b"
  shows "coalesced k cs"
  unfolding coalesced_def
proof
  fix c assume "c \<in> set cs"
  then obtain b where "b \<in> set bs" "block_end k c = block_end k b" using assms(3) by blast
  then show "block_end k c \<notin> bytes k cs" using assms(1,2) by (auto simp: coalesced_def)
qed

lemma coalesced_tl: "coalesced k (b # bs) \<Longrightarrow> coalesced k bs"
  by (rule coalesced_mono) auto

lemma extent_ends: "extent k b = {unat (fst b) ..< block_end k b}"
  by (simp add: extent_def block_end_def)

lemma extent_start [simp]: "unat a \<in> extent k (a, n)"
  by (simp add: extent_def hlen_def)

lemma ok_end_first:
  assumes "blocks_ok k (b # bs)" "x \<in> bytes k bs"
  shows "block_end k b \<le> x"
proof -
  obtain c where c: "c \<in> set bs" "unat (fst c) \<le> x" using assms(2) by (auto simp: bytes_def extent_ends)
  then have "before k b c" using assms(1) by (simp add: blocks_ok_Cons)
  then show ?thesis using c(2) by (simp add: before_def)
qed

lemma ok_first:
  assumes "blocks_ok k (b # bs)" "x \<in> bytes k (b # bs)"
  shows "unat (fst b) \<le> x"
  using assms(2) ok_end_first [OF assms(1), of x] by (auto simp: extent_ends block_end_def)

text \<open>The free bytes determine the list.\<close>

lemma coalesced_unique:
  "blocks_ok k bs \<Longrightarrow> blocks_ok k cs \<Longrightarrow> coalesced k bs \<Longrightarrow> coalesced k cs \<Longrightarrow> bytes k bs = bytes k cs \<Longrightarrow> bs = cs"
proof (induction bs arbitrary: cs)
  case Nil
  have "cs = []"
  proof (cases cs)
    case (Cons c ds)
    then have "unat (fst c) \<in> bytes k []" using Nil.prems(5) extent_start [of "fst c" k "snd c"] by simp
    then show ?thesis by simp
  qed
  then show ?case by simp
next
  case (Cons b bs)
  obtain a n where b: "b = (a, n)" by force
  have "unat a \<in> bytes k (b # bs)" by (simp add: b)
  then have "unat a \<in> bytes k cs" unfolding Cons.prems(5) .
  then obtain c m ds where cs: "cs = (c, m) # ds" by (cases cs) auto
  have "unat c \<in> bytes k (b # bs)" unfolding Cons.prems(5) cs by simp
  then have "unat a \<le> unat c" "unat c \<le> unat a"
    using ok_first [of k b bs "unat c"] ok_first [of k "(c, m)" ds "unat a"] \<open>unat a \<in> bytes k cs\<close> Cons.prems(1,2)
    by (simp_all add: b cs)
  then have ac: "c = a" unfolding word_unat_eq_iff by linarith
  have "block_end k (a, n) \<notin> bytes k (b # bs)" "block_end k (a, m) \<notin> bytes k cs"
    using Cons.prems(3,4) by (simp_all add: coalesced_def b cs ac)
  then have "block_end k (a, n) \<notin> bytes k cs" "block_end k (a, m) \<notin> bytes k (b # bs)"
    by (simp_all only: Cons.prems(5) not_False_eq_True)
  then have e: "block_end k (a, n) \<notin> extent k (a, m)" "block_end k (a, m) \<notin> extent k (a, n)"
    by (simp_all only: b cs ac bytes_simps Un_iff de_Morgan_disj not_False_eq_True)
  have "unat a \<le> block_end k (a, n)" "unat a \<le> block_end k (a, m)" by (simp_all add: block_end_def)
  then have "block_end k (a, n) = block_end k (a, m)" using e by (simp add: extent_ends)
  then have nm: "m = n" unfolding word_unat_eq_iff block_end_def fst_conv snd_conv by linarith
  have "extent k (a, n) \<inter> bytes k bs = {}" "extent k (a, n) \<inter> bytes k ds = {}"
    using extent_apart [of k "[]" "(a, n)"] Cons.prems(1,2) by (simp_all add: b cs ac nm)
  moreover have "extent k (a, n) \<union> bytes k bs = extent k (a, n) \<union> bytes k ds"
    using Cons.prems(5) by (simp only: b cs ac nm bytes_simps)
  ultimately have "bytes k bs = bytes k ds" by blast
  then have "bs = ds"
    using Cons.IH [of ds] Cons.prems(1-4) coalesced_tl by (auto simp: blocks_ok_Cons cs)
  then show ?case by (simp add: b cs ac nm)
qed

text \<open>Taking a block, or the front of one, off a coalesced list.\<close>

lemma take_fit_coalesced:
  assumes "take_fit k rest sz bs = Some (b, bs')" "blocks_ok k bs" "sound_rest k rest sz" "coalesced k bs"
  shows "coalesced k bs'"
proof (rule coalesced_mono [OF assms(4)])
  show "bytes k bs' \<subseteq> bytes k bs" using take_fit_ok(3) [OF assms(1-3)] by blast
  fix c assume c: "c \<in> set bs'"
  obtain xs a n ys where s: "bs = xs @ (a, n) # ys" "sz \<le> n" "bs' = xs @ after_cut k rest sz a n @ ys"
    using take_fit_split [OF assms(1)] by metis
  show "\<exists>b \<in> set bs. block_end k c = block_end k b"
  proof (cases "c \<in> set (xs @ ys)")
    case True
    then show ?thesis by (auto simp: s(1))
  next
    case False
    then obtain r where r: "rest n = Some r" "c = (a + (16 + k) + sz, r)"
      using c by (cases "rest n") (auto simp: s(3) after_cut_def)
    then have "unat sz + hlen k \<le> unat n" "r = n - sz - (16 + k)"
      using assms(3) s(2) by (simp_all add: sound_rest_def)
    from cut_ok(6) [OF assms(2) [unfolded s(1)] this(1) refl this(2)]
    show ?thesis by (auto simp: r(2) s(1))
  qed
qed

text \<open>Merging.\<close>

lemma touch_iff:
  assumes "block_end k (a, n) \<le> unat b"
  shows "b = a + (16 + k) + n \<longleftrightarrow> unat b = block_end k (a, n)"
proof -
  have lt: "unat a + hlen k + unat n < 2 ^ 32" using assms unsigned_less [of b, where 'a = nat] by (simp add: block_end_def)
  then have k: "unat (16 + k) = hlen k"
    by (subst unat_add_lem [THEN iffD1]) (auto simp: hlen_def)
  have "unat (a + (16 + k)) = unat a + hlen k"
    using lt k by (subst unat_add_lem [THEN iffD1]) auto
  then have "unat (a + (16 + k) + n) = block_end k (a, n)"
    using lt by (subst unat_add_lem [THEN iffD1]) (auto simp: block_end_def)
  then show ?thesis by (simp only: word_unat_eq_iff)
qed

lemma merge_ends:
  "blocks_ok k bs \<Longrightarrow> \<forall>b \<in> set (merge_adjacent k bs). block_end k b \<notin> bytes k bs"
proof (induction k bs rule: merge_adjacent.induct)
  case (1 k a n b m bs)
  show ?case
  proof (cases "b = a + (16 + k) + n")
    case True
    have "hlen k < 2 ^ 32" using 1(3) by (auto simp: blocks_ok_Cons before_def block_end_def)
    note ab = absorb_ok [of k "[]", unfolded append_Nil, OF 1(3) True this]
    from 1(1) [OF True ab(1)] True ab(3) show ?thesis by auto
  next
    case False
    have ok: "blocks_ok k ((b, m) # bs)" and bf: "before k (a, n) (b, m)" using 1(3) by (simp_all add: blocks_ok_Cons)
    note ih = 1(2) [OF False ok]
    have ne: "block_end k (a, n) < unat b"
      using False touch_iff [of k a n b] bf by (auto simp: before_def)
    have "block_end k (a, n) \<notin> bytes k ((b, m) # bs)"
      using ok_first [OF ok, of "block_end k (a, n)"] ne by auto
    moreover have "block_end k c \<notin> extent k (a, n)" if "c \<in> set (merge_adjacent k ((b, m) # bs))" for c
    proof -
      have "blocks_ok k ([(a, n)] @ merge_adjacent k ((b, m) # bs))"
        using merge_ok [of k "[(a, n)]" "(b, m) # bs"] 1(3) by simp
      then have "before k (a, n) c" using that by (auto simp: blocks_ok_Cons)
      then show ?thesis by (auto simp: before_def extent_ends block_end_def)
    qed
    ultimately show ?thesis using False ih by (auto simp: extent_ends)
  qed
qed (auto simp: extent_ends)

lemma merge_coalesced: "blocks_ok k bs \<Longrightarrow> coalesced k (merge_adjacent k bs)"
  using merge_ends merge_ok [of k "[]" bs] by (simp add: coalesced_def)

text \<open>
  What makes a list coalesced around one of its blocks: the block ends where no other one starts
  when it does not touch the next one, and the only block that can end where it starts is the one
  before it.
\<close>

lemma ends_free:
  assumes ok: "blocks_ok k (xs @ (a, n) # ys)"
    and ne: "\<And>b j zs. ys = (b, j) # zs \<Longrightarrow> b \<noteq> a + (16 + k) + n"
  shows "block_end k (a, n) \<notin> bytes k (xs @ (a, n) # ys)"
proof -
  have "block_end k x \<le> unat a" if "x \<in> set xs" for x
    using ok that by (auto simp: blocks_ok_append before_def)
  then have "block_end k (a, n) \<notin> bytes k xs" by (fastforce simp: bytes_def extent_ends block_end_def)
  moreover have "block_end k (a, n) \<notin> bytes k ys"
  proof (cases ys)
    case (Cons c zs)
    obtain b j where c: "c = (b, j)" by force
    have "blocks_ok k (c # zs)" "block_end k (a, n) \<le> unat b"
      using ok by (auto simp: blocks_ok_append blocks_ok_Cons before_def Cons c)
    moreover from this have "unat b \<noteq> block_end k (a, n)" using touch_iff ne Cons c by blast
    ultimately show ?thesis using ok_first [of k c zs "block_end k (a, n)"] by (auto simp: Cons c)
  qed simp
  ultimately show ?thesis by (simp add: extent_ends)
qed

lemma touches_last:
  assumes ok: "blocks_ok k (xs @ (a, n) # ys)" and ne: "\<And>us p j. xs = us @ [(p, j)] \<Longrightarrow> a \<noteq> p + (16 + k) + j"
    and b: "b \<in> set xs"
  shows "block_end k b \<noteq> unat a"
proof -
  obtain us c where xs: "xs = us @ [c]" using b by (cases xs rule: rev_cases) auto
  obtain p j where c: "c = (p, j)" by force
  have ca: "block_end k c \<le> unat a" using ok by (auto simp: xs blocks_ok_append blocks_ok_Cons before_def)
  show ?thesis
  proof (cases "b \<in> set us")
    case True
    then have "before k b c" using ok by (auto simp: xs blocks_ok_append)
    then show ?thesis using ca by (auto simp: before_def block_end_def hlen_def)
  next
    case False
    then have "b = c" using b by (auto simp: xs)
    moreover have "unat a \<noteq> block_end k (p, j)" using touch_iff ca ne [of us p j] by (auto simp: xs c)
    ultimately show ?thesis by (auto simp: c)
  qed
qed

lemma absorb_end:
  assumes "blocks_ok k (xs @ (a, n) # (b, m) # ys)" "b = a + (16 + k) + n" "hlen k < 2 ^ 32"
  shows "block_end k (a, n + ((16 + k) + m)) = block_end k (b, m)"
proof -
  have "before k (a, n) (b, m)" using assms(1) by (auto simp: blocks_ok_append blocks_ok_Cons)
  then have "unat b = block_end k (a, n)" using touch_iff [of k a n b] assms(2) by (simp add: before_def)
  then show ?thesis using absorb_ok(2) [OF assms] by (simp add: block_end_def)
qed

text \<open>The number of blocks, by the number of bytes.\<close>

lemma finite_bytes [simp]: "finite (bytes k bs)"
  by (simp add: bytes_def extent_def)

lemma apart_length: "blocks_apart k us \<Longrightarrow> length us * hlen k \<le> card (bytes k us)"
proof (induction us)
  case (Cons b us)
  have "extent k b \<inter> bytes k us = {}" using Cons.prems by (auto simp: blocks_apart_Cons apart_def bytes_def)
  then have "card (bytes k (b # us)) = card (extent k b) + card (bytes k us)"
    by (simp add: card_Un_disjoint extent_def)
  moreover have "hlen k \<le> card (extent k b)" by (simp add: extent_def)
  ultimately show ?case using Cons by (simp add: blocks_apart_Cons)
qed simp

context block_heap begin

text \<open>An allocation keeps the free list coalesced, and putting the block back gives the list of before.\<close>

lemma take_coalesced:
  assumes "rel s bs" "can_cut sz bs" "take_fit k (rest sz) sz bs = Some (b, bs')" "coalesced k bs"
  shows "coalesced k bs'"
proof -
  obtain rest' where "sound_rest k rest' sz" "take_fit k rest' sz bs = take_fit k (rest sz) sz bs"
    using sound_take [OF assms(2)] by blast
  with take_fit_coalesced [OF _ rel_ok [OF assms(1)] _ assms(4)] assms(3) show ?thesis by metis
qed

lemma take_refill:
  assumes "rel s bs" "can_cut sz bs" "take_fit k (rest sz) sz bs = Some (b, bs')" "coalesced k bs"
  shows "merge_adjacent k (insert_block b bs') = bs"
proof (rule coalesced_unique)
  note f = take_facts [OF assms(1-3)]
  have i: "set (insert_block b bs') = insert b (set bs')" by (induction bs') auto
  then have "bytes k (insert_block b bs') = bytes k bs" using f(3) by (auto simp: bytes_def)
  then show "bytes k (merge_adjacent k (insert_block b bs')) = bytes k bs"
    "blocks_ok k (merge_adjacent k (insert_block b bs'))"
    using merge_ok [of k "[]" "insert_block b bs'"] f(7) by auto
  show "coalesced k (merge_adjacent k (insert_block b bs'))" by (rule merge_coalesced [OF f(7)])
qed (use assms(4) rel_ok [OF assms(1)] in auto)

end

text \<open>
  A heap that merges a block released with the free blocks on both sides of it.  An allocation that
  is released at once leaves no trace on the free list.
\<close>

locale merging_heap = block_heap +
  assumes free_merges: "rel s bs \<Longrightarrow> held s (a, m) \<Longrightarrow> blocks_ok k (insert_block (a, m) bs) \<Longrightarrow> coalesced k bs \<Longrightarrow>
    Suc (length bs) < fuel \<Longrightarrow> a + (16 + k) \<noteq> 0 \<Longrightarrow>
    \<exists>s'. free fuel (a + (16 + k)) s = Inr s' \<and> rel s' (merge_adjacent k (insert_block (a, m) bs))"
begin

lemma alloc_free_same:
  assumes "rel s bs" "coalesced k bs" "Suc (length bs) < fuel" "q \<noteq> 0" "can_cut (round_up q) bs"
    and "take_fit k (rest (round_up q)) (round_up q) bs = Some ((a, m), bs1)" "a + (16 + k) \<noteq> 0"
  shows "\<exists>s1 s2. alloc fuel q s = Inr (a + (16 + k), s1) \<and> free fuel (a + (16 + k)) s1 = Inr s2 \<and> rel s2 bs"
proof -
  obtain s1 where s1: "alloc fuel q s = Inr (a + (16 + k), s1)" "rel s1 bs1" "held s1 (a, m)"
    using alloc_fit [OF assms(1,4,3,5,6)] by blast
  note t = take_facts [OF assms(1,5,6)]
  have "Suc (length bs1) < fuel" using t(6) assms(3) by simp
  from free_merges [OF s1(2,3) t(7) take_coalesced [OF assms(1,5,6,2)] this assms(7)]
  show ?thesis using s1(1) take_refill [OF assms(1,5,6,2)] by auto
qed

end

end
