(* ===== verification/Heap_Sharing.thy ===== *)
theory Heap_Sharing
  imports Coalesced
begin

text \<open>
  How a heap shares out its memory: the free blocks and the blocks in use lie side by side and fill
  a region between them.  Taking a block, releasing one and growing by one keep that up, whatever
  the code of the heap; the payload of a block in use is out of reach of the headers.
\<close>

section \<open>Blocks apart\<close>

lemma apart_bytes: "b \<in> set us \<Longrightarrow> extent k b \<subseteq> bytes k us"
  by (auto simp: bytes_def)

lemma apart_new:
  assumes "blocks_apart k us" "fst b \<noteq> 0" "block_end k b \<le> 2 ^ 32" "extent k b \<inter> bytes k us = {}"
  shows "blocks_apart k (b # us)"
  using assms apart_bytes [of _ us k] by (fastforce simp: blocks_apart_Cons apart_def)

lemma apart_remove:
  assumes "blocks_apart k (us @ b # vs)"
  shows "blocks_apart k (us @ vs)" "extent k b \<inter> bytes k (us @ vs) = {}" "fst b \<noteq> 0" "block_end k b \<le> 2 ^ 32"
  using assms by (auto simp: blocks_apart_append blocks_apart_Cons apart_def bytes_def)

lemma insert_block_facts:
  "bytes k (insert_block b bs) = bytes k bs \<union> extent k b" "length (insert_block b bs) = Suc (length bs)"
  by (induction bs) auto

text \<open>A released block can be put back into the free list.\<close>

lemma insert_ok:
  assumes "blocks_ok k bs" "extent k b \<inter> bytes k bs = {}" "fst b \<noteq> 0" "block_end k b \<le> 2 ^ 32"
  shows "blocks_ok k (insert_block b bs)"
  using assms
proof (induction bs)
  case (Cons c bs)
  have c: "block_end k c \<le> unat (fst b) \<or> block_end k b \<le> unat (fst c)"
  proof (rule ccontr)
    assume "\<not> ?thesis"
    then have "max (unat (fst b)) (unat (fst c)) \<in> extent k b \<inter> extent k c"
      by (simp add: extent_ends) (simp add: block_end_def hlen_def)
    then show False using Cons.prems(2) by auto
  qed
  show ?case
  proof (cases "fst c < fst b")
    case True
    then have "before k c b" using c by (auto simp: before_def block_end_def hlen_def word_less_nat_alt)
    moreover have "set (insert_block b bs) = insert b (set bs)" by (induction bs) auto
    ultimately show ?thesis using Cons True by (auto simp: blocks_ok_Cons)
  next
    case False
    then have bc: "before k b c" using c by (auto simp: before_def block_end_def hlen_def word_less_nat_alt)
    have "before k b y" if "y \<in> set bs" for y
    proof -
      have "before k c y" using Cons.prems(1) that by (simp add: blocks_ok_Cons)
      then show ?thesis using bc by (auto simp: before_def block_end_def)
    qed
    then show ?thesis using Cons.prems False bc by (auto simp: blocks_ok_Cons)
  qed
qed (simp add: blocks_ok_Cons)

text \<open>A list in memory determines the blocks on it.\<close>

lemma dlu_unique:
  "dlu u k m pv p us 0 l \<Longrightarrow> dlu u k m pv p us' 0 l' \<Longrightarrow> \<forall>b \<in> set us \<union> set us'. fst b \<noteq> 0 \<Longrightarrow> us = us'"
proof (induction us arbitrary: pv p us')
  case Nil
  then show ?case by (cases us') auto
next
  case (Cons b us)
  then obtain c vs where us': "us' = c # vs" by (cases us'; cases b) auto
  obtain a n where b: "b = (a, n)" by force
  obtain a' n' where c: "c = (a', n')" by force
  have "a' = a" "n' = n" using Cons.prems(1,2) by (auto simp: us' b c hdr_def)
  with Cons show ?case by (auto simp: us' b c)
qed

section \<open>Payloads\<close>

definition payload :: "u32 \<Rightarrow> u32 \<times> u32 \<Rightarrow> nat set" where
  "payload k b = {unat (fst b) + hlen k ..< block_end k b}"

lemma payload_extent: "payload k b \<subseteq> extent k b"
  by (auto simp: payload_def extent_ends)

lemma payload_heads:
  assumes "blocks_apart k us" "b \<in> set us"
  shows "payload k b \<inter> heads k us = {}" "payload k b \<subseteq> bytes k us"
proof -
  obtain vs ws where us: "us = vs @ b # ws" using assms(2) by (metis split_list)
  note p = payload_extent [of k b]
  have "payload k b \<inter> hrange k (fst b) = {}" by (auto simp: hrange_def payload_def)
  moreover have "payload k b \<inter> heads k (vs @ ws) = {}"
    using apart_remove(2) [OF assms(1) [unfolded us]] heads_bytes [of k "vs @ ws"] p by blast
  ultimately show "payload k b \<inter> heads k us = {}" by (auto simp: us heads_def)
  show "payload k b \<subseteq> bytes k us" using p by (auto simp: us)
qed

lemma agree_at: "agree S m m' \<Longrightarrow> unat x \<in> P \<Longrightarrow> P \<inter> S = {} \<Longrightarrow> m' x = m x"
  by (auto simp: agree_def)

section \<open>Sharing out a region\<close>

definition shares :: "u32 \<Rightarrow> nat set \<Rightarrow> blocks \<Rightarrow> blocks \<Rightarrow> bool" where
  "shares k S bs us \<longleftrightarrow> blocks_apart k us \<and> bytes k us \<inter> bytes k bs = {} \<and> bytes k bs \<union> bytes k us = S"

lemma shares_start: "bytes k bs = S \<Longrightarrow> shares k S bs []"
  by (simp add: shares_def blocks_apart_def)

lemma shares_grow:
  assumes "shares k S bs us" "extent k b \<inter> S = {}"
  shows "shares k (S \<union> extent k b) (bs @ [b]) us"
  using assms by (auto simp: shares_def)

text \<open>A release: the block goes back between the free ones, which are merged.\<close>

lemma shares_free:
  assumes "shares k S bs (us @ b # vs)" "blocks_ok k bs"
  shows "blocks_ok k (insert_block b bs)" "bytes k (insert_block b bs) \<subseteq> S"
    "shares k S (merge_adjacent k (insert_block b bs)) (us @ vs)"
    "coalesced k (merge_adjacent k (insert_block b bs))"
proof -
  note r = apart_remove [of k us b vs]
  have ap: "blocks_apart k (us @ b # vs)" and d: "extent k b \<inter> bytes k bs = {}"
    using assms(1) by (auto simp: shares_def)
  show ok: "blocks_ok k (insert_block b bs)" by (rule insert_ok [OF assms(2) d r(3,4) [OF ap]])
  have m: "bytes k (merge_adjacent k (insert_block b bs)) = bytes k bs \<union> extent k b"
    using merge_ok [of k "[]" "insert_block b bs"] ok by (simp add: insert_block_facts)
  show "bytes k (insert_block b bs) \<subseteq> S" using assms(1) by (auto simp: shares_def insert_block_facts)
  show "shares k S (merge_adjacent k (insert_block b bs)) (us @ vs)"
    using assms(1) r(1,2) [OF ap] unfolding shares_def m by auto
  show "coalesced k (merge_adjacent k (insert_block b bs))" by (rule merge_coalesced [OF ok])
qed

lemma shares_free_bytes:
  assumes "shares k S bs (us @ b # vs)" "c \<in> set (us @ vs)"
  shows "extent k c \<inter> bytes k (insert_block b bs) = {}"
proof -
  have "extent k b \<inter> bytes k (us @ vs) = {}" using assms(1) apart_remove(2) by (simp add: shares_def)
  moreover have "extent k c \<subseteq> bytes k (us @ vs)" using apart_bytes [OF assms(2)] .
  ultimately show ?thesis using assms(1) by (auto simp: shares_def insert_block_facts)
qed

lemma shares_in:
  assumes "shares k S bs us" "b \<in> set us"
  shows "extent k b \<subseteq> S" "extent k b \<inter> bytes k bs = {}" "fst b \<noteq> 0" "block_end k b \<le> 2 ^ 32"
  using assms apart_bytes [OF assms(2), of k] by (auto simp: shares_def blocks_apart_def)

text \<open>An allocation, with a sound rule for the remainder and in a heap with the interface.\<close>

lemma shares_take_fit:
  assumes "take_fit k rest sz bs = Some (b, bs')" "blocks_ok k bs" "sound_rest k rest sz" "shares k S bs us"
  shows "shares k S bs' (b # us)"
proof -
  note t = take_fit_ok [OF assms(1-3)]
  have "extent k b \<inter> bytes k us = {}" using t(3) assms(4) by (auto simp: shares_def)
  then show ?thesis using assms(4) t(2-5) apart_new [of k us b] by (auto simp: shares_def)
qed

context block_heap begin

lemma shares_take:
  assumes "rel s bs" "can_cut sz bs" "take_fit k (rest sz) sz bs = Some (b, bs')" "shares k S bs us"
  shows "shares k S bs' (b # us)"
proof -
  obtain rest' where "sound_rest k rest' sz" "take_fit k rest' sz bs = take_fit k (rest sz) sz bs"
    using sound_take [OF assms(2)] by blast
  with shares_take_fit [OF _ rel_ok [OF assms(1)] _ assms(4)] assms(3) show ?thesis by metis
qed

end

end
