(* ===== verification/HEAP.thy ===== *)
theory HEAP
  imports VMM Heap_Sharing
begin

text \<open>
  \<open>Kernel/src/Include/HEAP.c\<close>: the kernel heap.  A block is a 16-byte header (\<open>block_t\<close>: size at
  offset 0, the byte \<open>used\<close> at 4, \<open>next\<close> at 8, \<open>prev\<close> at 12) followed by its payload; the headers
  live in RAM and are read and written through the memory of \<open>Machine\<close>.  \<open>free_list\<close> links the
  free blocks; a block in use is on no list.

  The list walks, and the call of \<open>kmalloc\<close> to itself, need not end; they take a fuel argument and
  running out of it is the value \<open>Inl No_Return\<close>.  The theorems say how much fuel is enough, or
  that no fuel is.
\<close>

section \<open>State and operations\<close>

record heap = vmm +
  heap_start :: u32
  free_list :: u32
  heap_total :: u32
  heap_used :: u32
  heap_blocks :: u32

definition block_hdr :: u32 where
  "block_hdr = 16"

text \<open>\<open>while(last && last->next) last = last->next\<close> of \<open>heap_expand\<close>.\<close>

primrec last_block :: "nat \<Rightarrow> u32 \<Rightarrow> 'a heap_scheme \<Rightarrow> fault + u32" where
  "last_block 0 lst s = Inl No_Return"
| "last_block (Suc fuel) lst s =
     (if lst = 0 then Inr 0
      else bindE (ld32 (lst + 8) s) (\<lambda>nx. if nx = 0 then Inr lst else last_block fuel nx s))"

text \<open>The header of a block just added: free, the whole page, linked to nothing.\<close>

definition fresh_header :: "u32 \<Rightarrow> 'a heap_scheme \<Rightarrow> fault + 'a heap_scheme" where
  "fresh_header b s =
     bindE (st32 b (PAGE_SIZE - block_hdr) s) (\<lambda>s.
     bindE (st8 (b + 4) 0 s) (\<lambda>s.
     bindE (st32 (b + 8) 0 s) (\<lambda>s.
     st32 (b + 12) 0 s)))"

text \<open>One round of the loop of \<open>heap_expand\<close>; the flag is \<open>False\<close> when it returns early.\<close>

definition heap_add_page :: "nat \<Rightarrow> 'a heap_scheme \<Rightarrow> fault + bool \<times> 'a heap_scheme" where
  "heap_add_page fuel s =
     bindE (alloc_page s) (\<lambda>(phys, s).
     if phys = 0
     then Inr (False, emit (Kprintf (''%s %s ERROR: Out of memory for heap expansion!'' @ crlf)
                 [ArgS LOG_ERROR, ArgS LOG_HEAP]) s)
     else let virt = TEST_HEAP_VIRT + heap_total s in
       bindE (vmm_map_page virt phys (PG_PRESENT OR PG_WRITABLE) s) (\<lambda>s.
       let s = s\<lparr>heap_total := heap_total s + PAGE_SIZE\<rparr> in
       if heap_start s = 0
       then bindE (fresh_header virt (s\<lparr>heap_start := virt\<rparr>)) (\<lambda>s.
         Inr (True, s\<lparr>free_list := heap_start s, heap_blocks := 1\<rparr>))
       else bindE (fresh_header virt s) (\<lambda>s.
         bindE (last_block fuel (free_list s) s) (\<lambda>lst.
         bindE (if lst \<noteq> 0
                then bindE (st32 (lst + 8) virt s) (\<lambda>s. st32 (virt + 12) lst s)
                else Inr (s\<lparr>free_list := virt\<rparr>)) (\<lambda>s.
         Inr (True, s\<lparr>heap_blocks := heap_blocks s + 1\<rparr>))))))"

primrec heap_add_pages :: "nat \<Rightarrow> nat \<Rightarrow> 'a heap_scheme \<Rightarrow> fault + bool \<times> 'a heap_scheme" where
  "heap_add_pages fuel 0 s = Inr (True, s)"
| "heap_add_pages fuel (Suc n) s =
     bindE (heap_add_page fuel s) (\<lambda>(go, s). if go then heap_add_pages fuel n s else Inr (False, s))"

definition heap_expand :: "nat \<Rightarrow> u32 \<Rightarrow> 'a heap_scheme \<Rightarrow> fault + 'a heap_scheme" where
  "heap_expand fuel pages s =
     bindE (heap_add_pages fuel (unat pages) s) (\<lambda>(go, s).
     if go then Inr (emit (Kprintf (''%s %s Expanded by %d pages, total: %d bytes'' @ crlf)
       [ArgS LOG_INFO, ArgS LOG_HEAP, ArgW pages, ArgW (heap_total s)]) s)
     else Inr s)"

definition heap_init :: "nat \<Rightarrow> 'a heap_scheme \<Rightarrow> fault + 'a heap_scheme" where
  "heap_init fuel s =
     (let s = emit (Kprintf (''%s %s Initializing at %x...'' @ crlf)
                [ArgS LOG_INFO, ArgS LOG_HEAP, ArgW TEST_HEAP_VIRT]) s
      in bindE (heap_expand fuel HEAP_INIT_PAGES s) (\<lambda>s.
      let s = emit (Kprintf (''%s %s DEBUG: TEST_HEAP_VIRT = 0x%x'' @ crlf)
                [ArgS LOG_DEBUG, ArgS LOG_HEAP, ArgW TEST_HEAP_VIRT]) s;
          s = emit (Kprintf (''%s %s DEBUG: heap_start will be at 0x%x'' @ crlf)
                [ArgS LOG_DEBUG, ArgS LOG_HEAP, ArgW TEST_HEAP_VIRT]) s
      in Inr (emit (Kprintf (''%s %s Ready (%d bytes)'' @ crlf)
                [ArgS LOG_INFO, ArgS LOG_HEAP, ArgW (heap_total s)]) s)))"

definition split_block :: "u32 \<Rightarrow> u32 \<Rightarrow> 'a heap_scheme \<Rightarrow> fault + 'a heap_scheme" where
  "split_block block sz s =
     bindE (ld32 block s) (\<lambda>bsz.
     let remaining = bsz - sz in
     if remaining \<ge> block_hdr + 16
     then let new_block = block + block_hdr + sz in
       bindE (st32 new_block (remaining - block_hdr) s) (\<lambda>s.
       bindE (st8 (new_block + 4) 0 s) (\<lambda>s.
       bindE (ld32 (block + 8) s) (\<lambda>nx.
       bindE (st32 (new_block + 8) nx s) (\<lambda>s.
       bindE (st32 (new_block + 12) block s) (\<lambda>s.
       bindE (ld32 (block + 8) s) (\<lambda>nx.
       bindE (if nx \<noteq> 0 then st32 (nx + 12) new_block s else Inr s) (\<lambda>s.
       bindE (st32 (block + 8) new_block s) (\<lambda>s.
       bindE (st32 block sz s) (\<lambda>s.
       let s = (if free_list s = block then s\<lparr>free_list := new_block\<rparr> else s);
           s = s\<lparr>heap_blocks := heap_blocks s + 1\<rparr>
       in bindE (ld32 new_block s) (\<lambda>nsz.
       Inr (emit (Kprintf (''%s %s Split block: %d -> %d + %d'' @ crlf)
         [ArgS LOG_DEBUG, ArgS LOG_HEAP, ArgW (sz + remaining), ArgW sz, ArgW nsz]) s)))))))))))
     else Inr s)"

primrec coalesce_from :: "nat \<Rightarrow> u32 \<Rightarrow> 'a heap_scheme \<Rightarrow> fault + 'a heap_scheme" where
  "coalesce_from 0 current s = Inl No_Return"
| "coalesce_from (Suc fuel) current s =
     (if current = 0 then Inr s
      else bindE (ld32 (current + 8) s) (\<lambda>nx.
      if nx = 0 then Inr s
      else bindE (ld32 current s) (\<lambda>sz.
      let current_end = current + block_hdr + sz in
      bindE (if nx = current_end
             then bindE (ld8 (current + 4) s) (\<lambda>u.
               if u = 0 then bindE (ld8 (nx + 4) s) (\<lambda>v. Inr (v = 0)) else Inr False)
             else Inr False) (\<lambda>adjacent.
      if adjacent
      then bindE (ld32 nx s) (\<lambda>nsz.
        bindE (st32 current (sz + (block_hdr + nsz)) s) (\<lambda>s.
        bindE (ld32 (nx + 8) s) (\<lambda>nnx.
        bindE (st32 (current + 8) nnx s) (\<lambda>s.
        bindE (if nnx \<noteq> 0 then st32 (nnx + 12) current s else Inr s) (\<lambda>s.
        let s = s\<lparr>heap_blocks := heap_blocks s - 1\<rparr> in
        bindE (ld32 current s) (\<lambda>csz.
        coalesce_from fuel current (emit (Kprintf (''%s %s Coalesced blocks, new size: %d'' @ crlf)
          [ArgS LOG_DEBUG, ArgS LOG_HEAP, ArgW csz]) s)))))))
      else coalesce_from fuel nx s))))"

definition coalesce_blocks :: "nat \<Rightarrow> 'a heap_scheme \<Rightarrow> fault + 'a heap_scheme" where
  "coalesce_blocks fuel s = coalesce_from fuel (free_list s) s"

text \<open>The first-fit walk of \<open>kmalloc\<close>.\<close>

primrec find_fit :: "nat \<Rightarrow> u32 \<Rightarrow> u32 \<Rightarrow> 'a heap_scheme \<Rightarrow> fault + u32 option" where
  "find_fit 0 current sz s = Inl No_Return"
| "find_fit (Suc fuel) current sz s =
     (if current = 0 then Inr None
      else bindE (ld8 (current + 4) s) (\<lambda>u.
        bindE (if u = 0 then bindE (ld32 current s) (\<lambda>bsz. Inr (bsz \<ge> sz)) else Inr False) (\<lambda>fits.
        if fits then Inr (Some current)
        else bindE (ld32 (current + 8) s) (\<lambda>nx. find_fit fuel nx sz s))))"

text \<open>What \<open>kmalloc\<close> does with the block it found: mark it, split it, take it off the list.\<close>

definition unlink_block :: "u32 \<Rightarrow> 'a heap_scheme \<Rightarrow> fault + 'a heap_scheme" where
  "unlink_block current s =
     bindE (ld32 (current + 12) s) (\<lambda>pv.
     bindE (ld32 (current + 8) s) (\<lambda>nx.
     bindE (if pv \<noteq> 0 then st32 (pv + 8) nx s else Inr (s\<lparr>free_list := nx\<rparr>)) (\<lambda>s.
     bindE (ld32 (current + 8) s) (\<lambda>nx.
     if nx \<noteq> 0
     then bindE (ld32 (current + 12) s) (\<lambda>pv. st32 (nx + 12) pv s) else Inr s))))"

definition take_block :: "u32 \<Rightarrow> u32 \<Rightarrow> 'a heap_scheme \<Rightarrow> fault + u32 \<times> 'a heap_scheme" where
  "take_block current sz s =
     bindE (st8 (current + 4) 1 s) (\<lambda>s.
     bindE (ld32 current s) (\<lambda>bsz.
     let s = s\<lparr>heap_used := heap_used s + bsz\<rparr> in
     bindE (split_block current sz s) (\<lambda>s.
     bindE (unlink_block current s) (\<lambda>s.
     Inr (current + block_hdr,
       emit (Kprintf (''%s %s Allocated %d bytes at %x'' @ crlf)
         [ArgS LOG_INFO, ArgS LOG_HEAP, ArgW sz, ArgW (current + block_hdr)]) s)))))"

definition round8 :: "u32 \<Rightarrow> u32" where
  "round8 req = (req + 7) AND NOT 7"

primrec kmalloc :: "nat \<Rightarrow> u32 \<Rightarrow> 'a heap_scheme \<Rightarrow> fault + u32 \<times> 'a heap_scheme" where
  "kmalloc 0 req s = Inl No_Return"
| "kmalloc (Suc fuel) req s =
     (if req = 0 then Inr (0, s)
      else
        let sz = round8 req;
            s = emit (Kprintf (''%s %s Request: %d bytes'' @ crlf) [ArgS LOG_DEBUG, ArgS LOG_HEAP, ArgW sz]) s
        in bindE (find_fit fuel (free_list s) sz s) (\<lambda>r. case r of
          Some current \<Rightarrow> take_block current sz s
        | None \<Rightarrow>
            let needed = sz + block_hdr;
                pages_needed = (needed + PAGE_SIZE - 1) div PAGE_SIZE;
                s = emit (Kprintf (''%s %s No free block, expanding by %d pages...'' @ crlf)
                      [ArgS LOG_DEBUG, ArgS LOG_HEAP, ArgW pages_needed]) s
            in bindE (heap_expand fuel pages_needed s) (\<lambda>s. kmalloc fuel sz s)))"

text \<open>The walk of \<open>kfree\<close> to the place of \<open>block\<close> in address order.\<close>

primrec find_place :: "nat \<Rightarrow> u32 \<Rightarrow> u32 \<Rightarrow> u32 \<Rightarrow> 'a heap_scheme \<Rightarrow> fault + u32 \<times> u32" where
  "find_place 0 prev current block s = Inl No_Return"
| "find_place (Suc fuel) prev current block s =
     (if current \<noteq> 0 \<and> current < block
      then bindE (ld32 (current + 8) s) (\<lambda>nx. find_place fuel current nx block s)
      else Inr (prev, current))"

definition kfree :: "nat \<Rightarrow> u32 \<Rightarrow> 'a heap_scheme \<Rightarrow> fault + 'a heap_scheme" where
  "kfree fuel ptr s =
     (if ptr = 0 then Inr s
      else let block = ptr - block_hdr in
        bindE (ld8 (block + 4) s) (\<lambda>u.
        if u = 0
        then Inr (emit (Kprintf (''%s %s ERROR: Double free at %x!'' @ crlf)
               [ArgS LOG_ERROR, ArgS LOG_HEAP, ArgW ptr]) s)
        else bindE (st8 (block + 4) 0 s) (\<lambda>s.
        bindE (ld32 block s) (\<lambda>bsz.
        let s = s\<lparr>heap_used := heap_used s - bsz\<rparr> in
        bindE (find_place fuel 0 (free_list s) block s) (\<lambda>(prev, current).
        bindE (st32 (block + 12) prev s) (\<lambda>s.
        bindE (st32 (block + 8) current s) (\<lambda>s.
        bindE (if prev \<noteq> 0 then st32 (prev + 8) block s else Inr (s\<lparr>free_list := block\<rparr>)) (\<lambda>s.
        bindE (if current \<noteq> 0 then st32 (current + 12) block s else Inr s) (\<lambda>s.
        bindE (coalesce_blocks fuel s) (\<lambda>s.
        bindE (ld32 block s) (\<lambda>bsz.
        Inr (emit (Kprintf (''%s %s Freed %d bytes at %x'' @ crlf)
          [ArgS LOG_INFO, ArgS LOG_HEAP, ArgW bsz, ArgW ptr]) s))))))))))))"

definition heap_print_stats :: "'a heap_scheme \<Rightarrow> 'a heap_scheme" where
  "heap_print_stats s =
     emit (Kprintf (''%s %s Stats: total=%d, used=%d, free=%d, blocks=%d'' @ crlf)
       [ArgS LOG_INFO, ArgS LOG_HEAP, ArgW (heap_total s), ArgW (heap_used s),
        ArgW (heap_total s - heap_used s), ArgW (heap_blocks s)]) s"

lemma emit_heap [simp]:
  "heap_start (emit e s) = heap_start s" "free_list (emit e s) = free_list s"
  "heap_total (emit e s) = heap_total s" "heap_used (emit e s) = heap_used s"
  "heap_blocks (emit e s) = heap_blocks s" "heap.more (emit e s) = heap.more s"
  by (simp_all add: emit_def)

lemma paging_heap [simp]:
  "paging (s\<lparr>heap_start := b\<rparr>) = paging s" "paging (s\<lparr>free_list := b\<rparr>) = paging s"
  "paging (s\<lparr>heap_total := b\<rparr>) = paging s" "paging (s\<lparr>heap_used := b\<rparr>) = paging s"
  "paging (s\<lparr>heap_blocks := b\<rparr>) = paging s"
  by (simp_all add: paging_def)

section \<open>The heap represents a list of free blocks\<close>

definition heap_rel :: "'a heap_scheme \<Rightarrow> blocks \<Rightarrow> bool" where
  "heap_rel s bs \<longleftrightarrow> \<not> paging s \<and> blocks_ok 0 bs \<and> (\<exists>l. dll 0 (ram s) 0 (free_list s) bs 0 l)"

definition heap_rest :: "u32 \<Rightarrow> u32 \<Rightarrow> u32 option" where
  "heap_rest sz n = (if 32 \<le> n - sz then Some (n - sz - 16) else None)"

lemma hdr_0: "hdr 0 m a n u nx pv \<longleftrightarrow>
  rd32 m a = n \<and> m (a + 4) = u \<and> rd32 m (a + 8) = nx \<and> rd32 m (a + 12) = pv"
  by (simp add: hdr_def block_tag_def)

lemma set_0: "set_next 0 l r m = (if l = 0 then m else wr32 (l + 8) r m)"
  "set_prev 0 r l m = (if r = 0 then m else wr32 (r + 12) l m)"
  by (simp_all add: set_next_def set_prev_def)

lemma find_fit_run:
  "\<not> paging s \<Longrightarrow> dll 0 (ram s) pv p bs 0 l \<Longrightarrow> \<forall>b \<in> set bs. fst b \<noteq> 0 \<Longrightarrow> length bs < fuel \<Longrightarrow>
   find_fit fuel p sz s = Inr (map_option fst (find (\<lambda>b. sz \<le> snd b) bs))"
proof (induction bs arbitrary: pv p fuel)
  case Nil
  then show ?case by (cases fuel) auto
next
  case (Cons b bs)
  then show ?case by (cases fuel; cases b) (auto simp: run_simps hdr_0)
qed

text \<open>The two halves of taking a block, as changes of memory.\<close>

lemma unlink_run:
  assumes "\<not> paging s" "hdr 0 (ram s) a n u nx pv" "hdr 0 (set_next 0 pv nx (ram s)) a n u nx pv"
  shows "unlink_block a s = Inr (s\<lparr>ram := set_prev 0 nx pv (set_next 0 pv nx (ram s)),
    free_list := (if pv = 0 then nx else free_list s)\<rparr>)"
  using assms unfolding hdr_0 set_0
  by (cases "pv = 0"; cases "nx = 0"; simp add: unlink_block_def run_simps; cases s; simp)

definition split_ram :: "u32 \<Rightarrow> u32 \<Rightarrow> u32 \<Rightarrow> u32 \<Rightarrow> memory \<Rightarrow> memory" where
  "split_ram a sz n nx m =
     (let b = a + 16 + sz;
          m1 = wr32 (b + 12) a (wr32 (b + 8) nx ((wr32 b (n - sz - 16) m)(b + 4 := 0)))
      in wr32 a sz (wr32 (a + 8) b (set_prev 0 nx b m1)))"

lemma split_run:
  assumes np: "\<not> paging s" and h: "\<And>m'. agree (hrange 0 (a + 16 + sz)) (ram s) m' \<Longrightarrow> hdr 0 m' a n u nx pv"
    and e: "unat (a + 16 + sz) + 16 \<le> 2 ^ 32" and r: "32 \<le> n - sz"
  shows "\<exists>t. split_block a sz s = Inr (s\<lparr>ram := split_ram a sz n nx (ram s),
    free_list := (if free_list s = a then a + 16 + sz else free_list s),
    heap_blocks := heap_blocks s + 1, trace := t\<rparr>)"
proof -
  define b where "b = a + 16 + sz"
  have w: "agree (hrange 0 b) m (wr32 b v m)" "agree (hrange 0 b) m (m(b + 4 := x))"
      "agree (hrange 0 b) m (wr32 (b + 8) v m)" "agree (hrange 0 b) m (wr32 (b + 12) v m)" for m v x
    using agree_write [of b 0 "hrange 0 b"] e by (simp_all add: hlen_def b_def)
  define m1 where "m1 = (wr32 b (n - sz - 16) (ram s))(b + 4 := 0)"
  define m2 where "m2 = wr32 (b + 12) a (wr32 (b + 8) nx m1)"
  have 1: "agree (hrange 0 b) (ram s) m1" unfolding m1_def by (rule agree_trans [OF w(1,2)])
  have 2: "agree (hrange 0 b) (ram s) m2" unfolding m2_def by (rule agree_trans [OF agree_trans [OF 1 w(3)] w(4)])
  have f: "rd32 (ram s) a = n" "rd32 m1 (a + 8) = nx" "rd32 m2 (a + 8) = nx"
    using h [OF agree_refl] h [folded b_def, OF 1] h [folded b_def, OF 2] unfolding hdr_0 by blast+
  have sr: "split_ram a sz n nx (ram s) = wr32 a sz (wr32 (a + 8) b (if nx = 0 then m2 else wr32 (nx + 12) b m2))"
    by (simp add: split_ram_def b_def m1_def m2_def set_0 Let_def)
  have c: "block_hdr + 16 \<le> n - sz" using r by (simp add: block_hdr_def)
  have 3: "split_block a sz s =
     bindE (if nx \<noteq> 0 then st32 (nx + 12) b (s\<lparr>ram := m2\<rparr>) else Inr (s\<lparr>ram := m2\<rparr>)) (\<lambda>s.
       bindE (st32 (a + 8) b s) (\<lambda>s.
       bindE (st32 a sz s) (\<lambda>s.
       let s = (if free_list s = a then s\<lparr>free_list := b\<rparr> else s);
           s = s\<lparr>heap_blocks := heap_blocks s + 1\<rparr>
       in bindE (ld32 b s) (\<lambda>nsz.
       Inr (emit (Kprintf (''%s %s Split block: %d -> %d + %d'' @ crlf)
         [ArgS LOG_DEBUG, ArgS LOG_HEAP, ArgW (sz + (n - sz)), ArgW sz, ArgW nsz]) s)))))"
    unfolding split_block_def using np c
    by (simp only: run_simps ram_run [OF np] f bindE_simps Let_def b_def [symmetric] block_hdr_def
      m1_def [symmetric] m2_def [symmetric] if_True simp_thms not_False_eq_True)
  define m3 where "m3 = wr32 a sz (wr32 (a + 8) b (if nx = 0 then m2 else wr32 (nx + 12) b m2))"
  define u where "u = s\<lparr>ram := m3, free_list := (if free_list s = a then b else free_list s),
      heap_blocks := heap_blocks s + 1\<rparr>"
  have 4: "(if nx \<noteq> 0 then st32 (nx + 12) b (s\<lparr>ram := m2\<rparr>) else Inr (s\<lparr>ram := m2\<rparr>)) =
      Inr (s\<lparr>ram := if nx = 0 then m2 else wr32 (nx + 12) b m2\<rparr>)"
    using np by (simp add: ram_run)
  have 5: "(if free_list (s\<lparr>ram := m3\<rparr>) = a then s\<lparr>ram := m3\<rparr>\<lparr>free_list := b\<rparr> else s\<lparr>ram := m3\<rparr>)
      \<lparr>heap_blocks := heap_blocks (if free_list (s\<lparr>ram := m3\<rparr>) = a then s\<lparr>ram := m3\<rparr>\<lparr>free_list := b\<rparr>
        else s\<lparr>ram := m3\<rparr>) + 1\<rparr> = u"
    unfolding u_def by (cases s) simp
  have "\<exists>e. split_block a sz s = Inr (emit e u)"
    unfolding 3 unfolding 4 unfolding bindE_simps ram_run [OF np] m3_def [symmetric] Let_def
    unfolding 5 using np by (simp add: run_simps u_def) blast
  then show ?thesis unfolding sr b_def [symmetric] m3_def [symmetric] u_def emit_def by auto
qed

text \<open>The fields no list operation touches.\<close>

definition same_rest :: "'a heap_scheme \<Rightarrow> 'a heap_scheme \<Rightarrow> bool" where
  "same_rest s s' \<longleftrightarrow> cr0 s' = cr0 s \<and> cr3 s' = cr3 s \<and> heap_start s' = heap_start s \<and>
     heap_total s' = heap_total s \<and> total_mapped s' = total_mapped s \<and> bitmap s' = bitmap s \<and>
     total_pages s' = total_pages s \<and> used_pages s' = used_pages s \<and> last_alloc_index s' = last_alloc_index s"

text \<open>The new header that \<open>split_block\<close> writes.\<close>

lemma split_header:
  fixes a b r nx :: u32 and m :: memory
  assumes "unat b + 16 \<le> 2 ^ 32"
  defines "m1 \<equiv> wr32 (b + 12) a (wr32 (b + 8) nx ((wr32 b r m)(b + 4 := 0)))"
  shows "agree (hrange 0 b) m m1" "hdr 0 m1 b r 0 nx a"
proof -
  have w: "agree (hrange 0 b) m (wr32 b v m)" "agree (hrange 0 b) m (m(b + 4 := x))"
      "agree (hrange 0 b) m (wr32 (b + 8) v m)" "agree (hrange 0 b) m (wr32 (b + 12) v m)" for m v x
    using agree_write [of b 0 "hrange 0 b"] assms(1) by (simp_all add: hlen_def)
  show "agree (hrange 0 b) m m1"
    unfolding m1_def by (intro agree_trans [OF agree_trans [OF agree_trans [OF w(1) w(2)] w(3)] w(4)])
  show "hdr 0 m1 b r 0 nx a"
    unfolding hdr_0 m1_def by (simp only: mem_simps sep4_fields wr32_field rd32_upd_field fun_upd_same simp_thms)
qed

text \<open>The list and the block after taking \<open>sz\<close> bytes from a block of size \<open>n\<close>.\<close>

definition after_take :: "u32 \<Rightarrow> u32 \<Rightarrow> u32 \<Rightarrow> blocks" where
  "after_take a n sz = (case heap_rest sz n of None \<Rightarrow> [] | Some r \<Rightarrow> [(a + 16 + sz, r)])"

definition taken_size :: "u32 \<Rightarrow> u32 \<Rightarrow> u32" where
  "taken_size n sz = (case heap_rest sz n of None \<Rightarrow> n | Some r \<Rightarrow> sz)"

text \<open>Unlinking a block between two segments of the list; \<open>p\<close> is where the list starts.\<close>

lemma unlink_step:
  assumes np: "\<not> paging s" and x: "dll 0 (ram s) 0 p xs a l" and h: "hdr 0 (ram s) a n u nx l"
    and y: "dll 0 (ram s) a nx ys 0 t" and ok: "blocks_ok 0 (xs @ ys)" and p: "xs \<noteq> [] \<longrightarrow> free_list s = p"
    and ap: "extent 0 (a, n) \<inter> bytes 0 (xs @ ys) = {}" and e: "block_end 0 (a, n) \<le> 2 ^ 32"
  shows "\<exists>s'. unlink_block a s = Inr s' \<and> heap_rel s' (xs @ ys) \<and> hdr 0 (ram s') a n u nx l \<and>
    agree (heads 0 (xs @ ys)) (ram s) (ram s') \<and> heap_used s' = heap_used s \<and> same_rest s s'"
proof -
  note l = link_segments [OF x y ok]
  let ?m = "set_prev 0 nx l (set_next 0 l nx (ram s))"
  define s' where "s' = s\<lparr>ram := ?m, free_list := (if l = 0 then nx else free_list s)\<rparr>"
  have h2: "hdr 0 (set_next 0 l nx (ram s)) a n u nx l" and h3: "hdr 0 ?m a n u nx l"
    using hdr_keep [OF l(3) ap e] hdr_keep [OF l(2) ap e] h by simp_all
  have "unlink_block a s = Inr s'" using unlink_run [OF np h h2] by (simp add: s'_def)
  moreover have "l = 0 \<longleftrightarrow> xs = []"
    using dll_end_nil [OF x] ok by (simp add: blocks_ok_append)
  then have "heap_rel s' (xs @ ys)" using l(1) np ok p by (auto simp: heap_rel_def s'_def)
  ultimately show ?thesis using h3 l(2) by (intro exI [of _ s']) (simp add: s'_def same_rest_def)
qed

text \<open>Cutting a block that is large enough: the rest becomes a block of its own behind it.\<close>

lemma split_step:
  assumes np: "\<not> paging s" and x: "dll 0 (ram s) 0 (free_list s) xs a l" and h: "hdr 0 (ram s) a n 1 nx l"
    and y: "dll 0 (ram s) a nx ys 0 t" and ok: "blocks_ok 0 (xs @ (a, n) # ys)" and fit: "unat sz + 16 \<le> unat n"
    and big: "32 \<le> n - sz" and b: "b = a + 16 + sz" and r: "r = n - sz - 16"
  shows "\<exists>s' t'. split_block a sz s = Inr s' \<and> \<not> paging s' \<and> dll 0 (ram s') 0 (free_list s) xs a l \<and>
    hdr 0 (ram s') a sz 1 b l \<and> dll 0 (ram s') a b ((b, r) # ys) 0 t' \<and>
    (xs \<noteq> [] \<longrightarrow> free_list s' = free_list s) \<and> agree (bytes 0 (xs @ (a, n) # ys)) (ram s) (ram s') \<and>
    heap_used s' = heap_used s \<and> same_rest s s'"
proof -
  have oks: "blocks_ok 0 ys" "block_end 0 (a, n) \<le> 2 ^ 32" using ok by (auto simp: blocks_ok_append blocks_ok_Cons)
  have ap: "extent 0 (a, n) \<inter> bytes 0 (xs @ ys) = {}" by (rule extent_apart [OF ok])
  have ba: "unat a + 16 \<le> 2 ^ 32" using oks(2) by (simp add: block_end_def hlen_def)
  have k: "b = a + (16 + 0) + sz" "r = n - sz - (16 + 0)" by (simp_all add: b r)
  have fit': "unat sz + hlen 0 \<le> unat n" using fit by (simp add: hlen_def)
  note c = cut_ok [OF ok fit' k]
  have bb: "unat b + 16 \<le> 2 ^ 32" using c(6) oks(2) by (simp add: block_end_def hlen_def)
  have bh: "hrange 0 a \<inter> hrange 0 b = {}"
    using c(3) hrange_extent [of 0 "(a, sz)"] hrange_extent [of 0 "(b, r)"] by auto
  have rd: "hrange 0 a \<inter> heads 0 ys = {}" using ap hrange_extent [of 0 "(a, n)"] heads_bytes [of 0 ys] by auto
  define mh where "mh = wr32 (b + 12) a (wr32 (b + 8) nx ((wr32 b r (ram s))(b + 4 := 0)))"
  note mh = split_header [OF bb, where m = "ram s" and a = a and nx = nx and r = r, folded mh_def]
  define m3 where "m3 = wr32 a sz (wr32 (a + 8) b (set_prev 0 nx b mh))"
  have sr: "split_ram a sz n nx (ram s) = m3" by (simp add: split_ram_def m3_def mh_def b r Let_def)
  have wa: "agree (hrange 0 a) m' (wr32 (a + 8) v m')" "agree (hrange 0 a) m' (wr32 a v m')" for m' v
    using agree_write [of a 0 "hrange 0 a"] ba by (simp_all add: hlen_def)
  have a3: "agree (hrange 0 a) (set_prev 0 nx b mh) m3" unfolding m3_def by (rule agree_trans [OF wa])
  have ym2: "dll 0 mh a nx ys 0 t"
    using dll_keep [OF mh(1) _ oks(1)] y c(2) ap heads_bytes [of 0 ys] hrange_extent [of 0 "(b, r)"] by fastforce
  have "agree (hrange 0 b \<union> heads 0 ys) (ram s) (set_prev 0 nx b mh)"
    by (rule agree_trans [OF agree_mono [OF mh(1)] agree_mono [OF agree_prev [OF ym2 oks(1)]]]) auto
  then have h2: "hdr 0 (set_prev 0 nx b mh) a n 1 nx l"
  proof (rule hdr_agree [THEN iffD2])
    show "hrange 0 a \<inter> (hrange 0 b \<union> heads 0 ys) = {}" using bh rd by blast
  qed (use ba h in \<open>simp_all add: hlen_def\<close>)
  have h3: "hdr 0 m3 a sz 1 b l" using hdr_write(1) [OF hdr_write(3) [OF h2, of b], of sz] by (simp add: m3_def)
  note cs = cut_segments [OF x h y ok fit' k mh a3 h3]
  have fl: "free_list s = a \<longleftrightarrow> xs = []" by (rule dll_first_nil [OF x ok])
  have hk: "hdr 0 m' a n 1 nx l" if "agree (hrange 0 (a + 16 + sz)) (ram s) m'" for m'
    using hdr_agree [OF that bh [unfolded b]] ba h by (simp add: hlen_def)
  obtain tr where "split_block a sz s = Inr (s\<lparr>ram := split_ram a sz n nx (ram s),
      free_list := (if free_list s = a then a + 16 + sz else free_list s),
      heap_blocks := heap_blocks s + 1, trace := tr\<rparr>)" (is "_ = Inr ?s'")
    using split_run [OF np hk bb [unfolded b] big] by blast
  moreover have "\<not> paging ?s'" "ram ?s' = m3" "same_rest s ?s'" using np sr by (simp_all add: same_rest_def)
  ultimately show ?thesis using cs(1-3) h3 fl by (intro exI [of _ ?s']) auto
qed

lemma take_block_run:
  assumes rel: "heap_rel s (xs @ (a, n) # ys)" and fit: "sz \<le> n"
  shows "\<exists>s' nx pv. take_block a sz s = Inr (a + 16, s') \<and> heap_rel s' (xs @ after_take a n sz @ ys) \<and>
    hdr 0 (ram s') a (taken_size n sz) 1 nx pv \<and>
    agree (bytes 0 (xs @ (a, n) # ys)) (ram s) (ram s') \<and> heap_used s' = heap_used s + n \<and> same_rest s s'"
proof -
  obtain t l nx where np: "\<not> paging s" and ok: "blocks_ok 0 (xs @ (a, n) # ys)"
    and x: "dll 0 (ram s) 0 (free_list s) xs a l" and h: "hdr 0 (ram s) a n 0 nx l"
    and y: "dll 0 (ram s) a nx ys 0 t"
    using rel by (auto simp: heap_rel_def dll_append)
  have oks: "blocks_ok 0 xs" "blocks_ok 0 ys" "block_end 0 (a, n) \<le> 2 ^ 32" "blocks_ok 0 (xs @ ys)"
    using ok blocks_ok_remove [OF ok] by (auto simp: blocks_ok_append blocks_ok_Cons)
  have ap: "extent 0 (a, n) \<inter> bytes 0 (xs @ ys) = {}" by (rule extent_apart [OF ok])
  have ba: "unat a + 16 \<le> 2 ^ 32" using oks(3) by (simp add: block_end_def hlen_def)
  have ra: "hrange 0 a \<subseteq> extent 0 (a, n)" using hrange_extent [of 0 "(a, n)"] by simp
  have rd: "hrange 0 a \<inter> heads 0 xs = {}" "hrange 0 a \<inter> heads 0 ys = {}"
    using ap ra heads_bytes [of 0 xs] heads_bytes [of 0 ys] by auto
  define s1 where "s1 = s\<lparr>ram := (ram s)(a + 4 := 1), heap_used := heap_used s + n\<rparr>"
  have m: "agree (hrange 0 a) (ram s) (ram s1)"
    using agree_write(2) [of a 0 "hrange 0 a"] ba by (simp add: hlen_def s1_def)
  have s1: "\<not> paging s1" "free_list s1 = free_list s" "heap_used s1 = heap_used s + n" "same_rest s s1"
    using np by (simp_all add: s1_def same_rest_def)
  have hm: "hdr 0 (ram s1) a n 1 nx l" using hdr_write(2) [OF h, of 1] by (simp add: s1_def)
  have xm: "dll 0 (ram s1) 0 (free_list s1) xs a l" using dll_keep [OF m _ oks(1)] x rd unfolding s1(2) by blast
  have ym: "dll 0 (ram s1) a nx ys 0 t" using dll_keep [OF m _ oks(2)] y rd by blast
  have run: "take_block a sz s = bindE (split_block a sz s1) (\<lambda>s. bindE (unlink_block a s) (\<lambda>s.
     Inr (a + 16, emit (Kprintf (''%s %s Allocated %d bytes at %x'' @ crlf)
         [ArgS LOG_INFO, ArgS LOG_HEAP, ArgW sz, ArgW (a + 16)]) s)))"
    using np hm by (simp add: take_block_def run_simps hdr_0 s1_def block_hdr_def Let_def del: append_Cons)
  have am: "agree (bytes 0 (xs @ (a, n) # ys)) (ram s) (ram s1)" using m ra by (auto intro: agree_mono)
  show ?thesis
  proof (cases "32 \<le> n - sz")
    case False
    have sp: "split_block a sz s1 = Inr s1"
      using s1 hm False by (simp add: split_block_def run_simps hdr_0 block_hdr_def Let_def)
    obtain s2 where s2: "unlink_block a s1 = Inr s2" "heap_rel s2 (xs @ ys)" "hdr 0 (ram s2) a n 1 nx l"
        "agree (heads 0 (xs @ ys)) (ram s1) (ram s2)" "heap_used s2 = heap_used s1" "same_rest s1 s2"
      using unlink_step [OF s1(1) xm hm ym oks(4) _ ap oks(3)] by blast
    have "agree (bytes 0 (xs @ (a, n) # ys)) (ram s) (ram s2)"
      using heads_bytes [of 0 "xs @ ys"] by (intro agree_trans [OF am agree_mono [OF s2(4)]]) auto
    then show ?thesis
      using run sp s2 s1 False by (simp add: after_take_def taken_size_def heap_rest_def heap_rel_def same_rest_def) blast
  next
    case True
    define b r where "b = a + 16 + sz" and "r = n - sz - 16"
    have k: "b = a + (16 + 0) + sz" "r = n - sz - (16 + 0)" by (simp_all add: b_def r_def)
    have "unat (n - sz) = unat n - unat sz" by (rule unat_sub [OF fit])
    then have fit': "unat sz + 16 \<le> unat n" using True by (simp add: word_le_nat_alt)
    then have c: "blocks_ok 0 (xs @ (b, r) # ys)" "extent 0 (b, r) \<subseteq> extent 0 (a, n)"
      "extent 0 (a, sz) \<inter> bytes 0 (xs @ (b, r) # ys) = {}" "block_end 0 (a, sz) \<le> 2 ^ 32"
      using cut_ok [OF ok _ k] ap oks(3) by (auto simp: hlen_def block_end_def)
    obtain s3 t' where s3: "split_block a sz s1 = Inr s3" "\<not> paging s3" "dll 0 (ram s3) 0 (free_list s1) xs a l"
        "hdr 0 (ram s3) a sz 1 b l" "dll 0 (ram s3) a b ((b, r) # ys) 0 t'" "xs \<noteq> [] \<longrightarrow> free_list s3 = free_list s1"
        "agree (bytes 0 (xs @ (a, n) # ys)) (ram s1) (ram s3)" "heap_used s3 = heap_used s1" "same_rest s1 s3"
      using split_step [OF s1(1) xm hm ym ok fit' True b_def r_def] by blast
    obtain s4 where s4: "unlink_block a s3 = Inr s4" "heap_rel s4 (xs @ (b, r) # ys)" "hdr 0 (ram s4) a sz 1 b l"
        "agree (heads 0 (xs @ (b, r) # ys)) (ram s3) (ram s4)" "heap_used s4 = heap_used s3" "same_rest s3 s4"
      using unlink_step [OF s3(2-5) c(1) s3(6) c(3,4)] by blast
    have "heads 0 (xs @ (b, r) # ys) \<subseteq> bytes 0 (xs @ (a, n) # ys)"
      using heads_bytes [of 0 xs] heads_bytes [of 0 ys] hrange_extent [of 0 "(b, r)"] c(2) by auto
    then have "agree (bytes 0 (xs @ (a, n) # ys)) (ram s) (ram s4)"
      using agree_trans [OF agree_trans [OF am s3(7)] agree_mono [OF s4(4)]] by blast
    moreover have "heap_rest sz n = Some r" using True by (simp add: heap_rest_def r_def)
    ultimately show ?thesis
      using run s3(1,8,9) s4 s1 by (simp add: after_take_def taken_size_def heap_rel_def same_rest_def b_def [symmetric]) blast
  qed
qed

section \<open>Coalescing and release\<close>

definition first_addr :: "blocks \<Rightarrow> u32" where
  "first_addr bs = (case bs of [] \<Rightarrow> 0 | b # _ \<Rightarrow> fst b)"

lemma hlen_0 [simp]: "hlen 0 = 16"
  by (simp add: hlen_def)

text \<open>One step of the loop: the next block is adjacent and is absorbed, or it is not.\<close>

lemma coalesce_step:
  assumes rel: "heap_rel s (xs @ (a, n) # (b, j) # ys)"
  shows "b = a + 16 + n \<Longrightarrow> \<exists>s'. coalesce_from (Suc fuel) a s = coalesce_from fuel a s' \<and>
      heap_rel s' (xs @ (a, n + (16 + j)) # ys) \<and> agree (heads 0 ((a, n) # ys)) (ram s) (ram s') \<and>
      heap_used s' = heap_used s \<and> heap_blocks s' = heap_blocks s - 1 \<and> same_rest s s'"
    and "b \<noteq> a + 16 + n \<Longrightarrow> coalesce_from (Suc fuel) a s = coalesce_from fuel b s"
proof -
  obtain l where np: "\<not> paging s" and ok: "blocks_ok 0 (xs @ (a, n) # (b, j) # ys)"
    and d: "dll 0 (ram s) 0 (free_list s) (xs @ (a, n) # (b, j) # ys) 0 l"
    using rel by (auto simp: heap_rel_def)
  obtain l1 nx where h: "hdr 0 (ram s) a n 0 b l1" and hb: "hdr 0 (ram s) b j 0 nx a"
    using d unfolding dll_append by (auto dest: dll_first)
  have ne: "a \<noteq> 0" "b \<noteq> 0" using ok by (auto simp: blocks_ok_append blocks_ok_Cons)
  note f = h [unfolded hdr_0] hb [unfolded hdr_0]
  show "coalesce_from (Suc fuel) a s = coalesce_from fuel b s" if "b \<noteq> a + 16 + n"
    using np f ne that by (simp add: run_simps block_hdr_def Let_def)
  assume adj: "b = a + 16 + n"
  define m1 where "m1 = wr32 a (n + (16 + j)) (ram s)"
  define m2 where "m2 = wr32 (a + 8) nx m1"
  define m3 where "m3 = set_prev 0 nx a m2"
  have nx: "rd32 (ram s) (b + 8) = nx" using f by simp
  have "b = a + (16 + 0) + n" "hlen 0 < 2 ^ 32" using adj by simp_all
  note g = absorb_segments [OF d ok this] absorb_ok(1) [OF ok this]
  have ab: "\<exists>l'. dll 0 m3 0 (free_list s) (xs @ (a, n + (16 + j)) # ys) 0 l'"
    "agree (heads 0 ((a, n) # ys)) (ram s) m3" "rd32 m1 (b + 8) = nx" "rd32 m1 (a + 8) = b"
    "blocks_ok 0 (xs @ (a, n + (16 + j)) # ys)"
    using g nx by (simp_all add: m1_def m2_def m3_def)
  have "n + (16 + j) = n + (block_hdr + j)" by (simp add: block_hdr_def)
  then have run: "\<exists>e. coalesce_from (Suc fuel) a s =
      coalesce_from fuel a (emit e (s\<lparr>ram := m3, heap_blocks := heap_blocks s - 1\<rparr>))"
    using np f ne adj ab(3,4) unfolding m3_def m2_def set_0
    by (cases "nx = 0") (auto simp: run_simps block_hdr_def Let_def m1_def [symmetric] simp del: append_Cons)
  then obtain e where e: "coalesce_from (Suc fuel) a s =
      coalesce_from fuel a (emit e (s\<lparr>ram := m3, heap_blocks := heap_blocks s - 1\<rparr>))" by blast
  show "\<exists>s'. coalesce_from (Suc fuel) a s = coalesce_from fuel a s' \<and>
      heap_rel s' (xs @ (a, n + (16 + j)) # ys) \<and> agree (heads 0 ((a, n) # ys)) (ram s) (ram s') \<and>
      heap_used s' = heap_used s \<and> heap_blocks s' = heap_blocks s - 1 \<and> same_rest s s'"
    by (rule exI [of _ "emit e (s\<lparr>ram := m3, heap_blocks := heap_blocks s - 1\<rparr>)"])
      (use e ab np in \<open>simp add: heap_rel_def same_rest_def\<close>)
qed

lemma same_rest_trans: "same_rest s s' \<Longrightarrow> same_rest s' s'' \<Longrightarrow> same_rest s s''"
  by (simp add: same_rest_def)

lemma coalesce_run:
  "heap_rel s (xs @ ys) \<Longrightarrow> length ys < fuel \<Longrightarrow>
   \<exists>s'. coalesce_from fuel (first_addr ys) s = Inr s' \<and> heap_rel s' (xs @ merge_adjacent 0 ys) \<and>
     agree (heads 0 ys) (ram s) (ram s') \<and> heap_used s' = heap_used s \<and> same_rest s s' \<and>
     heap_blocks s' + of_nat (length ys) = heap_blocks s + of_nat (length (merge_adjacent 0 ys))"
proof (induction "0 :: u32" ys arbitrary: xs s fuel rule: merge_adjacent.induct [case_names Two None_left One_left])
  case (Two a n b j ys)
  then obtain f where f: "fuel = Suc f" "Suc (length ys) < f" by (cases fuel) auto
  show ?case
  proof (cases "b = a + 16 + n")
    case True
    obtain s1 where s1: "coalesce_from fuel a s = coalesce_from f a s1"
        "heap_rel s1 (xs @ (a, n + (16 + j)) # ys)" "agree (heads 0 ((a, n) # ys)) (ram s) (ram s1)"
        "heap_used s1 = heap_used s" "heap_blocks s1 = heap_blocks s - 1" "same_rest s s1"
      using coalesce_step(1) [OF Two(3) True, of f] f(1) by blast
    obtain s2 where s2: "coalesce_from f a s1 = Inr s2"
        "heap_rel s2 (xs @ merge_adjacent 0 ((a, n + (16 + j)) # ys))"
        "agree (heads 0 ((a, n + (16 + j)) # ys)) (ram s1) (ram s2)" "heap_used s2 = heap_used s1"
        "same_rest s1 s2" "heap_blocks s2 + of_nat (length ((a, n + (16 + j)) # ys)) =
          heap_blocks s1 + of_nat (length (merge_adjacent 0 ((a, n + (16 + j)) # ys)))"
      using Two(1) [of s1 xs f] True s1(2) f(2) by (auto simp: first_addr_def)
    have "agree (heads 0 ((a, n) # (b, j) # ys)) (ram s) (ram s2)"
      by (rule agree_trans [OF agree_mono [OF s1(3)] agree_mono [OF s2(3)]]) auto
    moreover have "merge_adjacent 0 ((a, n) # (b, j) # ys) = merge_adjacent 0 ((a, n + (16 + j)) # ys)"
      using True by simp
    moreover have "heap_blocks s2 + of_nat (length ((a, n) # (b, j) # ys)) =
        heap_blocks s2 + of_nat (length ((a, n + (16 + j)) # ys)) + 1" by simp
    then have "heap_blocks s2 + of_nat (length ((a, n) # (b, j) # ys)) =
        heap_blocks s + of_nat (length (merge_adjacent 0 ((a, n + (16 + j)) # ys)))"
      unfolding s2(6) by (simp add: s1(5))
    ultimately show ?thesis
      using s1(1,4) s2(1,2,4) same_rest_trans [OF s1(6) s2(5)] by (simp add: first_addr_def)
  next
    case False
    have s1: "coalesce_from fuel a s = coalesce_from f b s"
      using coalesce_step(2) [OF Two(3) False, of f] f(1) by simp
    have "heap_rel s ((xs @ [(a, n)]) @ (b, j) # ys)" using Two(3) by simp
    then obtain s2 where s2: "coalesce_from f b s = Inr s2"
        "heap_rel s2 ((xs @ [(a, n)]) @ merge_adjacent 0 ((b, j) # ys))"
        "agree (heads 0 ((b, j) # ys)) (ram s) (ram s2)" "heap_used s2 = heap_used s" "same_rest s s2"
        "heap_blocks s2 + of_nat (length ((b, j) # ys)) =
          heap_blocks s + of_nat (length (merge_adjacent 0 ((b, j) # ys)))"
      using Two(2) [of s "xs @ [(a, n)]" f] False f(2) by (auto simp: first_addr_def)
    have "agree (heads 0 ((a, n) # (b, j) # ys)) (ram s) (ram s2)"
      by (rule agree_mono [OF s2(3)]) auto
    moreover have "merge_adjacent 0 ((a, n) # (b, j) # ys) = (a, n) # merge_adjacent 0 ((b, j) # ys)"
      using False by simp
    ultimately show ?thesis
      using s1 s2 by (simp add: first_addr_def algebra_simps)
  qed
next
  case None_left
  then show ?case by (cases fuel) (auto simp: first_addr_def same_rest_def)
next
  case (One_left b)
  obtain a n where b: "b = (a, n)" by force
  have np: "\<not> paging s" and h: "\<exists>l. hdr 0 (ram s) a n 0 0 l"
    using One_left(1) by (auto simp: heap_rel_def dll_append b)
  then show ?case
    using One_left by (cases fuel) (auto simp: first_addr_def b run_simps hdr_0 same_rest_def)
qed

lemma find_place_run:
  "\<not> paging s \<Longrightarrow> dll 0 (ram s) pv p bs 0 l \<Longrightarrow> \<forall>b \<in> set bs. fst b \<noteq> 0 \<Longrightarrow> length bs < fuel \<Longrightarrow>
   \<exists>r t. find_place fuel pv p block s = Inr (t, r) \<and>
     dll 0 (ram s) pv p (takeWhile (\<lambda>c. fst c < block) bs) r t \<and>
     dll 0 (ram s) t r (dropWhile (\<lambda>c. fst c < block) bs) 0 l"
proof (induction bs arbitrary: pv p fuel)
  case Nil
  then show ?case by (cases fuel) auto
next
  case (Cons b bs)
  obtain a n f where b: "b = (a, n)" and f: "fuel = Suc f" "length bs < f"
    using Cons.prems(4) by (cases b; cases fuel) auto
  show ?case
  proof (cases "a < block")
    case True
    have "dll 0 (ram s) a (rd32 (ram s) (a + 8)) bs 0 l" "p = a" "a \<noteq> 0"
      using Cons.prems b by auto
    with Cons.IH [of a "rd32 (ram s) (a + 8)" f] Cons.prems f True b show ?thesis
      by (auto simp: run_simps)
  next
    case False
    then show ?thesis using Cons.prems f b by auto
  qed
qed

text \<open>Up to the call of \<open>coalesce_blocks\<close>: the block is in the free list, in its place.\<close>

lemma kfree_insert_run:
  assumes rel: "heap_rel s bs" and h: "hdr 0 (ram s) a n u nx pv" "u \<noteq> 0" and nz: "a + 16 \<noteq> 0"
    and ok: "blocks_ok 0 (insert_block (a, n) bs)" and fuel: "Suc (length bs) < fuel"
  shows "\<exists>s'. kfree fuel (a + 16) s = bindE (coalesce_blocks fuel s') (\<lambda>s.
      bindE (ld32 a s) (\<lambda>bsz. Inr (emit (Kprintf (''%s %s Freed %d bytes at %x'' @ crlf)
          [ArgS LOG_INFO, ArgS LOG_HEAP, ArgW bsz, ArgW (a + 16)]) s))) \<and>
    heap_rel s' (insert_block (a, n) bs) \<and> agree (heads 0 (insert_block (a, n) bs)) (ram s) (ram s') \<and>
    heap_used s' = heap_used s - n \<and> same_rest s s'"
proof -
  let ?P = "\<lambda>c. fst c < a"
  define xs ys where "xs = takeWhile ?P bs" and "ys = dropWhile ?P bs"
  have ib: "insert_block (a, n) bs = xs @ (a, n) # ys" by (simp add: insert_block_split xs_def ys_def)
  note ok = ok [unfolded ib]
  obtain l where np: "\<not> paging s" and d: "dll 0 (ram s) 0 (free_list s) bs 0 l" and okb: "blocks_ok 0 bs"
    using rel by (auto simp: heap_rel_def)
  have be: "block_end 0 (a, n) \<le> 2 ^ 32" and ne: "a \<noteq> 0"
    using ok by (auto simp: blocks_ok_append blocks_ok_Cons)
  then have ba: "unat a + 16 \<le> 2 ^ 32" by (simp add: block_end_def)
  let ?m1 = "(ram s)(a + 4 := 0)"
  have w: "agree (hrange 0 a) m (m(a + 4 := x))" "agree (hrange 0 a) m (wr32 (a + 8) v m)"
      "agree (hrange 0 a) m (wr32 (a + 12) v m)" for m v x
    using agree_write [of a 0 "hrange 0 a"] ba by simp_all
  have ap: "hrange 0 a \<inter> heads 0 bs = {}"
  proof -
    have "heads 0 bs = heads 0 (xs @ ys)" by (simp add: xs_def ys_def flip: heads_simps(3))
    then show ?thesis
      using extent_apart [OF ok] hrange_extent [of 0 "(a, n)"] heads_bytes [of 0 "xs @ ys"] by auto
  qed
  have d1: "dll 0 ?m1 0 (free_list s) bs 0 l" using dll_keep [OF w(1) _ okb] d ap by blast
  define s1 where "s1 = s\<lparr>ram := ?m1, heap_used := heap_used s - n\<rparr>"
  have s1: "\<not> paging s1" "ram s1 = ?m1" "free_list s1 = free_list s" "heap_used s1 = heap_used s - n"
      "same_rest s s1"
    using np by (simp_all add: s1_def same_rest_def)
  have "\<forall>b \<in> set bs. fst b \<noteq> 0" using okb by (simp add: blocks_ok_def)
  then obtain r t where fp: "find_place fuel 0 (free_list s) a s1 = Inr (t, r)"
      and x: "dll 0 ?m1 0 (free_list s) xs r t" and y: "dll 0 ?m1 t r ys 0 l"
    using find_place_run [of s1 0 "free_list s" bs l fuel a] s1 d1 fuel by (auto simp: xs_def ys_def)
  have h1: "hdr 0 ?m1 a n 0 nx pv" using hdr_write(2) [OF h(1), of 0] by simp
  define m3 where "m3 = wr32 (a + 8) r (wr32 (a + 12) t ?m1)"
  have h3: "hdr 0 m3 a n 0 r t"
    using hdr_write(3) [OF hdr_write(4) [OF h1, of t], of r] by (simp add: m3_def)
  have a3: "agree (hrange 0 a) ?m1 m3" unfolding m3_def by (rule agree_trans [OF w(3) w(2)])
  note ins = insert_segments [OF x y ok a3 h3]
  let ?m5 = "set_prev 0 r a (set_next 0 t a m3)"
  define s5 where "s5 = s1\<lparr>free_list := (if xs = [] then a else free_list s), ram := ?m5\<rparr>"
  have "t = 0 \<longleftrightarrow> xs = []"
    by (rule dll_end_nil [OF x]) (use ok in \<open>simp add: blocks_ok_append\<close>)
  then have run: "kfree fuel (a + 16) s = bindE (coalesce_blocks fuel s5) (\<lambda>s.
      bindE (ld32 a s) (\<lambda>bsz. Inr (emit (Kprintf (''%s %s Freed %d bytes at %x'' @ crlf)
          [ArgS LOG_INFO, ArgS LOG_HEAP, ArgW bsz, ArgW (a + 16)]) s)))"
    using np h h1 nz fp unfolding kfree_def s5_def set_0
    by (cases "t = 0"; cases "r = 0";
        simp add: run_simps hdr_0 block_hdr_def Let_def m3_def s1_def del: append_Cons; cases s;
        simp del: append_Cons)
  moreover have "heap_rel s5 (xs @ (a, n) # ys)"
    using ins(1) s1(1) ok by (simp add: heap_rel_def s5_def)
  moreover have "agree (heads 0 (xs @ (a, n) # ys)) (ram s) ?m5"
    by (rule agree_trans [OF agree_mono [OF w(1)] agree_mono [OF ins(2)]]) auto
  moreover have "same_rest s s5" "heap_used s5 = heap_used s - n"
    using s1(4,5) by (simp_all add: s5_def same_rest_def)
  ultimately show ?thesis unfolding ib by (intro exI [of _ s5]) (simp add: s5_def)
qed

lemma kfree_run:
  assumes rel: "heap_rel s bs" and h: "hdr 0 (ram s) a n u nx pv" "u \<noteq> 0" and nz: "a + 16 \<noteq> 0"
    and ok: "blocks_ok 0 (insert_block (a, n) bs)" and fuel: "Suc (length bs) < fuel"
  shows "\<exists>s'. kfree fuel (a + 16) s = Inr s' \<and> heap_rel s' (merge_adjacent 0 (insert_block (a, n) bs)) \<and>
    agree (bytes 0 (insert_block (a, n) bs)) (ram s) (ram s') \<and> heap_used s' = heap_used s - n \<and>
    same_rest s s'"
proof -
  let ?bs = "insert_block (a, n) bs"
  obtain s5 where run: "kfree fuel (a + 16) s = bindE (coalesce_blocks fuel s5) (\<lambda>s.
      bindE (ld32 a s) (\<lambda>bsz. Inr (emit (Kprintf (''%s %s Freed %d bytes at %x'' @ crlf)
          [ArgS LOG_INFO, ArgS LOG_HEAP, ArgW bsz, ArgW (a + 16)]) s)))"
    and s5: "heap_rel s5 ?bs" "agree (heads 0 ?bs) (ram s) (ram s5)" "heap_used s5 = heap_used s - n" "same_rest s s5"
    using kfree_insert_run [OF assms] by blast
  have fl: "free_list s5 = first_addr ([] @ ?bs)"
    using s5(1) by (auto simp: heap_rel_def first_addr_def dest!: dll_first split: list.splits)
  have "length ?bs = Suc (length bs)" by (simp add: insert_block_facts)
  then obtain s6 where s6: "coalesce_from fuel (free_list s5) s5 = Inr s6" "heap_rel s6 (merge_adjacent 0 ?bs)"
      "agree (heads 0 ?bs) (ram s5) (ram s6)" "heap_used s6 = heap_used s5" "same_rest s5 s6"
    using coalesce_run [of s5 "[]" ?bs fuel] s5(1) fuel unfolding fl by auto
  have "\<not> paging s6" using s6(2) by (simp add: heap_rel_def)
  then obtain e where "kfree fuel (a + 16) s = Inr (emit e s6)"
    using run s6(1) by (simp add: coalesce_blocks_def run_simps del: append_Cons)
  moreover have "agree (bytes 0 ?bs) (ram s) (ram s6)"
    by (rule agree_mono [OF agree_trans [OF s5(2) s6(3)] heads_bytes])
  moreover have "same_rest s s6" using s5(4) s6(5) by (rule same_rest_trans)
  ultimately show ?thesis using s5(3) s6(2,4) by (simp add: heap_rel_def same_rest_def)
qed

section \<open>Allocation\<close>

lemma heap_rel_emit [simp]: "heap_rel (emit e s) bs = heap_rel s bs"
  by (simp add: heap_rel_def)

lemma take_names:
  "after_take a n sz = after_cut 0 (heap_rest sz) sz a n" "taken_size n sz = cut_size (heap_rest sz) sz n"
  by (simp_all add: after_take_def taken_size_def after_cut_def cut_size_def split: option.splits)

lemma heap_rest_sound: "sz \<le> n \<Longrightarrow> heap_rest sz n = Some r \<Longrightarrow>
  unat sz + 16 \<le> unat n \<and> r = n - sz - 16"
proof -
  assume a: "sz \<le> n" "heap_rest sz n = Some r"
  then have "32 \<le> n - sz" "r = n - sz - 16" by (auto simp: heap_rest_def split: if_splits)
  moreover have "unat (n - sz) = unat n - unat sz" by (rule unat_sub [OF a(1)])
  ultimately show ?thesis by (simp add: word_le_nat_alt)
qed

lemma kmalloc_run:
  assumes rel: "heap_rel s bs" and req: "req \<noteq> 0" and fuel: "length bs < fuel"
    and fit: "take_fit 0 (heap_rest (round8 req)) (round8 req) bs = Some ((a, m), bs')"
  shows "\<exists>s' nx pv n. kmalloc (Suc fuel) req s = Inr (a + 16, s') \<and> heap_rel s' bs' \<and>
    hdr 0 (ram s') a m 1 nx pv \<and> agree (bytes 0 bs) (ram s) (ram s') \<and> (a, n) \<in> set bs \<and>
    heap_used s' = heap_used s + n \<and> same_rest s s'"
proof -
  let ?sz = "round8 req"
  obtain xs n ys where s: "bs = xs @ (a, n) # ys" "?sz \<le> n" "find (\<lambda>b. ?sz \<le> snd b) bs = Some (a, n)"
      "m = cut_size (heap_rest ?sz) ?sz n" "bs' = xs @ after_cut 0 (heap_rest ?sz) ?sz a n @ ys"
    using take_fit_split [OF fit] by (metis prod.inject)
  define e where "e = Kprintf (''%s %s Request: %d bytes'' @ crlf) [ArgS LOG_DEBUG, ArgS LOG_HEAP, ArgW ?sz]"
  let ?s = "emit e s"
  have rel1: "heap_rel ?s (xs @ (a, n) # ys)" using rel s(1) by simp
  have np: "\<not> paging ?s" and ok: "\<forall>b \<in> set bs. fst b \<noteq> 0" and d: "\<exists>l. dll 0 (ram ?s) 0 (free_list ?s) bs 0 l"
    using rel by (auto simp: heap_rel_def blocks_ok_def)
  have ff: "find_fit fuel (free_list ?s) ?sz ?s = Inr (Some a)"
    using d find_fit_run [OF np _ ok fuel, of 0 "free_list ?s" _ ?sz] s(3) by auto
  have "kmalloc (Suc fuel) req s = take_block a ?sz ?s"
    using req ff by (simp add: Let_def e_def [symmetric] del: append_Cons emit_heap)
  moreover obtain s' nx pv where "take_block a ?sz ?s = Inr (a + 16, s')" "heap_rel s' bs'"
      "hdr 0 (ram s') a m 1 nx pv" "agree (bytes 0 bs) (ram ?s) (ram s')" "heap_used s' = heap_used ?s + n"
      "same_rest ?s s'"
    using take_block_run [OF rel1 s(2)] s(1,4,5) by (auto simp: take_names)
  ultimately show ?thesis using s(1) by (auto simp: same_rest_def)
qed

text \<open>A block in use: its header says so, and lies in the address space.\<close>

definition heap_held :: "'a heap_scheme \<Rightarrow> u32 \<times> u32 \<Rightarrow> bool" where
  "heap_held s b \<longleftrightarrow> block_end 0 b \<le> 2 ^ 32 \<and> (\<exists>nx pv. hdr 0 (ram s) (fst b) (snd b) 1 nx pv)"

lemma held_agree:
  assumes "heap_held s c" "agree S (ram s) (ram s')" "extent 0 c \<inter> S = {}"
  shows "heap_held s' c"
proof -
  have "unat (fst c) + hlen 0 \<le> 2 ^ 32" using assms(1) by (simp add: heap_held_def block_end_def)
  moreover have "hrange 0 (fst c) \<inter> S = {}" using assms(3) hrange_extent [of 0 c] by auto
  ultimately show ?thesis using assms(1) hdr_agree [OF assms(2)] by (auto simp: heap_held_def)
qed

interpretation heap_blocks: block_heap 0 heap_rel heap_held round8 heap_rest "\<lambda>sz bs. True" kmalloc kfree
proof unfold_locales
  fix s :: "'a heap_scheme" and bs bs' :: blocks and req a m :: u32 and fuel :: nat
  assume rel: "heap_rel s bs" and fuel: "Suc (length bs) < fuel"
  obtain f where f: "fuel = Suc f" "length bs < f" using fuel by (cases fuel) auto
  show "\<exists>s'. kmalloc fuel req s = Inr (a + (16 + 0), s') \<and> heap_rel s' bs' \<and> heap_held s' (a, m) \<and>
        (\<forall>c. heap_held s c \<and> extent 0 c \<inter> bytes 0 bs = {} \<longrightarrow> heap_held s' c)"
    if req: "req \<noteq> 0" and fit: "take_fit 0 (heap_rest (round8 req)) (round8 req) bs = Some ((a, m), bs')"
  proof -
    obtain s' nx pv where s': "kmalloc fuel req s = Inr (a + 16, s')" "heap_rel s' bs'"
        "hdr 0 (ram s') a m 1 nx pv" "agree (bytes 0 bs) (ram s) (ram s')"
      using kmalloc_run [OF rel req f(2) fit] f(1) by blast
    have "sound_rest 0 (heap_rest (round8 req)) (round8 req)"
      using heap_rest_sound by (simp add: sound_rest_def)
    from take_fit_ok(4) [OF fit _ this] rel have "block_end 0 (a, m) \<le> 2 ^ 32" by (simp add: heap_rel_def)
    with s'(3) have "heap_held s' (a, m)" by (auto simp: heap_held_def)
    with s'(1,2) held_agree [OF _ s'(4)] show ?thesis by auto
  qed
  show "\<exists>s' bs'. kfree fuel (a + (16 + 0)) s = Inr s' \<and> heap_rel s' bs' \<and>
        bytes 0 bs' = bytes 0 bs \<union> extent 0 (a, m) \<and> length bs' \<le> Suc (length bs) \<and>
        (\<forall>c. heap_held s c \<and> extent 0 c \<inter> (bytes 0 bs \<union> extent 0 (a, m)) = {} \<longrightarrow> heap_held s' c)"
    if held: "heap_held s (a, m)" and ok: "blocks_ok 0 (insert_block (a, m) bs)" and nz: "a + (16 + 0) \<noteq> 0"
  proof -
    obtain nx pv where h: "hdr 0 (ram s) a m 1 nx pv" using held by (auto simp: heap_held_def)
    have nz': "a + 16 \<noteq> 0" using nz by simp
    obtain s' where s': "kfree fuel (a + 16) s = Inr s'" "heap_rel s' (merge_adjacent 0 (insert_block (a, m) bs))"
        "agree (bytes 0 (insert_block (a, m) bs)) (ram s) (ram s')"
      using kfree_run [OF rel h _ nz' ok fuel] by auto
    have ib: "bytes 0 (insert_block (a, m) bs) = bytes 0 bs \<union> extent 0 (a, m)"
      "length (insert_block (a, m) bs) = Suc (length bs)"
      by (induction bs) auto
    have "blocks_ok 0 ([] @ insert_block (a, m) bs)" using ok by simp
    from merge_ok [OF this] s' held_agree [OF _ s'(3)] ib show ?thesis
      by (intro exI [of _ s'] exI [of _ "merge_adjacent 0 (insert_block (a, m) bs)"]) auto
  qed
next
  show "heap_rel s bs \<Longrightarrow> blocks_ok 0 bs" for s :: "'a heap_scheme" and bs by (simp add: heap_rel_def)
  show "find (\<lambda>b. sz \<le> snd b) bs = Some b \<Longrightarrow> heap_rest sz (snd b) = Some r \<Longrightarrow>
      unat sz + hlen 0 \<le> unat (snd b) \<and> r = snd b - sz - (16 + 0)" for sz r bs and b :: "u32 \<times> u32"
    using heap_rest_sound by (auto simp: find_Some_iff)
qed

interpretation heap_merging: merging_heap 0 heap_rel heap_held round8 heap_rest "\<lambda>sz bs. True" kmalloc kfree
proof
  fix s :: "'a heap_scheme" and bs :: blocks and a m :: u32 and fuel :: nat
  assume rel: "heap_rel s bs" and held: "heap_held s (a, m)" and ok: "blocks_ok 0 (insert_block (a, m) bs)"
    and fuel: "Suc (length bs) < fuel" and nz: "a + (16 + 0) \<noteq> 0"
  obtain nx pv where h: "hdr 0 (ram s) a m 1 nx pv" using held by (auto simp: heap_held_def)
  show "\<exists>s'. kfree fuel (a + (16 + 0)) s = Inr s' \<and> heap_rel s' (merge_adjacent 0 (insert_block (a, m) bs))"
    using kfree_run [OF rel h _ _ ok fuel] nz by auto
qed

section \<open>Running out of memory\<close>

lemma round8_idem: "round8 (round8 x) = round8 x"
proof -
  define y where "y = round8 x"
  have m: "(7 :: u32) = mask 3" by (simp add: mask_eq_exp_minus_1)
  have "y AND 7 = 0" unfolding y_def round8_def m by (rule bit_word_eqI) (auto simp: bit_simps)
  then have "y + 7 = y OR 7" by (rule disjunctive_add_eq_or)
  moreover have "(y OR 7) AND NOT 7 = y AND NOT 7" unfolding m by (rule bit_word_eqI) (auto simp: bit_simps)
  moreover have "y AND NOT 7 = y" unfolding y_def round8_def m by (rule bit_word_eqI) (auto simp: bit_simps)
  ultimately have "round8 y = y" unfolding round8_def by metis
  then show ?thesis by (simp only: y_def)
qed

lemma find_fit_cases:
  "\<not> paging s \<Longrightarrow> dll 0 (ram s) pv p bs 0 l \<Longrightarrow> \<forall>b \<in> set bs. fst b \<noteq> 0 \<Longrightarrow>
   find_fit fuel p sz s = Inl No_Return \<or>
   find_fit fuel p sz s = Inr (map_option fst (find (\<lambda>b. sz \<le> snd b) bs))"
proof (induction bs arbitrary: pv p fuel)
  case Nil
  then show ?case by (cases fuel) auto
next
  case (Cons b bs)
  then show ?case by (cases fuel; cases b) (auto simp: run_simps hdr_0)
qed

lemma expand_no_frame:
  assumes "pmm_inv s" "frame_owned s = frame_pool s"
  shows "\<exists>e. heap_expand fuel pages s = Inr (emit e s) \<or> (\<exists>e'. heap_expand fuel pages s = Inr (emit e' (emit e s)))"
proof (cases "unat pages")
  case 0
  then show ?thesis by (auto simp: heap_expand_def)
next
  case (Suc n)
  from assms(1) obtain e where "alloc_page s = Inr (0, emit e s)"
    using assms(2) all_used_iff [OF assms(1)] by (cases rule: alloc_page_inv_cases) auto
  then show ?thesis using Suc by (auto simp: heap_expand_def heap_add_page_def)
qed

lemma kmalloc_no_frame:
  "pmm_inv s \<Longrightarrow> frame_owned s = frame_pool s \<Longrightarrow> heap_rel s bs \<Longrightarrow> round8 req \<noteq> 0 \<Longrightarrow> req \<noteq> 0 \<Longrightarrow>
   find (\<lambda>b. round8 req \<le> snd b) bs = None \<Longrightarrow> kmalloc fuel req s = Inl No_Return"
proof (induction fuel arbitrary: req s)
  case (Suc fuel)
  let ?sz = "round8 req"
  define e where "e = Kprintf (''%s %s Request: %d bytes'' @ crlf) [ArgS LOG_DEBUG, ArgS LOG_HEAP, ArgW ?sz]"
  let ?s = "emit e s"
  have np: "\<not> paging ?s" and ok: "\<forall>b \<in> set bs. fst b \<noteq> 0" and d: "\<exists>l. dll 0 (ram ?s) 0 (free_list ?s) bs 0 l"
    using Suc.prems(3) by (auto simp: heap_rel_def blocks_ok_def)
  have ff: "find_fit fuel (free_list ?s) ?sz ?s = Inl No_Return \<or> find_fit fuel (free_list ?s) ?sz ?s = Inr None"
    using d find_fit_cases [OF np _ ok, of 0 "free_list ?s" _ fuel ?sz] Suc.prems(6) by auto
  have pages: "\<exists>pages e'. kmalloc (Suc fuel) req s = bindE (find_fit fuel (free_list ?s) ?sz ?s) (\<lambda>r. case r of
      Some current \<Rightarrow> take_block current ?sz ?s
    | None \<Rightarrow> bindE (heap_expand fuel pages (emit e' ?s)) (\<lambda>s. kmalloc fuel ?sz s))"
    using Suc.prems(5) unfolding kmalloc.simps Let_def e_def [symmetric] by auto
  then obtain pages e' where run: "kmalloc (Suc fuel) req s = bindE (find_fit fuel (free_list ?s) ?sz ?s) (\<lambda>r. case r of
      Some current \<Rightarrow> take_block current ?sz ?s
    | None \<Rightarrow> bindE (heap_expand fuel pages (emit e' ?s)) (\<lambda>s. kmalloc fuel ?sz s))" by blast
  have IH: "kmalloc fuel ?sz s' = Inl No_Return" if "pmm_inv s'" "frame_owned s' = frame_pool s'" "heap_rel s' bs"
    for s' :: "'a heap_scheme"
    by (rule Suc.IH [OF that]) (use Suc.prems(4,6) in \<open>simp_all add: round8_idem\<close>)
  have "pmm_inv (emit e' ?s)" "frame_owned (emit e' ?s) = frame_pool (emit e' ?s)"
    using Suc.prems(1,2) by simp_all
  from expand_no_frame [OF this, of fuel pages]
  have "bindE (heap_expand fuel pages (emit e' ?s)) (\<lambda>s. kmalloc fuel ?sz s) = Inl No_Return"
    using IH Suc.prems(1-3) by auto
  with run ff show ?case by auto
qed simp

declare kmalloc.simps [simp del]

section \<open>Sample heap\<close>

text \<open>One free page at \<open>0x1000\<close>.\<close>

definition sample_heap :: heap where
  "sample_heap = \<lparr>ram = wr32 0x1000 4080 (\<lambda>_. 0), cr0 = 0, cr3 = 0, trace = [], bitmap = BITMAP_START,
     total_pages = 4096, used_pages = 4096, last_alloc_index = 4096, total_mapped = 0,
     heap_start = 0x1000, free_list = 0x1000, heap_total = 4096, heap_used = 0, heap_blocks = 1\<rparr>"

lemma sample_heap_rel: "heap_rel sample_heap [(0x1000, 4080)]"
proof -
  have "hdr 0 (\<lambda>_. 0) 0x1000 0 0 0 0" by (simp add: hdr_0 rd32_def)
  from hdr_write(1) [OF this, of 4080] have "hdr 0 (ram sample_heap) 0x1000 4080 0 0 0"
    by (simp add: sample_heap_def)
  moreover from this have "rd32 (ram sample_heap) (0x1000 + 8) = 0" by (simp add: hdr_0)
  ultimately show ?thesis
    by (auto simp: heap_rel_def sample_heap_def paging_def blocks_ok_Cons block_end_def)
qed

lemma sample_fit:
  "take_fit 0 (heap_rest (round8 250)) (round8 250) [(0x1000, 4080)] = Some ((0x1000, 256), [(0x1110, 3808)])"
  "take_fit 0 (heap_rest (round8 512)) (round8 512) [(0x1110, 3808)] = Some ((0x1110, 512), [(0x1320, 3280)])"
  by (simp_all add: round8_def heap_rest_def)

lemma rest_sound: "sound_rest 0 (heap_rest sz) sz"
  using heap_rest_sound by (simp add: sound_rest_def)

lemma round8_div: "unat (round8 req) = unat (req + 7) div 8 * 8"
proof -
  have m: "(7 :: u32) = mask 3" by (simp add: mask_eq_exp_minus_1)
  have "round8 req = push_bit 3 (drop_bit 3 (req + 7))"
    unfolding round8_def m by (rule bit_word_eqI) (auto simp: bit_simps)
  moreover have "unat (req + 7) div 8 * 8 < 2 ^ 32"
    using unsigned_less [of "req + 7"] by (intro le_less_trans [OF div_times_less_eq_dividend]) simp
  ultimately show ?thesis
    by (simp add: push_bit_eq_mult unat_word_ariths unat_drop_bit_eq drop_bit_eq_div mult.commute)
qed

lemma round8_ge: "req \<le> 0xFFFFFFF8 \<Longrightarrow> req \<le> round8 req"
proof -
  assume "req \<le> 0xFFFFFFF8"
  then have "unat (req + 7) = unat req + 7"
    by (subst unat_add_lem [THEN iffD1]) (auto simp: word_le_nat_alt)
  then show ?thesis unfolding word_le_nat_alt round8_div by simp
qed

lemma round8_wraps: "0xFFFFFFF8 < req \<Longrightarrow> round8 req = 0"
proof -
  assume r: "0xFFFFFFF8 < req"
  have lt: "unat req < 4294967296" using unsigned_less [of req] by simp
  have "unat (req + 7) = (unat req + 7) mod 4294967296" by (simp add: unat_word_ariths)
  also have "\<dots> = unat req + 7 - 4294967296"
    using r lt by (subst le_mod_geq) (auto simp: word_less_nat_alt)
  finally have "unat (req + 7) < 8" using lt by simp
  then have "unat (round8 req) = unat (0 :: u32)" unfolding round8_div by simp
  then show ?thesis by (rule unsigned_word_eqI)
qed

section \<open>Properties\<close>

text \<open>
  C3. \<open>kmalloc\<close> is first fit: on a heap whose free list represents \<open>bs\<close> it returns the payload of
  the first block that is large enough, cut to the rounded request when 32 bytes or more remain;
  the free list then represents the list without that block (or with its tail), the block's header
  says it is in use and holds at least the bytes asked for, and no byte outside the free blocks
  has changed.
\<close>

theorem kmalloc_first_fit:
  assumes "heap_rel s bs" "req \<noteq> 0" "req \<le> 0xFFFFFFF8" "length bs < fuel"
    and "take_fit 0 (heap_rest (round8 req)) (round8 req) bs = Some ((a, m), bs')"
  shows "\<exists>s'. kmalloc (Suc fuel) req s = Inr (a + 16, s') \<and> heap_rel s' bs' \<and> heap_held s' (a, m) \<and>
    req \<le> m \<and> extent 0 (a, m) \<inter> bytes 0 bs' = {} \<and> extent 0 (a, m) \<union> bytes 0 bs' = bytes 0 bs \<and>
    (\<forall>x. unat x \<notin> bytes 0 bs \<longrightarrow> ram s' x = ram s x)"
proof -
  have ok: "blocks_ok 0 bs" using assms(1) by (simp add: heap_rel_def)
  note f = take_fit_ok [OF assms(5) ok rest_sound]
  obtain s' nx pv where s': "kmalloc (Suc fuel) req s = Inr (a + 16, s')" "heap_rel s' bs'"
      "hdr 0 (ram s') a m 1 nx pv" "agree (bytes 0 bs) (ram s) (ram s')"
    using kmalloc_run [OF assms(1,2,4,5)] by blast
  have "heap_held s' (a, m)" using s'(3) f(4) by (auto simp: heap_held_def)
  moreover have "req \<le> m" using round8_ge [OF assms(3)] f(6) by (simp add: order.trans)
  ultimately show ?thesis using s' f(2,3) by (auto simp: agree_def)
qed

theorem kmalloc_first_fit_witness:
  "\<exists>s'. kmalloc (Suc 3) 250 sample_heap = Inr (0x1010, s') \<and> heap_rel s' [(0x1110, 3808)]"
proof -
  have "(250 :: u32) \<noteq> 0" "(250 :: u32) \<le> 0xFFFFFFF8" "length [(0x1000 :: u32, 4080 :: u32)] < 3"
    by simp_all
  from kmalloc_first_fit [OF sample_heap_rel this sample_fit(1)]
  show ?thesis by auto
qed

text \<open>
  C4. \<open>kfree\<close> inserts the block in address order and merges every run of adjacent free blocks:
  afterwards the free list represents the merged list, which covers exactly the bytes that were
  free and those of the block, and every other block in use is untouched.
\<close>

theorem kfree_merges:
  assumes "heap_rel s bs" "heap_held s (a, m)" "blocks_ok 0 (insert_block (a, m) bs)"
    and "a + 16 \<noteq> 0" "Suc (length bs) < fuel"
  shows "\<exists>s'. kfree fuel (a + 16) s = Inr s' \<and> heap_rel s' (merge_adjacent 0 (insert_block (a, m) bs)) \<and>
    bytes 0 (merge_adjacent 0 (insert_block (a, m) bs)) = bytes 0 bs \<union> extent 0 (a, m) \<and>
    heap_used s' = heap_used s - m \<and>
    (\<forall>c. heap_held s c \<and> extent 0 c \<inter> (bytes 0 bs \<union> extent 0 (a, m)) = {} \<longrightarrow> heap_held s' c)"
proof -
  obtain nx pv where h: "hdr 0 (ram s) a m 1 nx pv" using assms(2) by (auto simp: heap_held_def)
  obtain s' where s': "kfree fuel (a + 16) s = Inr s'" "heap_rel s' (merge_adjacent 0 (insert_block (a, m) bs))"
      "agree (bytes 0 (insert_block (a, m) bs)) (ram s) (ram s')" "heap_used s' = heap_used s - m"
    using kfree_run [OF assms(1) h _ assms(4,3,5)] by auto
  have ib: "bytes 0 (insert_block (a, m) bs) = bytes 0 bs \<union> extent 0 (a, m)" by (induction bs) auto
  have "blocks_ok 0 ([] @ insert_block (a, m) bs)" using assms(3) by simp
  from merge_ok [OF this] s' held_agree [OF _ s'(3)] show ?thesis by (auto simp: ib)
qed

text \<open>A sample heap with a block in use at \<open>0x3000\<close>, between two free ones.\<close>

definition sample_used :: heap where
  "sample_used = sample_heap\<lparr>ram := (wr32 0x3000 64 (ram sample_heap))(0x3004 := 1)\<rparr>"

lemma sample_used_ok: "heap_rel sample_used [(0x1000, 4080)]" "heap_held sample_used (0x3000, 64)"
proof -
  let ?m = "wr32 0x3000 64 (ram sample_heap)"
  have b: "unat (0x3000 :: u32) + hlen 0 \<le> 2 ^ 32" by simp
  have a: "agree (hrange 0 0x3000) (ram sample_heap) ?m" "agree (hrange 0 0x3000) ?m (?m(0x3004 := 1))"
    using agree_write(1,2) [OF b order_refl] by (simp_all add: add.commute)
  have a': "agree (hrange 0 0x3000) (ram sample_heap) (ram sample_used)"
    using agree_trans [OF a] by (simp add: sample_used_def)
  have ok: "blocks_ok 0 [(0x1000, 4080)]" using sample_heap_rel by (simp add: heap_rel_def)
  have "heads 0 [(0x1000, 4080)] \<inter> hrange 0 0x3000 = {}" by (auto simp: hrange_def)
  note k = dll_keep [OF a' this ok]
  have fl: "free_list sample_used = free_list sample_heap" by (simp add: sample_used_def)
  have "\<exists>l. dll 0 (ram sample_used) 0 (free_list sample_used) [(0x1000, 4080)] 0 l"
    using sample_heap_rel unfolding heap_rel_def fl k by (elim conjE)
  moreover have "\<not> paging sample_used" by (simp add: sample_used_def sample_heap_def paging_def)
  ultimately show "heap_rel sample_used [(0x1000, 4080)]" using ok by (simp only: heap_rel_def simp_thms)
  obtain n u nx pv where "hdr 0 (ram sample_heap) 0x3000 n u nx pv" by (simp add: hdr_0)
  from hdr_write(2) [OF hdr_write(1) [OF this, of 64], of 1]
  have "hdr 0 (ram sample_used) 0x3000 64 1 nx pv" by (simp add: sample_used_def)
  then show "heap_held sample_used (0x3000, 64)" by (auto simp: heap_held_def block_end_def)
qed

theorem kfree_merges_witness:
  "\<exists>s'. kfree 4 0x3010 sample_used = Inr s' \<and> heap_rel s' [(0x1000, 4080), (0x3000, 64)]"
proof -
  have "blocks_ok 0 (insert_block (0x3000, 64) [(0x1000, 4080)])"
    by (simp add: blocks_ok_Cons before_def block_end_def)
  moreover have "(0x3000 :: u32) + 16 \<noteq> 0" "Suc (length [(0x1000 :: u32, 4080 :: u32)]) < 4" by simp_all
  moreover have "merge_adjacent 0 (insert_block (0x3000, 64) [(0x1000, 4080)]) =
      [(0x1000, 4080), (0x3000, 64)]" "(0x3000 :: u32) + 16 = 0x3010" by simp_all
  ultimately show ?thesis using kfree_merges [OF sample_used_ok] by metis
qed

text \<open>
  Blocks never overlap: the blocks of two requests made one after the other are disjoint, header
  and payload, and both are still in use after the second call.
\<close>

lemma kmalloc_no_overlap:
  assumes "heap_rel s bs" "Suc (length bs) < fuel" "q \<noteq> 0" "r \<noteq> 0"
    and "take_fit 0 (heap_rest (round8 q)) (round8 q) bs = Some ((a, m), bs1)"
    and "take_fit 0 (heap_rest (round8 r)) (round8 r) bs1 = Some ((b, n), bs2)"
  shows "\<exists>s1 s2. kmalloc fuel q s = Inr (a + 16, s1) \<and> kmalloc fuel r s1 = Inr (b + 16, s2) \<and>
    heap_held s2 (a, m) \<and> heap_held s2 (b, n) \<and> extent 0 (a, m) \<inter> extent 0 (b, n) = {}"
  using heap_blocks.alloc_twice [OF assms(1-4) TrueI assms(5) TrueI assms(6)] by auto

text \<open>
  C16. Allocating and releasing restores the free memory and drifts the statistics: \<open>kfree\<close> of the
  block just returned leaves the merged list of before, but \<open>heap_used\<close> has grown by the size of
  the tail that was cut off, because \<open>kmalloc\<close> adds the size before the cut and \<open>kfree\<close> subtracts
  the size after it.
\<close>

theorem kmalloc_kfree_roundtrip:
  assumes "heap_rel s bs" "req \<noteq> 0" "Suc (length bs) < fuel" "a + 16 \<noteq> 0"
    and "take_fit 0 (heap_rest (round8 req)) (round8 req) bs = Some ((a, m), bs')"
  shows "\<exists>s1 s2 n. kmalloc fuel req s = Inr (a + 16, s1) \<and> kfree fuel (a + 16) s1 = Inr s2 \<and>
    heap_rel s2 (merge_adjacent 0 bs) \<and> (a, n) \<in> set bs \<and> heap_used s2 = heap_used s + (n - m)"
proof -
  obtain f where f: "fuel = Suc f" "length bs < f" using assms(3) by (cases fuel) auto
  obtain s1 nx pv n where s1: "kmalloc fuel req s = Inr (a + 16, s1)" "heap_rel s1 bs'"
      "hdr 0 (ram s1) a m 1 nx pv" "(a, n) \<in> set bs" "heap_used s1 = heap_used s + n"
    using kmalloc_run [OF assms(1,2) f(2) assms(5)] f(1) by blast
  have ok: "blocks_ok 0 bs" using assms(1) by (simp add: heap_rel_def)
  note t = take_fit_ok [OF assms(5) ok rest_sound]
  have "Suc (length bs') < fuel" using t(7) assms(3) by simp
  from kfree_run [OF s1(2,3) _ assms(4) t(8) this]
  obtain s2 where s2: "kfree fuel (a + 16) s1 = Inr s2"
      "heap_rel s2 (merge_adjacent 0 (insert_block (a, m) bs'))" "heap_used s2 = heap_used s1 - m"
    by auto
  have "heap_rel s2 (merge_adjacent 0 bs)"
    using s2(2) take_fit_merge [OF assms(5) ok rest_sound] by simp
  with s1 s2 show ?thesis by (intro exI [of _ s1] exI [of _ s2] exI [of _ n]) simp
qed

theorem kmalloc_kfree_roundtrip_witness:
  "\<exists>s1 s2. kmalloc 4 250 sample_heap = Inr (0x1010, s1) \<and> kfree 4 0x1010 s1 = Inr s2 \<and>
     heap_rel s2 [(0x1000, 4080)] \<and> heap_used s2 = 3824"
proof -
  have "(250 :: u32) \<noteq> 0" "Suc (length [(0x1000 :: u32, 4080 :: u32)]) < 4" "(0x1000 :: u32) + 16 \<noteq> 0"
    by simp_all
  from kmalloc_kfree_roundtrip [OF sample_heap_rel this sample_fit(1)]
  show ?thesis by (simp add: sample_heap_def)
qed

text \<open>
  C13. Out of memory is an endless loop: when no free block is large enough and no frame is left,
  \<open>kmalloc\<close> expands by nothing and calls itself again for ever; no amount of fuel makes it return,
  although its caller tests the result for 0.
\<close>

theorem kmalloc_never_returns_without_memory:
  assumes "pmm_inv s" "frame_owned s = frame_pool s" "heap_rel s bs" "round8 req \<noteq> 0" "req \<noteq> 0"
    and "take_fit 0 (heap_rest (round8 req)) (round8 req) bs = None"
  shows "kmalloc fuel req s = Inl No_Return"
  using kmalloc_no_frame [OF assms(1-5)] assms(6) by (simp add: take_fit_None)

theorem kmalloc_never_returns_without_memory_witness:
  "\<forall>fuel. kmalloc fuel 5000 sample_heap = Inl No_Return"
proof -
  have u: "used_set sample_heap = {}" by (auto simp: used_set_def sample_heap_def)
  have p: "pmm_inv sample_heap"
    unfolding pmm_inv_def u by (auto simp: sample_heap_def paging_def)
  have "frame_owned sample_heap = frame_pool sample_heap"
    unfolding all_used_iff [OF p] by (auto simp: sample_heap_def)
  moreover have "round8 5000 = 5000" by (simp add: round8_def)
  ultimately show ?thesis
    using kmalloc_never_returns_without_memory [OF p _ sample_heap_rel, of 5000] by simp
qed

text \<open>
  Requests near 4 GiB are granted: rounding wraps to 0 for the seven largest sizes, so \<open>kmalloc\<close>
  returns the first free block, cut down to an empty payload.
\<close>

lemma kmalloc_wraps:
  assumes "heap_rel s ((a, n) # bs)" "0xFFFFFFF8 < req" "32 \<le> n" "Suc (length bs) < fuel"
  shows "\<exists>s'. kmalloc (Suc fuel) req s = Inr (a + 16, s') \<and> heap_held s' (a, 0) \<and>
    heap_rel s' ((a + 16, n - 16) # bs)"
proof -
  have r: "round8 req = 0" by (rule round8_wraps [OF assms(2)])
  have ok: "blocks_ok 0 ((a, n) # bs)" using assms(1) by (simp add: heap_rel_def)
  have fit: "take_fit 0 (heap_rest (round8 req)) (round8 req) ((a, n) # bs) =
      Some ((a, 0), (a + 16, n - 16) # bs)"
    using assms(3) by (simp add: r heap_rest_def)
  have "req \<noteq> 0" using assms(2) by auto
  from kmalloc_run [OF assms(1) this _ fit, of fuel] assms(4)
    take_fit_ok(4) [OF fit ok rest_sound]
  show ?thesis by (auto simp: heap_held_def)
qed

text \<open>
  Releasing nothing and releasing twice are safe: \<open>kfree(0)\<close> does nothing, and for a block whose
  header is marked free only the message is printed.
\<close>

lemma kfree_rejects:
  assumes "\<not> paging s" "ptr = 0 \<or> ram s (ptr - 16 + 4) = 0"
  shows "\<exists>t. kfree fuel ptr s = Inr (s\<lparr>trace := trace s @ t\<rparr>)"
proof (cases "ptr = 0")
  case True
  then show ?thesis by (intro exI [of _ "[]"]) (simp add: kfree_def)
next
  case False
  then show ?thesis
    using assms by (auto simp: kfree_def run_simps block_hdr_def Let_def emit_def)
qed

end
