(* ===== verification/PIC.thy ===== *)
theory PIC
  imports Machine
begin

text \<open>
  The interrupt controllers: \<open>Kernel/src/Include/pic.c\<close> and the old kernel's \<open>old/Include/PIC.c\<close>.
  The functions write to the ports of two 8259A controllers; what a port read returns is the
  argument \<open>inp\<close>.  The effect of the writes is the documented behaviour of the 8259A, as a function
  over the writes in the trace: a command word with bit 4 set starts an initialisation and clears
  the mask, the next data words are the vector base, the cascade word and the mode word as bits 1
  and 0 of the command ask, and any later data word is the interrupt mask.
\<close>

section \<open>Operations\<close>

definition PIC1_COMMAND :: u16 where "PIC1_COMMAND = 0x20"
definition PIC1_DATA :: u16 where "PIC1_DATA = 0x21"
definition PIC2_COMMAND :: u16 where "PIC2_COMMAND = 0xA0"
definition PIC2_DATA :: u16 where "PIC2_DATA = 0xA1"
definition ICW1_INIT :: u8 where "ICW1_INIT = 0x10"
definition ICW1_ICW4 :: u8 where "ICW1_ICW4 = 0x01"
definition ICW4_8086 :: u8 where "ICW4_8086 = 0x01"

lemmas pic_ports = PIC1_COMMAND_def PIC1_DATA_def PIC2_COMMAND_def PIC2_DATA_def
  ICW1_INIT_def ICW1_ICW4_def ICW4_8086_def

definition outb :: "u16 \<Rightarrow> u8 \<Rightarrow> 'a cpu_scheme \<Rightarrow> 'a cpu_scheme" where
  "outb port val s = emit (Outb port val) s"

definition remap_pic :: "(u16 \<Rightarrow> u8) \<Rightarrow> 'a cpu_scheme \<Rightarrow> 'a cpu_scheme" where
  "remap_pic inp s =
     (let mask1 = inp PIC1_DATA;
          mask2 = inp PIC2_DATA;
          s = outb PIC1_COMMAND (ICW1_INIT OR ICW1_ICW4) s;
          s = outb PIC2_COMMAND (ICW1_INIT OR ICW1_ICW4) s;
          s = outb PIC1_DATA 32 s;
          s = outb PIC2_DATA 40 s;
          s = outb PIC1_DATA 0x04 s;
          s = outb PIC2_DATA 0x02 s;
          s = outb PIC1_DATA ICW4_8086 s;
          s = outb PIC2_DATA ICW4_8086 s;
          s = outb PIC1_DATA mask1 s;
          s = outb PIC2_COMMAND mask2 s;
          s = outb 0x21 0xFE s;
          s = outb 0xA1 0xFF s
      in emit (Serial_Line COM1_PORT ''[INFO] PIC remapped (IRQ0->32)'') s)"

definition pic_init :: "'a cpu_scheme \<Rightarrow> 'a cpu_scheme" where
  "pic_init s =
     (let s = outb 0x70 0x22 s;
          s = outb 0x71 0x70 s;
          s = outb 0xA1 0xFF s;
          s = outb 0x21 0xFF s;
          s = outb 0x20 0x11 s;
          s = outb 0xA0 0x11 s;
          s = outb 0x21 0x20 s;
          s = outb 0xA1 0x28 s;
          s = outb 0x21 0x04 s;
          s = outb 0xA1 0x02 s;
          s = outb 0x21 0x01 s;
          s = outb 0xA1 0x01 s;
          s = outb 0x21 0xFD s;
          s = outb 0xA1 0xFF s
      in emit (Vga_Print (''[PIC] Legacy PIC initialized (IRQ1 enabled)'' @ [LF])) s)"

definition pic_unmask_irq :: "(u16 \<Rightarrow> u8) \<Rightarrow> u8 \<Rightarrow> 'a cpu_scheme \<Rightarrow> 'a cpu_scheme" where
  "pic_unmask_irq inp irq s =
     (let port = (if irq < 8 then 0x21 else 0xA1);
          mask = inp port;
          mask = mask AND NOT (push_bit (unat (irq mod 8)) 1)
      in outb port mask s)"

text \<open>
  The shift of a signed 1 by \<open>irq\<close> is defined for 0 to 31 only; the result is cut to a byte.
\<close>

definition pic_enable_irq :: "(u16 \<Rightarrow> u8) \<Rightarrow> int \<Rightarrow> 'a cpu_scheme \<Rightarrow> fault + 'a cpu_scheme" where
  "pic_enable_irq inp irq s =
     (let (port, irq) = (if irq < 8 then (0x21, irq) else (0xA1, irq - 8))
      in if irq < 0 \<or> 31 < irq then Inl Undefined_Behaviour
         else let val = inp port AND NOT (push_bit (nat irq) 1) in Inr (outb port val s))"

section \<open>The controllers\<close>

datatype icw = ICW2 | ICW3 | ICW4

record pic =
  vector_base :: u8
  irq_mask :: u8
  pending :: "icw list"

definition pic_command :: "u8 \<Rightarrow> pic \<Rightarrow> pic" where
  "pic_command v p =
     (if v AND 0x10 \<noteq> 0
      then p\<lparr>irq_mask := 0, pending := ICW2 # (if v AND 0x02 = 0 then [ICW3] else [])
        @ (if v AND 0x01 \<noteq> 0 then [ICW4] else [])\<rparr>
      else p)"

definition pic_data :: "u8 \<Rightarrow> pic \<Rightarrow> pic" where
  "pic_data v p =
     (case pending p of
        [] \<Rightarrow> p\<lparr>irq_mask := v\<rparr>
      | ICW2 # rest \<Rightarrow> p\<lparr>vector_base := v AND 0xF8, pending := rest\<rparr>
      | _ # rest \<Rightarrow> p\<lparr>pending := rest\<rparr>)"

definition pics_step :: "event \<Rightarrow> pic \<times> pic \<Rightarrow> pic \<times> pic" where
  "pics_step e ps =
     (case e of Outb port v \<Rightarrow>
        if port = 0x20 then (pic_command v (fst ps), snd ps)
        else if port = 0x21 then (pic_data v (fst ps), snd ps)
        else if port = 0xA0 then (fst ps, pic_command v (snd ps))
        else if port = 0xA1 then (fst ps, pic_data v (snd ps))
        else ps
      | _ \<Rightarrow> ps)"

definition pics_after :: "event list \<Rightarrow> pic \<times> pic \<Rightarrow> pic \<times> pic" where
  "pics_after es ps = fold pics_step es ps"

text \<open>The mask register is what a read of the data port returns.\<close>

definition reads_masks :: "(u16 \<Rightarrow> u8) \<Rightarrow> pic \<times> pic \<Rightarrow> bool" where
  "reads_masks inp ps \<longleftrightarrow> inp 0x21 = irq_mask (fst ps) \<and> inp 0xA1 = irq_mask (snd ps)"

lemma pics_after_simps [simp]:
  "pics_after [] ps = ps" "pics_after (e # es) ps = pics_after es (pics_step e ps)"
  "pics_after (es @ es') ps = pics_after es' (pics_after es ps)"
  by (simp_all add: pics_after_def)

lemma trace_outb [simp]: "trace (outb port v s) = trace s @ [Outb port v]"
  by (simp add: outb_def)

definition pic_ready :: "u8 \<Rightarrow> u8 \<Rightarrow> pic" where
  "pic_ready base m = \<lparr>vector_base = base, irq_mask = m, pending = []\<rparr>"

lemmas pic_sim = pics_step_def pic_command_def pic_data_def pic_ready_def

lemma remap_pic_run:
  "pics_after (trace (remap_pic inp s)) ps =
     (pic_ready 32 0xFE, pic_data 0xFF (pic_command (inp 0xA1) (pic_ready 40 0)))"
  by (cases "pics_after (trace s) ps") (simp add: remap_pic_def pic_ports Let_def pic_sim)

lemma pic_init_run: "pics_after (trace (pic_init s)) ps = (pic_ready 32 0xFD, pic_ready 40 0xFF)"
  by (cases "pics_after (trace s) ps") (simp add: pic_init_def Let_def pic_sim split: list.splits icw.splits)

section \<open>Properties\<close>

text \<open>
  C26. Interrupt controllers: whatever state they were in, \<open>remap_pic\<close> leaves the first one with its
  vectors at 32 and only the timer enabled.  The second one gets its vectors at 40 and everything
  masked only if its old mask had bit 4 clear: the mask is written back to the command port, where
  bit 4 starts a new initialisation, which takes the final mask as the vector base 248 and leaves
  every line of the controller enabled; in the old kernel \<open>pic_init\<close> sets both correctly.
\<close>

theorem remap_pic_effect:
  "fst (pics_after (trace (remap_pic inp s)) ps) = \<lparr>vector_base = 32, irq_mask = 0xFE, pending = []\<rparr> \<and>
   (let p = snd (pics_after (trace (remap_pic inp s)) ps) in
     if inp 0xA1 AND 0x10 = 0 then p = \<lparr>vector_base = 40, irq_mask = 0xFF, pending = []\<rparr>
     else vector_base p = 0xF8 \<and> irq_mask p = 0) \<and>
   pics_after (trace (pic_init s)) ps =
     (\<lparr>vector_base = 32, irq_mask = 0xFD, pending = []\<rparr>, \<lparr>vector_base = 40, irq_mask = 0xFF, pending = []\<rparr>)"
  unfolding remap_pic_run pic_init_run
  by (simp add: pic_sim)

text \<open>
  Enabling a line: on the old kernel's controllers \<open>pic_enable_irq\<close> clears the mask bit of its
  line and no other, for each of the 16 lines, and \<open>pic_unmask_irq\<close> has the same effect.
\<close>

lemma enable_irq_effect:
  assumes "irq < 16" "reads_masks inp ps" "pending (fst ps) = []" "pending (snd ps) = []"
    "ps = pics_after (trace s) ps0"
  shows "\<exists>s'. pic_enable_irq inp (int irq) s = Inr s' \<and>
    pics_after (trace (pic_unmask_irq inp (of_nat irq) s)) ps0 = pics_after (trace s') ps0 \<and>
    pics_after (trace s') ps0 =
      (if irq < 8 then ((fst ps)\<lparr>irq_mask := irq_mask (fst ps) AND NOT (push_bit irq 1)\<rparr>, snd ps)
       else (fst ps, (snd ps)\<lparr>irq_mask := irq_mask (snd ps) AND NOT (push_bit (irq - 8) 1)\<rparr>))"
proof -
  have u: "unat (of_nat irq :: u8) = irq" using assms(1) by (simp add: unat_of_nat)
  then have lt: "(of_nat irq :: u8) < 8 \<longleftrightarrow> irq < 8" by (simp add: word_less_nat_alt)
  have md: "unat ((of_nat irq :: u8) mod 8) = (if irq < 8 then irq else irq - 8)"
    using assms(1) by (simp add: unat_mod u mod_if)
  have m: "inp 0x21 = irq_mask (fst ps)" "inp 0xA1 = irq_mask (snd ps)" using assms(2) by (simp_all add: reads_masks_def)
  have "nat (int irq - 8) = irq - 8" by simp
  then show ?thesis
    using assms(1,3,4) u lt md m assms(5)
    by (cases "irq < 8"; cases ps) (simp_all add: pic_enable_irq_def pic_unmask_irq_def Let_def pics_step_def pic_data_def)
qed

text \<open>After the initialisation of the old kernel, line 12 of the second controller.\<close>

end
