(* ===== verification/PIT.thy ===== *)
theory PIT
  imports HEAP PIC
begin

text \<open>
  The timer: \<open>Kernel/src/Include/pit.c\<close> and the old kernel's \<open>old/Include/PIT.c\<close>.  The rate a
  sequence of port writes programs is the documented behaviour of the 8253: the control word
  chooses the bytes of the reload value that the following writes to port 0x40 carry.

  \<open>ksleep\<close> waits in \<open>hlt\<close> for the interrupt handler to advance the tick counter.  As a step
  relation the handler may run at any moment; as a function, used by the boot sequence, one tick
  arrives at each \<open>hlt\<close>.
\<close>

section \<open>State and operations\<close>

record timer = heap +
  system_ticks :: u32

definition init_pit :: "u32 \<Rightarrow> 'a timer_scheme \<Rightarrow> fault + 'a timer_scheme" where
  "init_pit hz s =
     (if hz = 0 then Inl Undefined_Behaviour
      else let divisor = 1193182 div hz;
               s = emit (Print ''[INFO] [PIT] Setting frequency: '') s
        in bindE (itoaE hz 10) (\<lambda>buf.
        let s = emit (Print buf) s;
            s = emit (Print ('' Hz'' @ crlf)) s;
            s = outb 0x43 0x36 s;
            s = outb 0x40 (ucast (divisor AND 0xFF)) s
        in Inr (outb 0x40 (ucast (drop_bit 8 divisor AND 0xFF)) s)))"

definition get_ticks :: "'a timer_scheme \<Rightarrow> 64 word" where
  "get_ticks s = ucast (system_ticks s)"

text \<open>The handler saves and restores the registers around its two effects.\<close>

definition pit_handler :: "'a timer_scheme \<Rightarrow> 'a timer_scheme" where
  "pit_handler s = (let s = s\<lparr>system_ticks := system_ticks s + 1\<rparr> in outb 0x20 0x20 s)"

primrec ksleep_loop :: "nat \<Rightarrow> u32 \<Rightarrow> 'a timer_scheme \<Rightarrow> fault + 'a timer_scheme" where
  "ksleep_loop 0 target s = Inl No_Return"
| "ksleep_loop (Suc fuel) target s =
     (if target > system_ticks s then ksleep_loop fuel target (pit_handler s) else Inr s)"

definition ksleep :: "nat \<Rightarrow> u32 \<Rightarrow> 'a timer_scheme \<Rightarrow> fault + 'a timer_scheme" where
  "ksleep fuel ms s = (let target = system_ticks s + ms in ksleep_loop fuel target s)"

text \<open>The old kernel's timer, with a 64-bit counter.\<close>

record old_timer = cpu +
  pit_ticks :: "64 word"

definition PIT_DIVISOR :: "64 word" where "PIT_DIVISOR = 1193180 div 1000"

definition pit_init :: "'a old_timer_scheme \<Rightarrow> 'a old_timer_scheme" where
  "pit_init s =
     (let divisor = PIT_DIVISOR;
          s = outb 0x43 0x26 s;
          s = outb 0x40 (ucast (divisor AND 0xFF)) s
      in outb 0x40 (ucast (drop_bit 8 divisor AND 0xFF)) s)"

definition PIT_IRQ_HANDLER :: "'a old_timer_scheme \<Rightarrow> 'a old_timer_scheme" where
  "PIT_IRQ_HANDLER s = (let s = s\<lparr>pit_ticks := pit_ticks s + 1\<rparr> in outb 0x20 0x20 s)"

definition time_ms :: "'a old_timer_scheme \<Rightarrow> 64 word" where
  "time_ms s = pit_ticks s"

primrec sleep_ms_loop :: "nat \<Rightarrow> 64 word \<Rightarrow> 'a old_timer_scheme \<Rightarrow> fault + 'a old_timer_scheme" where
  "sleep_ms_loop 0 target s = Inl No_Return"
| "sleep_ms_loop (Suc fuel) target s =
     (if pit_ticks s < target then sleep_ms_loop fuel target (PIT_IRQ_HANDLER s) else Inr s)"

definition sleep_ms :: "nat \<Rightarrow> 64 word \<Rightarrow> 'a old_timer_scheme \<Rightarrow> fault + 'a old_timer_scheme" where
  "sleep_ms fuel ms s = (let target = pit_ticks s + ms in sleep_ms_loop fuel target s)"

section \<open>The 8253\<close>

record counter =
  access :: u8
  low_byte :: "u8 option"
  reload :: u16

definition counter_step :: "event \<Rightarrow> counter \<Rightarrow> counter" where
  "counter_step e p =
     (case e of Outb port v \<Rightarrow>
        if port = 0x43
        then if drop_bit 6 v = 0 \<and> drop_bit 4 v AND 3 \<noteq> 0
          then p\<lparr>access := drop_bit 4 v AND 3, low_byte := None\<rparr> else p
        else if port = 0x40
        then if access p = 1 then p\<lparr>reload := ucast v\<rparr>
          else if access p = 2 then p\<lparr>reload := push_bit 8 (ucast v)\<rparr>
          else (case low_byte p of
              None \<Rightarrow> p\<lparr>low_byte := Some v\<rparr>
            | Some l \<Rightarrow> p\<lparr>reload := ucast l OR push_bit 8 (ucast v), low_byte := None\<rparr>)
        else p
      | _ \<Rightarrow> p)"

definition counter_after :: "event list \<Rightarrow> counter \<Rightarrow> counter" where
  "counter_after es p = fold counter_step es p"

text \<open>A reload value of 0 counts 65536 clocks; the clock runs at 1193182 Hz.\<close>

definition clocks_per_tick :: "counter \<Rightarrow> nat" where
  "clocks_per_tick p = (if reload p = 0 then 65536 else unat (reload p))"

lemma counter_after_simps [simp]:
  "counter_after [] p = p" "counter_after (e # es) p = counter_after es (counter_step e p)"
  "counter_after (es @ es') p = counter_after es' (counter_after es p)"
  by (simp_all add: counter_after_def)

lemma emit_timer [simp]:
  "system_ticks (emit e s) = system_ticks s" "system_ticks (outb port v s) = system_ticks s"
  by (simp_all add: emit_def outb_def)

lemma two_bytes: "(ucast (ucast (d AND 0xFF) :: u8) :: u16) OR push_bit 8 (ucast (ucast (drop_bit 8 d AND 0xFF) :: u8)) = ucast (d :: u32)"
proof -
  have m: "(0xFF :: u32) = mask 8" by (simp add: mask_eq_exp_minus_1)
  show ?thesis unfolding m by (rule bit_word_eqI) (auto simp: bit_simps)
qed

lemma init_pit_run:
  assumes "hz \<noteq> 0"
  shows "\<exists>t. init_pit hz s = Inr (s\<lparr>trace := trace s @ t\<rparr>) \<and>
    reload (counter_after (trace s @ t) p) = ucast (1193182 div hz)"
  using assms
  by (cases s) (simp add: init_pit_def itoaE_10 Let_def counter_step_def two_bytes [simplified] emit_def outb_def)

lemma unat_reload: "unat (ucast (1193182 div hz :: u32) :: u16) = 1193182 div unat hz mod 65536"
  by (simp add: unsigned_ucast_eq take_bit_eq_mod unat_div)

section \<open>Sleeping\<close>

text \<open>
  The states \<open>ksleep\<close> can be in while the timer interrupt comes at any time: where it is, the
  counter, and how many ticks have come since the call.  An interrupt ends a \<open>hlt\<close>.
\<close>

datatype sleep_pc = Testing | Waiting | Awake

inductive sleeping :: "u32 \<Rightarrow> u32 \<Rightarrow> sleep_pc \<Rightarrow> u32 \<Rightarrow> nat \<Rightarrow> bool" for t0 target where
  start: "sleeping t0 target Testing t0 0"
| wait: "sleeping t0 target Testing t n \<Longrightarrow> target > t \<Longrightarrow> sleeping t0 target Waiting t n"
| wake: "sleeping t0 target Testing t n \<Longrightarrow> \<not> target > t \<Longrightarrow> sleeping t0 target Awake t n"
| tick: "sleeping t0 target pc t n \<Longrightarrow>
    sleeping t0 target (if pc = Waiting then Testing else pc) (t + 1) (Suc n)"

lemma sleeping_ticks: "sleeping t0 target pc t n \<Longrightarrow> t = t0 + of_nat n"
  by (induction rule: sleeping.induct) simp_all

lemma ticks_below:
  assumes "n < unat ms" "unat t0 + unat ms < 2 ^ 32"
  shows "t0 + of_nat n < t0 + (ms :: u32)"
proof -
  have "n < 2 ^ 32" using assms by simp
  then have "unat (of_nat n :: u32) = n" by (simp add: unat_of_nat)
  then show ?thesis using assms by (simp add: word_less_nat_alt unat_word_ariths)
qed

lemma sleeping_awake:
  assumes "sleeping t0 (t0 + ms) pc t n" "unat t0 + unat ms < 2 ^ 32"
  shows "pc = Awake \<longrightarrow> unat ms \<le> n"
  using assms(1)
proof (induction rule: sleeping.induct)
  case (wake t n)
  then show ?case using ticks_below [OF _ assms(2)] sleeping_ticks by (metis not_le_imp_less)
qed auto

lemma pit_handler_ticks: "system_ticks ((pit_handler ^^ n) s) = system_ticks s + of_nat n"
  by (induction n) (simp_all add: pit_handler_def)

lemma ksleep_loop_run:
  "unat t0 + unat ms < 2 ^ 32 \<Longrightarrow> n \<le> unat ms \<Longrightarrow> unat ms - n < fuel \<Longrightarrow> system_ticks s = t0 + of_nat n \<Longrightarrow>
   ksleep_loop fuel (t0 + ms) s = Inr ((pit_handler ^^ (unat ms - n)) s)"
proof (induction fuel arbitrary: n s)
  case 0
  then show ?case by simp
next
  case (Suc fuel)
  show ?case
  proof (cases "n = unat ms")
    case True
    then show ?thesis using Suc.prems by simp
  next
    case False
    then have lt: "t0 + of_nat n < t0 + ms" using Suc.prems by (intro ticks_below) auto
    have "ksleep_loop fuel (t0 + ms) (pit_handler s) = Inr ((pit_handler ^^ (unat ms - Suc n)) (pit_handler s))"
      by (rule Suc.IH) (use Suc.prems False in \<open>auto simp: pit_handler_def\<close>)
    moreover have "(pit_handler ^^ (unat ms - Suc n)) (pit_handler s) = (pit_handler ^^ (unat ms - n)) s"
    proof -
      have "unat ms - n = Suc (unat ms - Suc n)" using False Suc.prems(2) by simp
      then show ?thesis by (simp only: funpow_Suc_right o_apply)
    qed
    ultimately show ?thesis using lt Suc.prems(4) by simp
  qed
qed

lemma ksleep_run:
  "unat (system_ticks s) + unat ms < 2 ^ 32 \<Longrightarrow> unat ms < fuel \<Longrightarrow>
   ksleep fuel ms s = Inr ((pit_handler ^^ unat ms) s)"
  using ksleep_loop_run [of "system_ticks s" ms 0 fuel s] by (simp add: ksleep_def)

section \<open>Properties\<close>

text \<open>A timer 100 ticks after its start.\<close>

definition sample_timer :: timer where
  "sample_timer = heap.extend sample_heap (timer.fields 100)"

definition sample_old_timer :: old_timer where
  "sample_old_timer = \<lparr>ram = (\<lambda>_. 0), cr0 = 0, cr3 = 0, trace = [], pit_ticks = 0\<rparr>"

lemma sample_timer_ticks: "system_ticks sample_timer = 100"
  by (simp add: sample_timer_def heap.extend_def timer.fields_def)

text \<open>
  C27. The programmed rate: \<open>init_pit hz\<close> loads the timer with 1193182 / hz clocks per tick, cut to
  16 bits, so the rate is the one asked for exactly when \<open>hz\<close> lies between 19 and 1193182; the
  old kernel's \<open>pit_init\<close> asks for the high byte only and so loads 1024 instead of its divisor 1193.
\<close>

theorem pit_rate:
  assumes "hz \<noteq> 0"
  shows "\<exists>s'. init_pit hz s = Inr s' \<and> (let n = clocks_per_tick (counter_after (trace s') p) in
      n = (if 1193182 div unat hz mod 65536 = 0 then 65536 else 1193182 div unat hz mod 65536) \<and>
      (19 \<le> hz \<and> hz \<le> 1193182 \<longleftrightarrow> n = 1193182 div unat hz)) \<and>
    clocks_per_tick (counter_after (trace (pit_init o')) p) = 1024 \<and> PIT_DIVISOR = 1193"
proof -
  let ?q = "1193182 div unat hz"
  have h: "0 < unat hz" using assms by (simp add: unat_gt_0)
  have "19 \<le> unat hz \<and> unat hz \<le> 1193182 \<longleftrightarrow> ?q = (if ?q mod 65536 = 0 then 65536 else ?q mod 65536)"
  proof (cases "19 \<le> unat hz \<and> unat hz \<le> 1193182")
    case True
    have "?q \<le> 1193182 div 19" by (rule div_le_mono2) (use True in auto)
    moreover have "1193182 div 1193182 \<le> ?q" by (rule div_le_mono2) (use True in auto)
    ultimately show ?thesis using True by simp
  next
    case False
    then consider "unat hz \<le> 18" | "1193182 < unat hz" by linarith
    then have "1193182 div 18 \<le> ?q \<or> ?q = 0"
      by cases (rule disjI1, rule div_le_mono2, use h in auto)
    moreover have "?q mod 65536 < 65536" by simp
    ultimately have "?q \<noteq> (if ?q mod 65536 = 0 then 65536 else ?q mod 65536)" by auto
    then show ?thesis using False by blast
  qed
  moreover have "reload (counter_after (trace (pit_init o')) p) = 1024"
    by (cases "counter_after (trace o') p") (simp add: pit_init_def PIT_DIVISOR_def Let_def counter_step_def)
  moreover obtain s' where "init_pit hz s = Inr s'"
      "reload (counter_after (trace s') p) = ucast (1193182 div hz)"
    using init_pit_run [OF assms, of s p] by force
  moreover have "19 \<le> hz \<and> hz \<le> 1193182 \<longleftrightarrow> 19 \<le> unat hz \<and> unat hz \<le> 1193182"
    by (simp add: word_le_nat_alt)
  moreover have "reload c = ucast (1193182 div hz) \<Longrightarrow> clocks_per_tick c = (if ?q mod 65536 = 0 then 65536 else ?q mod 65536)" for c
    using unat_reload [of hz] by (auto simp: clocks_per_tick_def simp flip: unat_0_iff)
  ultimately show ?thesis by (auto simp: Let_def PIT_DIVISOR_def clocks_per_tick_def)
qed

theorem pit_rate_witness:
  "\<exists>s'. init_pit 1000 sample_timer = Inr s' \<and>
     clocks_per_tick (counter_after (trace s') \<lparr>access = 0, low_byte = None, reload = 0\<rparr>) = 1193 \<and>
     clocks_per_tick (counter_after (trace (pit_init sample_old_timer)) \<lparr>access = 0, low_byte = None, reload = 0\<rparr>) = 1024"
proof -
  have "(1000 :: u32) \<noteq> 0" by simp
  from pit_rate [OF this, of sample_timer "\<lparr>access = 0, low_byte = None, reload = 0\<rparr>" sample_old_timer]
  show ?thesis by (auto simp: Let_def)
qed

text \<open>
  C28. Sleeping: however the timer interrupts interleave with its test and its \<open>hlt\<close>, \<open>ksleep ms\<close>
  does not return before \<open>ms\<close> ticks have come; more may have come by then.  When each \<open>hlt\<close> is ended by
  one tick and none comes elsewhere it returns after exactly \<open>ms\<close>.  But when the tick counter plus
  \<open>ms\<close> reaches 2^32 it returns at once.
\<close>

theorem ksleep_waits:
  assumes "unat ms < fuel"
  shows "if unat (system_ticks s) + unat ms < 2 ^ 32
    then (\<forall>t n. sleeping (system_ticks s) (system_ticks s + ms) Awake t n \<longrightarrow> unat ms \<le> n) \<and>
      (\<exists>s'. ksleep fuel ms s = Inr s' \<and> system_ticks s' = system_ticks s + ms)
    else ksleep fuel ms s = Inr s \<and> sleeping (system_ticks s) (system_ticks s + ms) Awake (system_ticks s) 0"
proof (cases "unat (system_ticks s) + unat ms < 2 ^ 32")
  case True
  then show ?thesis
    using sleeping_awake ksleep_run [OF True assms] by (auto simp: pit_handler_ticks)
next
  case False
  let ?a = "unat (system_ticks s)" and ?b = "unat ms"
  have "?a < 2 ^ 32" "?b < 2 ^ 32" using unsigned_less [of "system_ticks s"] unsigned_less [of ms] by simp_all
  moreover have "(?a + ?b) mod 2 ^ 32 = (?a + ?b - 2 ^ 32) mod 2 ^ 32"
    by (rule le_mod_geq) (use False in linarith)
  ultimately have "(?a + ?b) mod 2 ^ 32 \<le> ?a" by simp
  then have "\<not> system_ticks s + ms > system_ticks s"
    by (simp add: word_less_nat_alt unat_word_ariths not_less)
  moreover have "0 < fuel" using assms by simp
  ultimately show ?thesis
    using False sleeping.wake [OF sleeping.start, of "system_ticks s" "system_ticks s + ms"]
    by (cases fuel) (simp_all add: ksleep_def)
qed

theorem ksleep_waits_witness:
  "\<exists>s'. ksleep 4 3 sample_timer = Inr s' \<and> system_ticks s' = 103"
proof -
  have "unat (3 :: u32) < 4" "unat (system_ticks sample_timer) + unat (3 :: u32) < 2 ^ 32"
    by (simp_all add: sample_timer_ticks)
  with ksleep_waits [OF this(1), of sample_timer] show ?thesis by (simp add: sample_timer_ticks)
qed

end
