(* ===== verification/IDT.thy ===== *)
theory IDT
  imports PIT
begin

text \<open>
  \<open>Kernel/src/Include/idt.c\<close>: the interrupt table and the handlers in C, and the table setup of
  the old kernel's \<open>old/Include/IDT.c\<close>.  The addresses the linker gives the handlers and the table
  are the fields of \<open>link\<close>.  What a handler reads from the stack or from \<open>CR2\<close> is an argument.  A
  handler that ends in an endless loop is modelled up to that loop.
\<close>

section \<open>State and operations\<close>

record idt_entry =
  offset_low :: u16
  selector :: u16
  zero_byte :: u8
  gate_type :: u8
  offset_high :: u16

record link =
  dummy_isr_at :: u32
  divide_by_zero_at :: u32
  pit_handler_at :: u32
  page_fault_handler_at :: u32
  idt_at :: u32

record intr = timer +
  idt :: "idt_entry list"
  idtp :: "u16 \<times> u32"
  idtr :: "(u16 \<times> u32) option"
  interrupts_on :: bool

definition idt_set :: "int \<Rightarrow> u32 \<Rightarrow> 'a intr_scheme \<Rightarrow> fault + 'a intr_scheme" where
  "idt_set num handler s =
     (if num < 0 \<or> int (length (idt s)) \<le> num then Inl Undefined_Behaviour
      else Inr (s\<lparr>idt := (idt s)[nat num :=
        \<lparr>offset_low = ucast (handler AND 0xFFFF), selector = 0x08, zero_byte = 0, gate_type = 0x8E,
         offset_high = ucast (drop_bit 16 handler AND 0xFFFF)\<rparr>]\<rparr>))"

definition idt_load :: "link \<Rightarrow> 'a intr_scheme \<Rightarrow> 'a intr_scheme" where
  "idt_load l s =
     (let s = s\<lparr>idtp := (8 * 256 - 1, idt_at l)\<rparr> in s\<lparr>idtr := Some (idtp s)\<rparr>)"

definition idt_init :: "link \<Rightarrow> 'a intr_scheme \<Rightarrow> fault + 'a intr_scheme" where
  "idt_init l s =
     bindE (foldE (\<lambda>i s. idt_set (int i) (dummy_isr_at l) s) [0..<256] s) (\<lambda>s.
     bindE (idt_set 0 (divide_by_zero_at l) s) (\<lambda>s.
     bindE (idt_set 32 (pit_handler_at l) s) (\<lambda>s.
     bindE (idt_set 14 (page_fault_handler_at l) s) (\<lambda>s.
     Inr (idt_load l s)))))"

definition enable_sti :: "'a intr_scheme \<Rightarrow> 'a intr_scheme" where
  "enable_sti s = s\<lparr>interrupts_on := True\<rparr>"

definition dummy_isr :: "u32 \<Rightarrow> u32 \<Rightarrow> 'a cpu_scheme \<Rightarrow> fault + 'a cpu_scheme" where
  "dummy_isr int_no eip s =
     (let s = emit (Serial_Line COM1_PORT ''[PANIC] Unexpected interrupt'') s
      in bindE (itoaE int_no 10) (\<lambda>msg1.
      let s = emit (Serial_Line COM1_PORT msg1) s;
          s = emit (Serial_Line COM1_PORT ''EIP: '') s;
          s = emit (Serial_Line COM1_PORT (hex_to_str eip)) s;
          s = outb 0x20 0x20 s
      in Inr (outb 0xA0 0x20 s)))"

definition divide_by_zero :: "'a cpu_scheme \<Rightarrow> 'a cpu_scheme" where
  "divide_by_zero s = emit (Serial_Line COM1_PORT ''[PANIC] Can't divide by zero'') s"

text \<open>The flag says whether the handler returns; otherwise the processor has stopped.\<close>

definition page_fault_handler :: "u32 \<Rightarrow> u32 \<Rightarrow> 'a vmm_scheme \<Rightarrow> fault + bool \<times> 'a vmm_scheme" where
  "page_fault_handler err_code fault_addr s =
     (let s = emit (Kprintf (''%s PAGE FAULT at %x (CR2=%x)'' @ crlf)
                [ArgS LOG_ERROR, ArgW fault_addr, ArgW fault_addr]) s;
          s = emit (Kprintf (''%s Error code: %x'' @ crlf) [ArgS LOG_ERROR, ArgW err_code]) s;
          present = err_code AND 0x1;
          write = err_code AND 0x2;
          user = err_code AND 0x4;
          instruction = err_code AND 0x10;
          s = emit (Kprintf (''%s %s %s %s %s'' @ crlf) [ArgS LOG_ERROR,
                ArgS (if present \<noteq> 0 then ''protection violation'' else ''page not present''),
                ArgS (if write \<noteq> 0 then ''write'' else ''read''),
                ArgS (if user \<noteq> 0 then ''user'' else ''kernel''),
                ArgS (if instruction \<noteq> 0 then ''instruction fetch'' else '''')]) s
      in bindE (if present = 0 \<and> user = 0 \<and> fault_addr \<ge> 0xC0000000
             then let s = emit (Kprintf (''%s Attempting to map kernel page %x'' @ crlf)
                        [ArgS LOG_INFO, ArgW fault_addr]) s
               in bindE (alloc_page s) (\<lambda>(phys, s).
               if phys \<noteq> 0
               then bindE (vmm_map_page fault_addr phys (PG_PRESENT OR PG_WRITABLE) s) (\<lambda>s.
                 Inr (True, emit (Kprintf (''%s Mapped %x -> %x'' @ crlf)
                   [ArgS LOG_INFO, ArgW fault_addr, ArgW phys]) s))
               else Inr (False, s))
             else Inr (False, s)) (\<lambda>(done, s).
         if done then Inr (True, s)
         else Inr (False, emit (Kprintf (''%s [PANIC] Unhandled page fault'' @ crlf) [ArgS LOG_ERROR]) s)))"

text \<open>The table of the old kernel; \<open>cs\<close> is what it reads from the code segment register.\<close>

record old_intr = cpu +
  old_idt :: "idt_entry list"
  old_idtr :: "(u16 \<times> u32) option"

definition idt_set_gate :: "u16 \<Rightarrow> int \<Rightarrow> u32 \<Rightarrow> 'a old_intr_scheme \<Rightarrow> fault + 'a old_intr_scheme" where
  "idt_set_gate cs n handler s =
     (if n < 0 \<or> int (length (old_idt s)) \<le> n then Inl Undefined_Behaviour
      else let s = s\<lparr>old_idt := (old_idt s)[nat n :=
        \<lparr>offset_low = ucast (handler AND 0xFFFF), selector = cs, zero_byte = 0, gate_type = 0x8E,
         offset_high = ucast (drop_bit 16 handler AND 0xFFFF)\<rparr>]\<rparr>
      in Inr (if n = 0
        then emit (Vga_Print [LF]) (emit (Vga_Print (old_hex_to_str (ucast cs)))
          (emit (Vga_Print ''[IDT] Using CS selector: 0x'') s))
        else s))"

definition IDT_INIT :: "u16 \<Rightarrow> u32 \<Rightarrow> u32 \<Rightarrow> u32 \<Rightarrow> 'a old_intr_scheme \<Rightarrow> fault + 'a old_intr_scheme" where
  "IDT_INIT cs safe_irq_handler ps2_irq_handler base s =
     (let s = s\<lparr>old_idt := replicate 256 \<lparr>offset_low = 0, selector = 0, zero_byte = 0, gate_type = 0, offset_high = 0\<rparr>\<rparr>
      in bindE (foldE (\<lambda>i s. idt_set_gate cs (int i) safe_irq_handler s) [0..<256] s) (\<lambda>s.
      bindE (idt_set_gate cs 0x21 ps2_irq_handler s) (\<lambda>s.
      let s = s\<lparr>old_idtr := Some (8 * 256 - 1, base)\<rparr>
      in Inr (emit (Vga_Print (''[IDT] Loaded'' @ [LF])) s))))"

section \<open>What the processor finds in the table\<close>

definition gate_target :: "idt_entry \<Rightarrow> u32" where
  "gate_target e = ucast (offset_low e) OR push_bit 16 (ucast (offset_high e))"

definition gate :: "u16 \<Rightarrow> u32 \<Rightarrow> idt_entry" where
  "gate cs handler = \<lparr>offset_low = ucast (handler AND 0xFFFF), selector = cs, zero_byte = 0, gate_type = 0x8E,
     offset_high = ucast (drop_bit 16 handler AND 0xFFFF)\<rparr>"

lemma gate_fields:
  "gate_target (gate cs handler) = handler" "selector (gate cs handler) = cs" "gate_type (gate cs handler) = 0x8E"
proof -
  have m: "(0xFFFF :: u32) = mask 16" by (simp add: mask_eq_exp_minus_1)
  show "gate_target (gate cs handler) = handler"
    unfolding gate_target_def gate_def m by (rule bit_word_eqI) (auto simp: bit_simps)
qed (simp_all add: gate_def)

lemma idt_set_run:
  "0 \<le> num \<Longrightarrow> num < int (length (idt s)) \<Longrightarrow>
   idt_set num handler s = Inr (s\<lparr>idt := (idt s)[nat num := gate 8 handler]\<rparr>)"
  by (simp add: idt_set_def gate_def)

lemma fill_gates:
  assumes "length (idt s) = 256"
  shows "foldE (\<lambda>i s. idt_set (int i) h s) [0..<256] s = Inr (s\<lparr>idt := replicate 256 (gate 8 h)\<rparr>)"
proof -
  let ?g = "\<lambda>n. s\<lparr>idt := replicate n (gate 8 h) @ drop n (idt s)\<rparr>"
  have "idt_set (int n) h (?g n) = Inr (?g (Suc n))" if "n < 256" for n
  proof -
    have "drop n (idt s) = idt s ! n # drop (Suc n) (idt s)" using assms that by (simp add: Cons_nth_drop_Suc)
    then have "(replicate n (gate 8 h) @ drop n (idt s))[n := gate 8 h] = replicate (Suc n) (gate 8 h) @ drop (Suc n) (idt s)"
      by (simp add: list_update_append replicate_app_Cons_same)
    then show ?thesis using assms that by (simp add: idt_set_run)
  qed
  then have "foldE (\<lambda>i s. idt_set (int i) h s) [0..<256] (?g 0) = Inr (?g 256)"
    by (intro foldE_upt) auto
  then show ?thesis using assms by simp
qed

definition kernel_gates :: "link \<Rightarrow> idt_entry list" where
  "kernel_gates l = (replicate 256 (gate 8 (dummy_isr_at l)))[0 := gate 8 (divide_by_zero_at l),
     32 := gate 8 (pit_handler_at l), 14 := gate 8 (page_fault_handler_at l)]"

lemma idt_init_run:
  assumes "length (idt s) = 256"
  shows "idt_init l s = Inr (s\<lparr>idt := kernel_gates l, idtp := (2047, idt_at l), idtr := Some (2047, idt_at l)\<rparr>)"
  by (simp add: idt_init_def fill_gates [OF assms] idt_set_run idt_load_def kernel_gates_def Let_def)

lemma emit_intr [simp]:
  "idt (emit e s) = idt s" "idtr (emit e s) = idtr s" "interrupts_on (emit e s) = interrupts_on s"
  by (simp_all add: emit_def)

lemma xlate_emit [simp]: "xlate (emit e s) = xlate s"
  by (simp add: fun_eq_iff xlate_def paging_def emit_def)

section \<open>Properties\<close>

text \<open>A state right after reset, and addresses for the handlers.\<close>

definition sample_link :: link where
  "sample_link = \<lparr>dummy_isr_at = 0x100400, divide_by_zero_at = 0x100500, pit_handler_at = 0x10ABCD,
     page_fault_handler_at = 0x100700, idt_at = 0x108000\<rparr>"

definition sample_intr :: intr where
  "sample_intr = timer.extend (heap.extend (vmm.extend sample_boot
     (heap.fields 0 0 0 0 0)) (timer.fields 0)) (intr.fields (replicate 256 (gate 0 0)) (0, 0) None False)"

lemmas extend_defs = timer.extend_def heap.extend_def vmm.extend_def heap.fields_def timer.fields_def intr.fields_def

text \<open>
  C29. The interrupt table: after \<open>idt_init\<close> the table register points to 256 gates of the kernel's
  code segment; division by zero, page faults and the timer reach their handlers and every other
  vector the default one, so the split of the addresses into halves loses nothing.
\<close>

theorem idt_init_gates:
  assumes "length (idt s) = 256"
  shows "\<exists>s'. idt_init l s = Inr s' \<and> idtr s' = Some (8 * 256 - 1, idt_at l) \<and> length (idt s') = 256 \<and>
    (\<forall>n < 256. selector (idt s' ! n) = 8 \<and> gate_type (idt s' ! n) = 0x8E \<and>
      gate_target (idt s' ! n) = (if n = 0 then divide_by_zero_at l else if n = 14 then page_fault_handler_at l
        else if n = 32 then pit_handler_at l else dummy_isr_at l))"
  unfolding idt_init_run [OF assms] by (auto simp: kernel_gates_def nth_list_update gate_fields)

theorem idt_init_gates_witness:
  "\<exists>s'. idt_init sample_link sample_intr = Inr s' \<and> gate_target (idt s' ! 32) = 0x10ABCD"
proof -
  have "length (idt sample_intr) = 256" by (simp add: sample_intr_def extend_defs)
  from idt_init_gates [OF this, of sample_link] obtain s' where s': "idt_init sample_link sample_intr = Inr s'"
      "\<forall>n < 256. gate_target (idt s' ! n) = (if n = 0 then divide_by_zero_at sample_link else if n = 14
        then page_fault_handler_at sample_link else if n = 32 then pit_handler_at sample_link
        else dummy_isr_at sample_link)" by blast
  from s'(2) [rule_format, of 32] s'(1) show ?thesis by (simp add: sample_link_def)
qed

text \<open>
  C30. Pages are not mapped on demand: in the address space the boot sequence builds, the page fault
  handler, asked for a kernel page that is not present, itself faults on the allocator's bitmap
  before it can map anything; for any other fault it reports it and stops.
\<close>

theorem page_fault_handler_faults:
  assumes "boot_ready k s" "k + 1 < total_pages s"
  shows "\<exists>s1. vmm_init s = Inr s1 \<and>
    (if err AND 1 = 0 \<and> err AND 4 = 0 \<and> 0xC0000000 \<le> a
     then page_fault_handler err a (vmm_enable s1) = Inl (Page_Fault (BITMAP_START + (k + 1)))
     else \<exists>t. page_fault_handler err a (vmm_enable s1) =
       Inr (False, (vmm_enable s1)\<lparr>trace := trace (vmm_enable s1) @ t\<rparr>))"
proof -
  obtain s1 where s1: "vmm_init s = Inr s1" using vmm_init_ready [OF assms(1)] by metis
  note f = enabled_alloc_faults [OF assms(1) s1]
  have "page_fault_handler err a (vmm_enable s1) = Inl (Page_Fault (BITMAP_START + (k + 1)))"
    if "err AND 1 = 0 \<and> err AND 4 = 0 \<and> 0xC0000000 \<le> a"
    using that assms(2) by (simp add: page_fault_handler_def f vmm_enable_def Let_def del: append.simps)
  moreover have "\<exists>t. page_fault_handler err a (vmm_enable s1) =
       Inr (False, (vmm_enable s1)\<lparr>trace := trace (vmm_enable s1) @ t\<rparr>)"
    if "\<not> (err AND 1 = 0 \<and> err AND 4 = 0 \<and> 0xC0000000 \<le> a)"
    using that by (auto simp: page_fault_handler_def emit_def Let_def)
  ultimately show ?thesis using s1 by auto
qed

theorem page_fault_handler_faults_witness:
  "\<exists>s1. vmm_init sample_boot = Inr s1 \<and>
     page_fault_handler 0 0xD0000000 (vmm_enable s1) = Inl (Page_Fault 0x1001001)"
proof -
  have "(4096 :: u32) + 1 < total_pages sample_boot" "BITMAP_START + (4096 + 1) = 0x1001001"
    by (simp_all add: sample_boot_def BITMAP_START_def)
  with page_fault_handler_faults [OF sample_boot_ready this(1), of 0 "0xD0000000"] show ?thesis
    by (simp add: BITMAP_START_def)
qed

end
