(* ===== verification/Bounded_Log.thy ===== *)
theory Bounded_Log
  imports Prelude
begin

text \<open>
  The contract of a log of bounded size that forgets its oldest entry when it is full, as the
  scroll-back of the screen is one.
\<close>

definition last_n :: "nat \<Rightarrow> 'a list \<Rightarrow> 'a list" where
  "last_n n xs = drop (length xs - n) xs"

locale bounded_log =
  fixes inv :: "'s \<Rightarrow> bool"
    and items :: "'s \<Rightarrow> 'a list"
    and cap :: nat
    and push :: "'s \<Rightarrow> 'e + 's"
    and entry :: "'s \<Rightarrow> 'a"
  assumes cap_pos: "0 < cap"
    and items_cap: "inv s \<Longrightarrow> length (items s) \<le> cap"
    and push_items: "inv s \<Longrightarrow> \<exists>s'. push s = Inr s' \<and> inv s' \<and>
      items s' = (if length (items s) < cap then items s @ [entry s] else tl (items s) @ [entry s])"
begin

text \<open>One entry is appended and the last \<open>cap\<close> entries are kept.\<close>

lemma push_last:
  assumes "inv s"
  shows "\<exists>s'. push s = Inr s' \<and> inv s' \<and> items s' = last_n cap (items s @ [entry s])"
proof -
  obtain s' where s': "push s = Inr s'" "inv s'"
      "items s' = (if length (items s) < cap then items s @ [entry s] else tl (items s) @ [entry s])"
    using push_items [OF assms] by blast
  have "length (items s) = cap \<Longrightarrow> last_n cap (items s @ [entry s]) = tl (items s) @ [entry s]"
    using cap_pos by (cases "items s") (auto simp: last_n_def)
  then show ?thesis using s' items_cap [OF assms] by (auto simp: last_n_def)
qed

end

end
