(* ===== verification/VGA.thy ===== *)
theory VGA
  imports Machine Bounded_Log
begin

text \<open>
  \<open>Kernel/src/Include/VGA.c\<close> and the inline functions of \<open>VGA.h\<close> (the old kernel's \<open>VGA.c\<close> and
  \<open>VGA_DRV.c\<close> are the same code): the 80x25 text screen, its cursor, and a scroll-back of 10000
  lines kept in a circular array.  The two arrays are functions on the index; an access outside
  their 2000 and 800000 cells is \<open>Inl Undefined_Behaviour\<close>, so a run that returns has stayed
  inside them.
\<close>

section \<open>State and operations\<close>

definition VGA_WIDTH :: int where "VGA_WIDTH = 80"
definition VGA_HEIGHT :: int where "VGA_HEIGHT = 25"
definition VGA_HISTORY_SIZE :: int where "VGA_HISTORY_SIZE = 10000"
definition VGA_BLACK :: u8 where "VGA_BLACK = 0"
definition VGA_LIGHT_GREY :: u8 where "VGA_LIGHT_GREY = 7"

lemmas vga_sizes = VGA_WIDTH_def VGA_HEIGHT_def VGA_HISTORY_SIZE_def

record vga =
  vbuf :: "int \<Rightarrow> u16"
  vga_color :: u8
  cursorx :: int
  cursory :: int
  scroll_offset :: int
  vga_history :: "int \<Rightarrow> u16"
  history_start :: int
  history_count :: int
  vports :: "(u16 \<times> u8) list"

definition vget :: "int \<Rightarrow> 'a vga_scheme \<Rightarrow> fault + u16" where
  "vget i s = (if 0 \<le> i \<and> i < VGA_WIDTH * VGA_HEIGHT then Inr (vbuf s i) else Inl Undefined_Behaviour)"

definition vput :: "int \<Rightarrow> u16 \<Rightarrow> 'a vga_scheme \<Rightarrow> fault + 'a vga_scheme" where
  "vput i c s = (if 0 \<le> i \<and> i < VGA_WIDTH * VGA_HEIGHT then Inr (s\<lparr>vbuf := (vbuf s)(i := c)\<rparr>)
     else Inl Undefined_Behaviour)"

definition hget :: "int \<Rightarrow> 'a vga_scheme \<Rightarrow> fault + u16" where
  "hget i s = (if 0 \<le> i \<and> i < VGA_HISTORY_SIZE * VGA_WIDTH then Inr (vga_history s i)
     else Inl Undefined_Behaviour)"

definition hput :: "int \<Rightarrow> u16 \<Rightarrow> 'a vga_scheme \<Rightarrow> fault + 'a vga_scheme" where
  "hput i c s = (if 0 \<le> i \<and> i < VGA_HISTORY_SIZE * VGA_WIDTH
     then Inr (s\<lparr>vga_history := (vga_history s)(i := c)\<rparr>) else Inl Undefined_Behaviour)"

definition vga_entry_color :: "u8 \<Rightarrow> u8 \<Rightarrow> u8" where
  "vga_entry_color fg bg = fg OR push_bit 4 bg"

definition vga_entry :: "char \<Rightarrow> u8 \<Rightarrow> u16" where
  "vga_entry uc color = ucast (of_char uc :: u8) OR push_bit 8 (ucast color)"

definition vga_outb :: "u16 \<Rightarrow> u8 \<Rightarrow> 'a vga_scheme \<Rightarrow> 'a vga_scheme" where
  "vga_outb port val s = s\<lparr>vports := vports s @ [(port, val)]\<rparr>"

definition update_cursor :: "'a vga_scheme \<Rightarrow> 'a vga_scheme" where
  "update_cursor s =
     (let pos = (of_int (cursory s * VGA_WIDTH + cursorx s) :: u16);
          s = vga_outb 0x3D4 0x0F s;
          s = vga_outb 0x3D5 (ucast (pos AND 0xFF)) s;
          s = vga_outb 0x3D4 0x0E s
      in vga_outb 0x3D5 (ucast (drop_bit 8 pos AND 0xFF)) s)"

text \<open>The loop that fills row \<open>y\<close> with blanks, which \<open>VGA.c\<close> repeats in four places.\<close>

definition blank_row :: "int \<Rightarrow> 'a vga_scheme \<Rightarrow> fault + 'a vga_scheme" where
  "blank_row y s =
     foldE (\<lambda>x s. vput (y * VGA_WIDTH + int x) (vga_entry (CHR '' '') (vga_color s)) s) [0..<nat VGA_WIDTH] s"

definition history_line_index :: "int \<Rightarrow> 'a vga_scheme \<Rightarrow> int" where
  "history_line_index line s = (history_start s + line) mod VGA_HISTORY_SIZE"

definition vga_copy_line :: "int \<Rightarrow> int \<Rightarrow> 'a vga_scheme \<Rightarrow> fault + 'a vga_scheme" where
  "vga_copy_line dest src s =
     foldE (\<lambda>x s. bindE (vget (src + int x) s) (\<lambda>c. hput (dest + int x) c s)) [0..<nat VGA_WIDTH] s"

definition add_line_to_history :: "int \<Rightarrow> 'a vga_scheme \<Rightarrow> fault + 'a vga_scheme" where
  "add_line_to_history y s =
     (let (target_idx, s) =
        (if history_count s < VGA_HISTORY_SIZE
         then (history_count s, s\<lparr>history_count := history_count s + 1\<rparr>)
         else (history_start s, s\<lparr>history_start := (history_start s + 1) mod VGA_HISTORY_SIZE\<rparr>))
      in vga_copy_line (target_idx * VGA_WIDTH) (y * VGA_WIDTH) s)"

definition vga_scroll :: "'a vga_scheme \<Rightarrow> fault + 'a vga_scheme" where
  "vga_scroll s =
     bindE (add_line_to_history 0 s) (\<lambda>s.
     bindE (foldE (\<lambda>y s. foldE (\<lambda>x s. bindE (vget (int y * VGA_WIDTH + int x) s)
         (\<lambda>c. vput ((int y - 1) * VGA_WIDTH + int x) c s)) [0..<nat VGA_WIDTH] s) [1..<nat VGA_HEIGHT] s) (\<lambda>s.
     bindE (blank_row (VGA_HEIGHT - 1) s) (\<lambda>s.
     let s = s\<lparr>cursorx := 0\<rparr>;
         s = s\<lparr>cursory := VGA_HEIGHT - 1\<rparr>;
         s = s\<lparr>scroll_offset := 0\<rparr>
     in Inr (update_cursor s))))"

definition redraw_screen_from_history :: "'a vga_scheme \<Rightarrow> fault + 'a vga_scheme" where
  "redraw_screen_from_history s =
     (let start_line = 0;
          start_line = (if history_count s > VGA_HEIGHT
            then let l = history_count s - VGA_HEIGHT - scroll_offset s in if l < 0 then 0 else l
            else start_line);
          lines_to_show = VGA_HEIGHT;
          lines_to_show = (if history_count s < VGA_HEIGHT then history_count s else lines_to_show);
          start_line = (if history_count s < VGA_HEIGHT then 0 else start_line)
      in bindE (foldE (\<lambda>screen_y s.
           let history_y = start_line + int screen_y in
           if history_y \<ge> history_count s then blank_row (int screen_y) s
           else let src = history_line_index history_y s * VGA_WIDTH in
             foldE (\<lambda>x s. bindE (hget (src + int x) s) (\<lambda>c. vput (int screen_y * VGA_WIDTH + int x) c s))
               [0..<nat VGA_WIDTH] s) [0..<nat lines_to_show] s) (\<lambda>s.
         bindE (foldE (\<lambda>screen_y s. blank_row (int screen_y) s) [nat lines_to_show..<nat VGA_HEIGHT] s) (\<lambda>s.
         let s = (if scroll_offset s = 0 then s\<lparr>cursorx := 0, cursory := VGA_HEIGHT - 1\<rparr>
                  else s\<lparr>cursorx := 0, cursory := 0\<rparr>)
         in Inr (update_cursor s))))"

definition vga_get_scroll_max :: "'a vga_scheme \<Rightarrow> int" where
  "vga_get_scroll_max s = (let m = history_count s - VGA_HEIGHT in if m > 0 then m else 0)"

definition vga_scroll_up :: "'a vga_scheme \<Rightarrow> fault + 'a vga_scheme" where
  "vga_scroll_up s =
     (let max_offset = history_count s - VGA_HEIGHT;
          max_offset = (if max_offset < 0 then 0 else max_offset)
      in if scroll_offset s < max_offset
         then redraw_screen_from_history (s\<lparr>scroll_offset := scroll_offset s + 1\<rparr>)
         else Inr s)"

definition vga_scroll_down :: "'a vga_scheme \<Rightarrow> fault + 'a vga_scheme" where
  "vga_scroll_down s =
     (if scroll_offset s > 0
      then redraw_screen_from_history (s\<lparr>scroll_offset := scroll_offset s - 1\<rparr>) else Inr s)"

definition vga_get_scroll_offset :: "'a vga_scheme \<Rightarrow> int" where
  "vga_get_scroll_offset s = scroll_offset s"

definition vga_get_history_count :: "'a vga_scheme \<Rightarrow> int" where
  "vga_get_history_count s = history_count s"

definition vga_set_scroll_offset :: "int \<Rightarrow> 'a vga_scheme \<Rightarrow> fault + 'a vga_scheme" where
  "vga_set_scroll_offset offset s =
     (let offset = (if offset < 0 then 0 else offset);
          max_offset = history_count s - VGA_HEIGHT;
          max_offset = (if max_offset < 0 then 0 else max_offset);
          offset = (if offset > max_offset then max_offset else offset)
      in redraw_screen_from_history (s\<lparr>scroll_offset := offset\<rparr>))"

definition vga_clear :: "'a vga_scheme \<Rightarrow> fault + 'a vga_scheme" where
  "vga_clear s =
     bindE (foldE (\<lambda>y s. blank_row (int y) s) [0..<nat VGA_HEIGHT] s) (\<lambda>s.
     let s = s\<lparr>cursorx := 0, cursory := 0\<rparr>;
         s = s\<lparr>scroll_offset := 0\<rparr>;
         s = s\<lparr>history_start := 0\<rparr>;
         s = s\<lparr>history_count := 0\<rparr>
     in Inr (update_cursor s))"

definition vga_init :: "'a vga_scheme \<Rightarrow> fault + 'a vga_scheme" where
  "vga_init s =
     (let s = s\<lparr>vga_color := vga_entry_color VGA_LIGHT_GREY VGA_BLACK\<rparr>;
          s = s\<lparr>history_start := 0\<rparr>;
          s = s\<lparr>history_count := 0\<rparr>;
          s = s\<lparr>scroll_offset := 0\<rparr>
      in vga_clear s)"

definition vga_char :: "char \<Rightarrow> 'a vga_scheme \<Rightarrow> fault + 'a vga_scheme" where
  "vga_char c s =
     bindE (if c = LF then Inr (s\<lparr>cursorx := 0, cursory := cursory s + 1\<rparr>)
       else if c = CR then Inr (s\<lparr>cursorx := 0\<rparr>)
       else if c = CHR 0x08
       then if cursorx s > 0
            then let s = s\<lparr>cursorx := cursorx s - 1\<rparr>
              in vput (cursory s * VGA_WIDTH + cursorx s) (vga_entry (CHR '' '') (vga_color s)) s
            else if cursory s > 0
            then let s = s\<lparr>cursory := cursory s - 1, cursorx := VGA_WIDTH - 1\<rparr>
              in vput (cursory s * VGA_WIDTH + cursorx s) (vga_entry (CHR '' '') (vga_color s)) s
            else Inr s
       else bindE (vput (cursory s * VGA_WIDTH + cursorx s) (vga_entry c (vga_color s)) s) (\<lambda>s.
         let s = s\<lparr>cursorx := cursorx s + 1\<rparr>
         in Inr (if cursorx s \<ge> VGA_WIDTH then s\<lparr>cursorx := 0, cursory := cursory s + 1\<rparr> else s))) (\<lambda>s.
     bindE (if cursory s \<ge> VGA_HEIGHT then vga_scroll s else Inr s) (\<lambda>s.
     Inr (update_cursor s)))"

text \<open>The loop of \<open>vga_print\<close> stops at the NUL that ends the string.\<close>

fun vga_print :: "string \<Rightarrow> 'a vga_scheme \<Rightarrow> fault + 'a vga_scheme" where
  "vga_print [] s = Inr s" |
  "vga_print (c # str) s = (if c = CHR 0x00 then Inr s else bindE (vga_char c s) (vga_print str))"

definition vga_colors :: "u8 \<Rightarrow> u8 \<Rightarrow> 'a vga_scheme \<Rightarrow> 'a vga_scheme" where
  "vga_colors fg bg s = s\<lparr>vga_color := vga_entry_color fg bg\<rparr>"

section \<open>How the loops run\<close>

text \<open>An array whose cells from \<open>a\<close> on, \<open>n\<close> of them, are \<open>f 0, f 1, \<dots>\<close>.\<close>

definition put_row :: "int \<Rightarrow> nat \<Rightarrow> (nat \<Rightarrow> u16) \<Rightarrow> (int \<Rightarrow> u16) \<Rightarrow> int \<Rightarrow> u16" where
  "put_row a n f b = (\<lambda>i. if a \<le> i \<and> i < a + int n then f (nat (i - a)) else b i)"

lemma put_row_0: "put_row a 0 f b = b"
  by (auto simp: put_row_def fun_eq_iff)

lemma put_row_Suc: "(put_row a n f b)(a + int n := f n) = put_row a (Suc n) f b"
  by (auto simp: put_row_def fun_eq_iff)

lemmas put_row_const = put_row_Suc [where f = "\<lambda>_. c" for c]

lemma put_row_other: "i < a \<or> a + int n \<le> i \<Longrightarrow> put_row a n f b i = b i"
  by (auto simp: put_row_def)

lemma put_row_at: "x < n \<Longrightarrow> put_row a n f b (a + int x) = f x"
  by (simp add: put_row_def)

abbreviation blank :: "'a vga_scheme \<Rightarrow> u16" where
  "blank s \<equiv> vga_entry (CHR '' '') (vga_color s)"

lemma blank_row_run:
  assumes "0 \<le> y" "y < 25"
  shows "blank_row y s = Inr (s\<lparr>vbuf := put_row (y * 80) 80 (\<lambda>_. blank s) (vbuf s)\<rparr>)"
proof -
  let ?g = "\<lambda>x. s\<lparr>vbuf := put_row (y * 80) x (\<lambda>_. blank s) (vbuf s)\<rparr>"
  have "vput (y * 80 + int x) (blank (?g x)) (?g x) = Inr (?g (Suc x))" if "x < 80" for x
    using assms that by (simp add: vput_def vga_sizes put_row_const)
  then have "foldE (\<lambda>x s. vput (y * 80 + int x) (blank s) s) [0..<80] (?g 0) = Inr (?g 80)"
    by (intro foldE_upt) auto
  then show ?thesis by (simp add: blank_row_def vga_sizes put_row_0)
qed

lemma copy_line_run:
  assumes "0 \<le> d" "d + 80 \<le> 800000" "0 \<le> a" "a + 80 \<le> 2000"
  shows "vga_copy_line d a s = Inr (s\<lparr>vga_history := put_row d 80 (\<lambda>x. vbuf s (a + int x)) (vga_history s)\<rparr>)"
proof -
  let ?g = "\<lambda>x. s\<lparr>vga_history := put_row d x (\<lambda>x. vbuf s (a + int x)) (vga_history s)\<rparr>"
  have "bindE (vget (a + int x) (?g x)) (\<lambda>c. hput (d + int x) c (?g x)) = Inr (?g (Suc x))"
    if "x < 80" for x
    using assms that
    by (simp add: vget_def hput_def vga_sizes put_row_Suc [of d x "\<lambda>x. vbuf s (a + int x)", symmetric])
  then have "foldE (\<lambda>x s. bindE (vget (a + int x) s) (\<lambda>c. hput (d + int x) c s)) [0..<80] (?g 0) = Inr (?g 80)"
    by (intro foldE_upt) auto
  then show ?thesis by (simp add: vga_copy_line_def vga_sizes put_row_0)
qed

lemma show_line_run:
  assumes "0 \<le> d" "d + 80 \<le> 2000" "0 \<le> a" "a + 80 \<le> 800000"
  shows "foldE (\<lambda>x s. bindE (hget (a + int x) s) (\<lambda>c. vput (d + int x) c s)) [0..<80] s =
    Inr (s\<lparr>vbuf := put_row d 80 (\<lambda>x. vga_history s (a + int x)) (vbuf s)\<rparr>)"
proof -
  let ?g = "\<lambda>x. s\<lparr>vbuf := put_row d x (\<lambda>x. vga_history s (a + int x)) (vbuf s)\<rparr>"
  have "bindE (hget (a + int x) (?g x)) (\<lambda>c. vput (d + int x) c (?g x)) = Inr (?g (Suc x))"
    if "x < 80" for x
    using assms that
    by (simp add: hget_def vput_def vga_sizes put_row_Suc [of d x "\<lambda>x. vga_history s (a + int x)", symmetric])
  then have "foldE (\<lambda>x s. bindE (hget (a + int x) s) (\<lambda>c. vput (d + int x) c s)) [0..<80] (?g 0) = Inr (?g 80)"
    by (intro foldE_upt) auto
  then show ?thesis by (simp add: put_row_0)
qed

lemma move_up_run:
  "foldE (\<lambda>y s. foldE (\<lambda>x s. bindE (vget (int y * 80 + int x) s)
     (\<lambda>c. vput ((int y - 1) * 80 + int x) c s)) [0..<80] s) [1..<25] s =
   Inr (s\<lparr>vbuf := put_row 0 1920 (\<lambda>i. vbuf s (int i + 80)) (vbuf s)\<rparr>)"
proof -
  let ?g = "\<lambda>n. s\<lparr>vbuf := put_row 0 n (\<lambda>i. vbuf s (int i + 80)) (vbuf s)\<rparr>"
  have cell: "bindE (vget (int y * 80 + int x) (?g ((y - 1) * 80 + x)))
      (\<lambda>c. vput ((int y - 1) * 80 + int x) c (?g ((y - 1) * 80 + x))) = Inr (?g ((y - 1) * 80 + Suc x))"
    if "x < 80" "1 \<le> y" "y < 25" for x y
  proof -
    have i: "int ((y - 1) * 80 + x) = (int y - 1) * 80 + int x" using that by (simp add: of_nat_diff)
    have "vbuf (?g ((y - 1) * 80 + x)) (int y * 80 + int x) = vbuf s (int y * 80 + int x)"
      using that by (simp add: put_row_other of_nat_diff)
    moreover have "vbuf s (int ((y - 1) * 80 + x) + 80) = vbuf s (int y * 80 + int x)"
      unfolding i by (simp add: algebra_simps)
    moreover note put_row_Suc [of 0 "(y - 1) * 80 + x" "\<lambda>i. vbuf s (int i + 80)" "vbuf s"]
    moreover have "0 + int ((y - 1) * 80 + x) = (int y - 1) * 80 + int x" unfolding i by simp
    ultimately show ?thesis using that by (simp add: vget_def vput_def vga_sizes)
  qed
  have row: "foldE (\<lambda>x s. bindE (vget (int y * 80 + int x) s) (\<lambda>c. vput ((int y - 1) * 80 + int x) c s))
      [0..<80] (?g ((y - 1) * 80)) = Inr (?g (y * 80))" if "1 \<le> y" "y < 25" for y
  proof -
    have "foldE (\<lambda>x s. bindE (vget (int y * 80 + int x) s) (\<lambda>c. vput ((int y - 1) * 80 + int x) c s))
      [0..<80] (?g ((y - 1) * 80 + 0)) = Inr (?g ((y - 1) * 80 + 80))"
      by (rule foldE_upt [where g = "\<lambda>x. ?g ((y - 1) * 80 + x)"]) (use cell that in auto)
    moreover have "(y - 1) * 80 + 80 = y * 80" using that by (cases y) auto
    ultimately show ?thesis by simp
  qed
  have "foldE (\<lambda>y s. foldE (\<lambda>x s. bindE (vget (int y * 80 + int x) s)
     (\<lambda>c. vput ((int y - 1) * 80 + int x) c s)) [0..<80] s) [1..<25] (?g ((1 - 1) * 80)) = Inr (?g ((25 - 1) * 80))"
    by (rule foldE_upt [where g = "\<lambda>y. ?g ((y - 1) * 80)"]) (use row in auto)
  then show ?thesis by (simp add: put_row_0)
qed

section \<open>What the screen shows and what the history holds\<close>

definition screen_line :: "int \<Rightarrow> 'a vga_scheme \<Rightarrow> u16 list" where
  "screen_line y s = map (\<lambda>x. vbuf s (y * 80 + int x)) [0..<80]"

definition stored_line :: "int \<Rightarrow> 'a vga_scheme \<Rightarrow> u16 list" where
  "stored_line k s = map (\<lambda>x. vga_history s (k * 80 + int x)) [0..<80]"

definition history :: "'a vga_scheme \<Rightarrow> u16 list list" where
  "history s = map (\<lambda>i. stored_line ((history_start s + int i) mod 10000) s) [0..<nat (history_count s)]"

definition log_inv :: "'a vga_scheme \<Rightarrow> bool" where
  "log_inv s \<longleftrightarrow> 0 \<le> history_count s \<and> history_count s \<le> 10000 \<and> 0 \<le> history_start s \<and>
     history_start s < 10000 \<and> (history_count s < 10000 \<longrightarrow> history_start s = 0)"

definition vga_inv :: "'a vga_scheme \<Rightarrow> bool" where
  "vga_inv s \<longleftrightarrow> log_inv s \<and> 0 \<le> cursorx s \<and> cursorx s < 80 \<and> 0 \<le> cursory s \<and> cursory s < 25 \<and>
     0 \<le> scroll_offset s \<and> scroll_offset s \<le> vga_get_scroll_max s"

lemma row_disjoint: "k \<noteq> t \<Longrightarrow> x < 80 \<Longrightarrow> k * 80 + int x < t * 80 \<or> t * 80 + 80 \<le> k * 80 + int x"
  by (cases k t rule: linorder_cases) auto

lemma screen_line_cong: "vbuf s = vbuf s' \<Longrightarrow> screen_line y s = screen_line y s'"
  by (simp add: screen_line_def)

lemma history_cong:
  "vga_history s = vga_history s' \<Longrightarrow> history_start s = history_start s' \<Longrightarrow>
   history_count s = history_count s' \<Longrightarrow> history s = history s'"
  by (simp add: history_def stored_line_def)

lemma log_inv_cong:
  "history_start s = history_start s' \<Longrightarrow> history_count s = history_count s' \<Longrightarrow> log_inv s = log_inv s'"
  by (simp add: log_inv_def)

lemma length_history: "length (history s) = nat (history_count s)"
  by (simp add: history_def)

lemma screen_line_put:
  "screen_line y (s\<lparr>vbuf := put_row (t * 80) 80 f b\<rparr>) =
     (if y = t then map f [0..<80] else screen_line y (s\<lparr>vbuf := b\<rparr>))"
  using row_disjoint [of y t] by (auto simp: screen_line_def put_row_at put_row_other)

lemma stored_line_put:
  assumes "vga_history s' = put_row (t * 80) 80 f (vga_history s)"
  shows "stored_line k s' = (if k = t then map f [0..<80] else stored_line k s)"
  using row_disjoint [of k t] by (auto simp: assms stored_line_def put_row_at put_row_other)

text \<open>A line for the history, while there is space and when it is full.\<close>

lemma add_line_space:
  assumes "log_inv s" "0 \<le> y" "y < 25" and True: "history_count s < 10000"
  shows "\<exists>h c st. add_line_to_history y s = Inr (s\<lparr>vga_history := h, history_count := c, history_start := st\<rparr>) \<and>
    log_inv (s\<lparr>vga_history := h, history_count := c, history_start := st\<rparr>) \<and> c = history_count s + 1 \<and>
    history (s\<lparr>vga_history := h, history_count := c, history_start := st\<rparr>) = history s @ [screen_line y s]"
proof -
  let ?n = "history_count s"
  let ?h = "put_row (?n * 80) 80 (\<lambda>x. vbuf s (y * 80 + int x)) (vga_history s)"
  let ?s = "s\<lparr>vga_history := ?h, history_count := ?n + 1, history_start := 0\<rparr>"
  have b: "0 \<le> ?n" "history_start s = 0" using assms True by (simp_all add: log_inv_def)
  have l: "stored_line k ?s = (if k = ?n then screen_line y s else stored_line k s)" for k
    by (subst stored_line_put [where s = s and t = ?n]) (auto simp add: screen_line_def)
  have "add_line_to_history y s = Inr ?s"
    using assms b True by (simp add: add_line_to_history_def vga_sizes copy_line_run)
  moreover have "history ?s = history s @ [screen_line y s]"
  proof -
    have n: "nat (?n + 1) = Suc (nat ?n)" using b by simp
    have "stored_line (int i mod 10000) ?s = stored_line (int i mod 10000) s" if "i < nat ?n" for i
    proof -
      have "int i < ?n" using that by linarith
      then show ?thesis using True by (simp add: l)
    qed
    then have "map (\<lambda>i. stored_line (int i mod 10000) ?s) [0..<nat ?n] = history s"
      using b by (simp add: history_def)
    moreover have "stored_line (?n mod 10000) ?s = screen_line y s" using b True by (simp add: l)
    ultimately show ?thesis using b unfolding history_def [of ?s] by (simp add: n del: l)
  qed
  ultimately show ?thesis
    using assms True by (intro exI [of _ ?h] exI [of _ "?n + 1"] exI [of _ 0])
      (auto simp: log_inv_def length_history)
qed

lemma add_line_full:
  assumes "log_inv s" "0 \<le> y" "y < 25" and False: "\<not> history_count s < 10000"
  shows "\<exists>h c st. add_line_to_history y s = Inr (s\<lparr>vga_history := h, history_count := c, history_start := st\<rparr>) \<and>
    log_inv (s\<lparr>vga_history := h, history_count := c, history_start := st\<rparr>) \<and> c = 10000 \<and>
    history (s\<lparr>vga_history := h, history_count := c, history_start := st\<rparr>) = tl (history s) @ [screen_line y s]"
proof -
  let ?a = "history_start s"
  let ?h = "put_row (?a * 80) 80 (\<lambda>x. vbuf s (y * 80 + int x)) (vga_history s)"
  let ?s = "s\<lparr>vga_history := ?h, history_count := 10000, history_start := (?a + 1) mod 10000\<rparr>"
  have b: "history_count s = 10000" "0 \<le> ?a" "?a < 10000" using assms False by (simp_all add: log_inv_def)
  have l: "stored_line k ?s = (if k = ?a then screen_line y s else stored_line k s)" for k
    by (subst stored_line_put [where s = s and t = ?a]) (auto simp: screen_line_def)
  have "add_line_to_history y s = Inr ?s"
    using assms b by (simp add: add_line_to_history_def vga_sizes copy_line_run)
  moreover have "history ?s = tl (history s) @ [screen_line y s]"
  proof (rule nth_equalityI)
    fix i
    assume "i < length (history ?s)"
    then have i: "i < 10000" by (simp add: length_history)
    have "((?a + 1) mod 10000 + int i) mod 10000 = (?a + int (Suc i)) mod 10000"
      by (simp add: mod_simps algebra_simps)
    then have n: "history ?s ! i = stored_line ((?a + int (Suc i)) mod 10000) ?s"
      using i by (simp add: history_def)
    show "history ?s ! i = (tl (history s) @ [screen_line y s]) ! i"
    proof (cases "i = 9999")
      case True
      have "(?a + int (Suc i)) mod 10000 = ?a" using True b by simp
      then show ?thesis unfolding n l using True b by (simp add: nth_append length_history)
    next
      case False
      then have "\<not> 10000 dvd int (Suc i)" using i by (intro zdvd_not_zless) auto
      then have "(?a + int (Suc i)) mod 10000 \<noteq> ?a mod 10000" by (simp add: mod_eq_dvd_iff)
      then have "(?a + int (Suc i)) mod 10000 \<noteq> ?a" using b by simp
      then show ?thesis unfolding n l using False i b
        by (simp add: nth_append length_history nth_tl) (simp add: history_def)
    qed
  qed (simp add: length_history b)
  ultimately show ?thesis
    using assms b by (intro exI [of _ ?h] exI [of _ 10000] exI [of _ "(?a + 1) mod 10000"])
      (auto simp: log_inv_def length_history)
qed

lemma add_line_run:
  assumes "log_inv s" "0 \<le> y" "y < 25"
  shows "\<exists>h c st. add_line_to_history y s = Inr (s\<lparr>vga_history := h, history_count := c, history_start := st\<rparr>) \<and>
    log_inv (s\<lparr>vga_history := h, history_count := c, history_start := st\<rparr>) \<and>
    c = min 10000 (history_count s + 1) \<and>
    history (s\<lparr>vga_history := h, history_count := c, history_start := st\<rparr>) =
      (if length (history s) < 10000 then history s else tl (history s)) @ [screen_line y s]"
proof (cases "history_count s < 10000")
  case True
  then show ?thesis using add_line_space [OF assms True] assms(1) by (auto simp: log_inv_def length_history)
next
  case False
  then show ?thesis using add_line_full [OF assms False] assms(1) by (auto simp: log_inv_def length_history)
qed

interpretation scrollback: bounded_log log_inv history 10000 "add_line_to_history 0" "screen_line 0"
proof
  fix s :: "'a vga_scheme"
  assume i: "log_inv s"
  then show "length (history s) \<le> 10000" by (auto simp: log_inv_def length_history)
  show "\<exists>s'. add_line_to_history 0 s = Inr s' \<and> log_inv s' \<and>
      history s' = (if length (history s) < 10000 then history s @ [screen_line 0 s]
        else tl (history s) @ [screen_line 0 s])"
    using add_line_run [OF i, of 0] by (auto split: if_splits)
qed simp

lemma update_cursor_fields [simp]:
  "vbuf (update_cursor s) = vbuf s" "vga_color (update_cursor s) = vga_color s"
  "cursorx (update_cursor s) = cursorx s" "cursory (update_cursor s) = cursory s"
  "scroll_offset (update_cursor s) = scroll_offset s" "vga_history (update_cursor s) = vga_history s"
  "history_start (update_cursor s) = history_start s" "history_count (update_cursor s) = history_count s"
  by (simp_all add: update_cursor_def vga_outb_def Let_def)

lemma update_cursor_views [simp]:
  "screen_line y (update_cursor s) = screen_line y s" "history (update_cursor s) = history s"
  "vga_inv (update_cursor s) = vga_inv s"
  by (simp_all add: screen_line_def history_def stored_line_def vga_inv_def log_inv_def vga_get_scroll_max_def)

lemma vga_scroll_run:
  assumes "log_inv s"
  shows "\<exists>s'. vga_scroll s = Inr s' \<and> vga_inv s' \<and> history s' = last_n 10000 (history s @ [screen_line 0 s]) \<and>
    (\<forall>y. 0 \<le> y \<and> y < 24 \<longrightarrow> screen_line y s' = screen_line (y + 1) s) \<and>
    screen_line 24 s' = replicate 80 (blank s) \<and> cursorx s' = 0 \<and> cursory s' = 24 \<and>
    scroll_offset s' = 0 \<and> vga_color s' = vga_color s"
proof -
  obtain h c st where a: "add_line_to_history 0 s = Inr (s\<lparr>vga_history := h, history_count := c, history_start := st\<rparr>)"
    and li: "log_inv (s\<lparr>vga_history := h, history_count := c, history_start := st\<rparr>)"
    using add_line_run [OF assms, of 0] by auto
  then have hist: "history (s\<lparr>vga_history := h, history_count := c, history_start := st\<rparr>) =
      last_n 10000 (history s @ [screen_line 0 s])"
    using scrollback.push_last [OF assms] by auto
  let ?b = "put_row (24 * 80) 80 (\<lambda>_. blank s) (put_row 0 1920 (\<lambda>i. vbuf s (int i + 80)) (vbuf s))"
  let ?s = "s\<lparr>vga_history := h, history_count := c, history_start := st, vbuf := ?b, cursorx := 0,
    cursory := 24, scroll_offset := 0\<rparr>"
  have run: "vga_scroll s = Inr (update_cursor ?s)"
    by (simp add: vga_scroll_def a vga_sizes move_up_run [simplified] blank_row_run)
  have "screen_line y ?s = (if y = 24 then replicate 80 (blank s)
      else screen_line y (s\<lparr>vbuf := put_row 0 1920 (\<lambda>i. vbuf s (int i + 80)) (vbuf s)\<rparr>))" for y
  proof -
    have "screen_line y ?s = screen_line y (s\<lparr>vbuf := ?b\<rparr>)" by (rule screen_line_cong) simp
    then show ?thesis unfolding screen_line_put by (simp add: map_replicate_trivial)
  qed
  moreover have "screen_line y (s\<lparr>vbuf := put_row 0 1920 (\<lambda>i. vbuf s (int i + 80)) (vbuf s)\<rparr>) =
      screen_line (y + 1) s" if "0 \<le> y" "y < 24" for y
    using that by (auto simp: screen_line_def put_row_def algebra_simps)
  moreover have "vga_inv ?s"
    using li by (simp add: vga_inv_def log_inv_def vga_get_scroll_max_def Let_def)
  moreover have "history ?s = last_n 10000 (history s @ [screen_line 0 s])"
    unfolding hist [symmetric] by (rule history_cong) simp_all
  ultimately show ?thesis
    unfolding run by (intro exI [of _ "update_cursor ?s"]) simp
qed

section \<open>The window into the history\<close>

definition window_start :: "'a vga_scheme \<Rightarrow> nat" where
  "window_start s = nat (history_count s) - 25 - nat (scroll_offset s)"

definition window_line :: "nat \<Rightarrow> 'a vga_scheme \<Rightarrow> u16 list" where
  "window_line y s = (if y < nat (history_count s) then history s ! (window_start s + y)
     else replicate 80 (blank s))"

lemma history_nth:
  assumes "log_inv s" "0 \<le> i" "i < history_count s"
  shows "map (\<lambda>x. vga_history s (history_line_index i s * 80 + int x)) [0..<80] = history s ! nat i"
    "0 \<le> history_line_index i s" "history_line_index i s < 10000"
  using assms by (auto simp: history_def history_line_index_def vga_sizes stored_line_def)

definition shown_upto :: "'a vga_scheme \<Rightarrow> nat \<Rightarrow> 'a vga_scheme \<Rightarrow> bool" where
  "shown_upto s y t \<longleftrightarrow> (\<exists>b. t = s\<lparr>vbuf := b\<rparr>) \<and> (\<forall>k < y. screen_line (int k) t = window_line k s)"

lemma shown_Suc:
  assumes "shown_upto s y t" "map f [0..<80] = window_line y s"
  shows "shown_upto s (Suc y) (t\<lparr>vbuf := put_row (int y * 80) 80 f (vbuf t)\<rparr>)"
  using assms by (auto simp: shown_upto_def screen_line_put less_Suc_eq)

lemma shown_fields:
  assumes "shown_upto s y t"
  shows "history_count t = history_count s" "history_start t = history_start s"
    "vga_history t = vga_history s" "vga_color t = vga_color s" "scroll_offset t = scroll_offset s"
  using assms by (auto simp: shown_upto_def)

lemma redraw_run:
  assumes "log_inv s" "0 \<le> scroll_offset s" "scroll_offset s \<le> vga_get_scroll_max s"
  shows "\<exists>s'. redraw_screen_from_history s = Inr s' \<and> vga_inv s' \<and>
    (\<forall>y < 25. screen_line (int y) s' = window_line y s) \<and> history s' = history s \<and>
    cursorx s' = 0 \<and> cursory s' = (if scroll_offset s = 0 then 24 else 0) \<and>
    scroll_offset s' = scroll_offset s \<and> vga_color s' = vga_color s"
proof -
  let ?n = "history_count s" and ?st = "int (window_start s)" and ?lines = "min 25 (history_count s)"
  have n: "0 \<le> ?n" using assms(1) by (simp add: log_inv_def)
  have st: "?st = (if ?n > 25 then ?n - 25 - scroll_offset s else 0)"
    using assms(2,3) n by (auto simp: window_start_def vga_get_scroll_max_def vga_sizes Let_def split: if_splits)
  let ?body = "\<lambda>y t. if ?st + int y \<ge> history_count t then blank_row (int y) t
    else foldE (\<lambda>x t'. bindE (hget (history_line_index (?st + int y) t * 80 + int x) t')
      (\<lambda>c. vput (int y * 80 + int x) c t')) [0..<80] t"
  have body: "\<exists>t'. ?body y t = Inr t' \<and> shown_upto s (Suc y) t'" if "y < nat ?lines" "shown_upto s y t" for y t
  proof -
    have lt: "?st + int y < ?n" "y < 25" using that(1) st n assms(2) by (auto split: if_splits)
    have idx: "history_line_index (?st + int y) t = history_line_index (?st + int y) s"
      by (simp add: history_line_index_def shown_fields [OF that(2)])
    note h = history_nth [OF assms(1) _ lt(1)]
    have "map (\<lambda>x. vga_history s (history_line_index (?st + int y) s * 80 + int x)) [0..<80] = window_line y s"
      using h(1) lt by (simp add: window_line_def nat_add_distrib) linarith
    note step = shown_Suc [OF that(2) this]
    show ?thesis using lt h step by (simp add: shown_fields [OF that(2)] idx show_line_run)
  qed
  have "\<exists>t. foldE ?body [0..<nat ?lines] s = Inr t \<and> shown_upto s (nat ?lines) t"
    by (rule foldE_inv) (use body in \<open>auto simp: shown_upto_def intro: exI [of _ "vbuf s"]\<close>)
  then obtain t1 where t1: "foldE ?body [0..<nat ?lines] s = Inr t1" "shown_upto s (nat ?lines) t1" by blast
  have tail: "\<exists>t'. blank_row (int y) t = Inr t' \<and> shown_upto s (Suc y) t'"
    if "nat ?lines \<le> y" "y < 25" "shown_upto s y t" for y t
  proof -
    have "map (\<lambda>_. blank s) [0..<80] = window_line y s"
      using that n by (simp add: window_line_def map_replicate_trivial min_def split: if_splits)
    from shown_Suc [OF that(3) this] that(2) show ?thesis
      by (simp add: blank_row_run shown_fields [OF that(3)])
  qed
  have "\<exists>t. foldE (\<lambda>y. blank_row (int y)) [nat ?lines..<25] t1 = Inr t \<and> shown_upto s 25 t"
    by (rule foldE_inv) (use tail t1 in auto)
  then obtain t2 where t2: "foldE (\<lambda>y. blank_row (int y)) [nat ?lines..<25] t1 = Inr t2" "shown_upto s 25 t2"
    by blast
  let ?s = "update_cursor (if scroll_offset t2 = 0 then t2\<lparr>cursorx := 0, cursory := 24\<rparr>
    else t2\<lparr>cursorx := 0, cursory := 0\<rparr>)"
  have "25 < ?n \<Longrightarrow> scroll_offset s \<le> ?n - 25"
    using assms(3) by (simp add: vga_get_scroll_max_def vga_sizes Let_def)
  then have e: "(if ?n < 25 then 0 else if 25 < ?n then if ?n - 25 - scroll_offset s < 0 then 0
      else ?n - 25 - scroll_offset s else 0) = ?st" "(if ?n < 25 then ?n else 25) = ?lines"
    using st by (cases "25 < ?n"; force)+
  have run: "redraw_screen_from_history s = Inr ?s"
    unfolding redraw_screen_from_history_def vga_sizes Let_def e using t1(1) t2(1) by (simp cong: if_cong)
  note f = shown_fields [OF t2(2)]
  have "vga_inv ?s" using assms f
    by (auto simp: vga_inv_def log_inv_def vga_get_scroll_max_def Let_def split: if_splits)
  moreover have "history ?s = history s" by (simp, rule conjI; rule impI; rule history_cong; simp add: f)
  moreover have "screen_line (int y) ?s = window_line y s" if "y < 25" for y
    using t2(2) that by (auto simp: shown_upto_def screen_line_def)
  ultimately show ?thesis unfolding run by (intro exI [of _ ?s]) (simp add: f)
qed

section \<open>Printing\<close>

lemma vput_run:
  assumes "0 \<le> x" "x < 80" "0 \<le> y" "y < 25"
  shows "vput (y * 80 + x) c s = Inr (s\<lparr>vbuf := (vbuf s)(y * 80 + x := c)\<rparr>)"
  using assms by (simp add: vput_def vga_sizes)

text \<open>
  \<open>vga_char\<close> before its last two steps: the cursor is in range but may be one line below the
  screen, and neither array index is out of bounds.
\<close>

definition cursor_ok :: "'a vga_scheme \<Rightarrow> bool" where
  "cursor_ok s \<longleftrightarrow> 0 \<le> cursorx s \<and> cursorx s < 80 \<and> 0 \<le> cursory s \<and> cursory s \<le> 25"

lemma cursor_update_order: "s\<lparr>cursorx := x, vbuf := b\<rparr> = s\<lparr>vbuf := b, cursorx := x\<rparr>"
  by simp

lemma vga_char_step:
  assumes "vga_inv s"
  shows "\<exists>b x y. cursor_ok (s\<lparr>vbuf := b, cursorx := x, cursory := y\<rparr>) \<and>
    vga_char c s = bindE (if 25 \<le> y then vga_scroll (s\<lparr>vbuf := b, cursorx := x, cursory := y\<rparr>)
      else Inr (s\<lparr>vbuf := b, cursorx := x, cursory := y\<rparr>)) (\<lambda>s. Inr (update_cursor s))"
proof -
  have r: "0 \<le> cursorx s" "cursorx s < 80" "0 \<le> cursory s" "cursory s < 25"
    using assms by (simp_all add: vga_inv_def)
  have I: "cursor_ok (s\<lparr>vbuf := b, cursorx := x, cursory := y\<rparr>) \<Longrightarrow>
    vga_char c s = bindE (if 25 \<le> y then vga_scroll (s\<lparr>vbuf := b, cursorx := x, cursory := y\<rparr>)
      else Inr (s\<lparr>vbuf := b, cursorx := x, cursory := y\<rparr>)) (\<lambda>s. Inr (update_cursor s)) \<Longrightarrow> ?thesis" for b x y
    by blast
  consider "c = LF" | "c = CR" | "c = CHR 0x08" "cursorx s > 0" | "c = CHR 0x08" "cursorx s = 0" "cursory s > 0"
    | "c = CHR 0x08" "cursorx s = 0" "cursory s = 0" | "c \<noteq> LF" "c \<noteq> CR" "c \<noteq> CHR 0x08"
    using r by force
  then show ?thesis
  proof cases
    case 1
    then show ?thesis using r
      by (intro I [where b = "vbuf s" and x = 0 and y = "cursory s + 1"])
        (simp_all add: vga_char_def cursor_ok_def vga_sizes)
  next
    case 2
    then show ?thesis using r
      by (intro I [where b = "vbuf s" and x = 0 and y = "cursory s"])
        (simp_all add: vga_char_def cursor_ok_def vga_sizes LF_def CR_def)
  next
    case 3
    then show ?thesis using r
      by (intro I [where b = "(vbuf s)(cursory s * 80 + (cursorx s - 1) := blank s)" and x = "cursorx s - 1" and y = "cursory s"])
        (simp_all add: vga_char_def cursor_ok_def vga_sizes LF_def CR_def vput_run Let_def cursor_update_order)
  next
    case 4
    have "vput (cursory s * 80 - 1) (blank s) (s\<lparr>cursory := cursory s - 1, cursorx := 79\<rparr>) =
        Inr (s\<lparr>vbuf := (vbuf s)(cursory s * 80 - 1 := blank s), cursorx := 79, cursory := cursory s - 1\<rparr>)"
      using r 4 by (cases s) (simp add: vput_def vga_sizes)
    then show ?thesis using r 4
      by (intro I [where b = "(vbuf s)(cursory s * 80 - 1 := blank s)" and x = 79 and y = "cursory s - 1"])
        (simp_all add: vga_char_def cursor_ok_def vga_sizes LF_def CR_def Let_def)
  next
    case 5
    have e: "s\<lparr>vbuf := vbuf s, cursorx := 0, cursory := 0\<rparr> = s" using 5 by (cases s) simp
    have run: "vga_char c s = Inr (update_cursor s)"
      using 5 by (simp add: vga_char_def vga_sizes LF_def CR_def)
    have ok: "cursor_ok s" using r 5 by (simp add: cursor_ok_def)
    show ?thesis
      by (rule I [where b = "vbuf s" and x = 0 and y = 0]; unfold e run) (rule ok, simp)
  next
    case 6
    let ?b = "(vbuf s)(cursory s * 80 + cursorx s := vga_entry c (vga_color s))"
    show ?thesis
    proof (cases "cursorx s = 79")
      case True
      then show ?thesis using r 6
        by (intro I [where b = ?b and x = 0 and y = "cursory s + 1"])
          (simp_all add: vga_char_def cursor_ok_def vga_sizes vput_run Let_def)
    next
      case False
      then show ?thesis using r 6
        by (intro I [where b = ?b and x = "cursorx s + 1" and y = "cursory s"])
          (simp_all add: vga_char_def cursor_ok_def vga_sizes vput_run Let_def)
    qed
  qed
qed

lemma last_n_all: "length xs \<le> n \<Longrightarrow> last_n n xs = xs"
  by (simp add: last_n_def)

lemma last_n_append: "last_n n (last_n n xs @ ys) = last_n n (xs @ ys)"
  by (cases "length xs \<le> n") (auto simp: last_n_def add.commute)

lemma history_self: "vga_inv s \<Longrightarrow> last_n 10000 (history s) = history s"
  by (auto simp: last_n_all length_history log_inv_def vga_inv_def)

lemma vga_char_run:
  assumes "vga_inv s"
  shows "\<exists>s' ls. vga_char c s = Inr s' \<and> vga_inv s' \<and> history s' = last_n 10000 (history s @ ls)"
proof -
  obtain b x y where ok: "cursor_ok (s\<lparr>vbuf := b, cursorx := x, cursory := y\<rparr>)"
    and run: "vga_char c s = bindE (if 25 \<le> y then vga_scroll (s\<lparr>vbuf := b, cursorx := x, cursory := y\<rparr>)
      else Inr (s\<lparr>vbuf := b, cursorx := x, cursory := y\<rparr>)) (\<lambda>s. Inr (update_cursor s))"
    using vga_char_step [OF assms] by blast
  let ?s = "s\<lparr>vbuf := b, cursorx := x, cursory := y\<rparr>"
  have li: "log_inv ?s" using assms by (simp add: vga_inv_def log_inv_def)
  have h: "history ?s = history s" by (rule history_cong) simp_all
  show ?thesis
  proof (cases "25 \<le> y")
    case True
    from vga_scroll_run [OF li] show ?thesis unfolding run h using True by auto
  next
    case False
    then have "vga_inv ?s"
      using assms ok by (simp add: vga_inv_def log_inv_def cursor_ok_def vga_get_scroll_max_def)
    moreover have "history ?s = last_n 10000 (history s @ [])"
      unfolding h using assms by (simp add: history_self)
    ultimately show ?thesis unfolding run using False by (intro exI [of _ "update_cursor ?s"] exI [of _ "[]"]) simp
  qed
qed

lemma vga_print_run:
  "vga_inv s \<Longrightarrow> \<exists>s' ls. vga_print str s = Inr s' \<and> vga_inv s' \<and> history s' = last_n 10000 (history s @ ls)"
proof (induction str arbitrary: s)
  case Nil
  then show ?case by (intro exI [of _ s] exI [of _ "[]"]) (simp add: history_self)
next
  case (Cons c str)
  obtain t ls where t: "vga_char c s = Inr t" "vga_inv t" "history t = last_n 10000 (history s @ ls)"
    using vga_char_run [OF Cons.prems] by blast
  obtain u ls' where u: "vga_print str t = Inr u" "vga_inv u" "history u = last_n 10000 (history t @ ls')"
    using Cons.IH [OF t(2)] by blast
  have "history u = last_n 10000 (history s @ (ls @ ls'))" using u(3) t(3) by (simp add: last_n_append)
  moreover have "history s = last_n 10000 (history s @ [])"
    using Cons.prems by (simp add: history_self)
  ultimately show ?case
    using t(1) u(1,2) Cons.prems
    by (cases "c = CHR 0x00", intro exI [of _ s] exI [of _ "[]"], simp, intro exI [of _ u] exI [of _ "ls @ ls'"], simp)
qed

definition plain :: "char \<Rightarrow> bool" where
  "plain c \<longleftrightarrow> c \<notin> {CHR 0x00, CHR 0x08, LF, CR}"

lemma put_row_Cons: "put_row (a + 1) n (\<lambda>x. f (Suc x)) (b(a := f 0)) = put_row a (Suc n) f b"
proof
  fix i
  have "a + 1 \<le> i \<Longrightarrow> f (Suc (nat (i - (a + 1)))) = f (nat (i - a))"
    by (rule arg_cong [of _ _ f]) linarith
  then show "put_row (a + 1) n (\<lambda>x. f (Suc x)) (b(a := f 0)) i = put_row a (Suc n) f b i"
    by (auto simp: put_row_def)
qed

lemma vga_char_plain:
  assumes "vga_inv s" "plain c" "cursorx s < 79"
  shows "vga_char c s = Inr (update_cursor (s\<lparr>vbuf := (vbuf s)(cursory s * 80 + cursorx s := vga_entry c (vga_color s)),
    cursorx := cursorx s + 1\<rparr>))"
  using assms by (simp add: vga_char_def plain_def vga_inv_def vput_run vga_sizes Let_def)

lemma vga_inv_moved:
  assumes "vga_inv s" "0 \<le> x" "x < 80"
  shows "vga_inv (s\<lparr>vbuf := b, cursorx := x\<rparr>)" "history (s\<lparr>vbuf := b, cursorx := x\<rparr>) = history s"
  using assms by (simp add: vga_inv_def log_inv_def vga_get_scroll_max_def)
    (rule history_cong; simp)

lemma vga_print_plain:
  "vga_inv s \<Longrightarrow> list_all plain str \<Longrightarrow> cursorx s + int (length str) < 80 \<Longrightarrow>
   \<exists>s'. vga_print str s = Inr s' \<and> vga_inv s' \<and> cursorx s' = cursorx s + int (length str) \<and>
     cursory s' = cursory s \<and> history s' = history s \<and> vga_color s' = vga_color s \<and>
     vbuf s' = put_row (cursory s * 80 + cursorx s) (length str) (\<lambda>x. vga_entry (str ! x) (vga_color s)) (vbuf s)"
proof (induction str arbitrary: s)
  case Nil
  then show ?case by (simp add: put_row_0)
next
  case (Cons c str)
  let ?t = "s\<lparr>vbuf := (vbuf s)(cursory s * 80 + cursorx s := vga_entry c (vga_color s)), cursorx := cursorx s + 1\<rparr>"
  have r: "0 \<le> cursorx s" "cursorx s < 79" "plain c" "list_all plain str"
    using Cons.prems by (auto simp: vga_inv_def)
  have run: "vga_print (c # str) s = vga_print str (update_cursor ?t)"
    using vga_char_plain [OF Cons.prems(1) r(3,2)] r(3) by (simp add: plain_def)
  have i: "vga_inv (update_cursor ?t)" "history (update_cursor ?t) = history s"
    using vga_inv_moved [OF Cons.prems(1), of "cursorx s + 1"] r by simp_all
  have "cursorx (update_cursor ?t) + int (length str) < 80" using Cons.prems(3) by simp
  from Cons.IH [OF i(1) r(4) this] show ?case
    unfolding run i(2)
    using put_row_Cons [of "cursory s * 80 + cursorx s" "length str" "\<lambda>x. vga_entry ((c # str) ! x) (vga_color s)" "vbuf s"]
    by (auto simp: algebra_simps simp del: fun_upd_apply)
qed

section \<open>The screen and the history as one text\<close>

definition screen :: "'a vga_scheme \<Rightarrow> u16 list list" where
  "screen s = map (\<lambda>y. screen_line (int y) s) [0..<25]"

lemma last_n_split: "length ys = m \<Longrightarrow> last_n (k + m) (xs @ ys) = last_n k xs @ ys"
  by (simp add: last_n_def)

lemma scroll_text:
  assumes "\<forall>y. 0 \<le> y \<and> y < 24 \<longrightarrow> screen_line y s' = screen_line (y + 1) s" "screen_line 24 s' = l"
  shows "screen s @ [l] = screen_line 0 s # screen s'"
proof (rule nth_equalityI)
  fix i
  assume "i < length (screen s @ [l])"
  then have "i = 0 \<or> (1 \<le> i \<and> i < 25) \<or> i = 25" by (auto simp: screen_def)
  then show "(screen s @ [l]) ! i = (screen_line 0 s # screen s') ! i"
    using assms by (auto simp: screen_def nth_append nth_Cons' of_nat_diff)
qed (simp add: screen_def)

lemma window_text:
  assumes "log_inv s" "0 \<le> scroll_offset s"
  shows "map (\<lambda>y. window_line y s) [0..<25] =
    take 25 (drop (window_start s) (history s) @ replicate 25 (replicate 80 (blank s)))"
proof (rule nth_equalityI)
  fix y
  assume "y < length (map (\<lambda>y. window_line y s) [0..<25])"
  then have y: "y < 25" by simp
  then show "map (\<lambda>y. window_line y s) [0..<25] ! y =
      take 25 (drop (window_start s) (history s) @ replicate 25 (replicate 80 (blank s))) ! y"
    by (cases "y < nat (history_count s)")
      (auto simp: window_line_def window_start_def nth_append length_history)
qed simp

lemma window_nat: "0 \<le> a \<Longrightarrow> 0 \<le> b \<Longrightarrow> nat (a - 25 - b) = nat a - 25 - nat b"
  by linarith

lemma set_offset_run:
  assumes "vga_inv s"
  shows "\<exists>s'. vga_set_scroll_offset k s = Inr s' \<and> vga_inv s' \<and> history s' = history s \<and>
    scroll_offset s' = max 0 (min k (vga_get_scroll_max s)) \<and>
    screen s' = take 25 (drop (nat (history_count s - 25 - scroll_offset s')) (history s) @
      replicate 25 (replicate 80 (blank s)))"
proof -
  let ?k = "max 0 (min k (vga_get_scroll_max s))"
  let ?s = "s\<lparr>scroll_offset := ?k\<rparr>"
  have li: "log_inv ?s" and m: "vga_get_scroll_max ?s = vga_get_scroll_max s" "0 \<le> vga_get_scroll_max s"
    and h: "history ?s = history s"
    using assms by (auto simp: vga_inv_def log_inv_def vga_get_scroll_max_def Let_def intro: history_cong)
  have run: "vga_set_scroll_offset k s = redraw_screen_from_history ?s"
    by (simp add: vga_set_scroll_offset_def vga_get_scroll_max_def Let_def vga_sizes)
  have "0 \<le> scroll_offset ?s" "scroll_offset ?s \<le> vga_get_scroll_max ?s" using m by auto
  from redraw_run [OF li this] obtain s' where s': "redraw_screen_from_history ?s = Inr s'" "vga_inv s'"
      "\<forall>y < 25. screen_line (int y) s' = window_line y ?s" "history s' = history s" "scroll_offset s' = ?k"
    unfolding h by auto
  have "nat (history_count s - 25 - ?k) = window_start ?s"
    using window_nat [of "history_count s" ?k] assms
    by (simp add: window_start_def vga_inv_def log_inv_def)
  moreover have "screen s' = map (\<lambda>y. window_line y ?s) [0..<25]" using s'(3) by (simp add: screen_def)
  ultimately show ?thesis
    unfolding run using s' window_text [OF li] m(2) by (intro exI [of _ s']) (simp add: h)
qed

section \<open>Properties\<close>

text \<open>A screen with 30 lines of history, whose cursor is on the last line.\<close>

definition sample_vga :: vga where
  "sample_vga = \<lparr>vbuf = (\<lambda>_. 0x0720), vga_color = 7, cursorx = 0, cursory = 24, scroll_offset = 0,
     vga_history = (\<lambda>i. of_int (i div 80)), history_start = 0, history_count = 30, vports = []\<rparr>"

lemma sample_vga_inv: "vga_inv sample_vga"
  by (simp add: vga_inv_def log_inv_def sample_vga_def vga_get_scroll_max_def vga_sizes)

text \<open>
  C23. Printing is safe: from any state in which the cursor is on the screen and the history indices
  are in range, \<open>vga_print\<close> of any string, with line breaks, returns and backspaces anywhere in it,
  returns without leaving the two arrays and keeps the state so; to the history it only appends
  lines, of which the last 10000 are kept.
\<close>

theorem vga_print_safe:
  assumes "vga_inv s"
  shows "\<exists>s' ls. vga_print str s = Inr s' \<and> vga_inv s' \<and> history s' = last_n 10000 (history s @ ls)"
  using assms by (rule vga_print_run)

theorem vga_print_safe_witness:
  "\<exists>s'. vga_print [CHR 0x08, LF, CHR ''A'', CR] sample_vga = Inr s' \<and> vga_inv s'"
  using vga_print_safe [OF sample_vga_inv] by blast

text \<open>
  Plain text that fits on the rest of the line is written cell by cell from the cursor on in
  the current colours, moves the cursor by its length, and changes no other cell and no history.
\<close>

lemma vga_print_text:
  assumes "vga_inv s" "list_all plain str" "cursorx s + int (length str) < 80"
  shows "\<exists>s'. vga_print str s = Inr s' \<and> cursorx s' = cursorx s + int (length str) \<and> cursory s' = cursory s \<and>
    history s' = history s \<and>
    vbuf s' = put_row (cursory s * 80 + cursorx s) (length str) (\<lambda>x. vga_entry (str ! x) (vga_color s)) (vbuf s)"
  using vga_print_plain [OF assms] by blast

text \<open>
  C24. Scrolling loses nothing before the scroll-back is full: the history followed by the screen is
  one text, \<open>vga_scroll\<close> appends a blank line to it, and the text keeps its last 10025 lines.
\<close>

theorem vga_scroll_appends:
  assumes "vga_inv s"
  shows "\<exists>s'. vga_scroll s = Inr s' \<and> vga_inv s' \<and>
    history s' @ screen s' = last_n (10000 + 25) (history s @ screen s @ [replicate 80 (blank s)])"
proof -
  have "log_inv s" using assms by (simp add: vga_inv_def)
  from vga_scroll_run [OF this] obtain s' where s': "vga_scroll s = Inr s'" "vga_inv s'"
      "history s' = last_n 10000 (history s @ [screen_line 0 s])"
      "\<forall>y. 0 \<le> y \<and> y < 24 \<longrightarrow> screen_line y s' = screen_line (y + 1) s"
      "screen_line 24 s' = replicate 80 (blank s)" by blast
  have "history s @ screen s @ [replicate 80 (blank s)] = (history s @ [screen_line 0 s]) @ screen s'"
    using scroll_text [OF s'(4,5)] by simp
  moreover have "length (screen s') = 25" by (simp add: screen_def)
  ultimately show ?thesis using s'(1,2,3) last_n_split by metis
qed

theorem vga_scroll_appends_witness:
  "\<exists>s'. vga_scroll sample_vga = Inr s' \<and>
     history s' @ screen s' = last_n (10000 + 25) (history sample_vga @ screen sample_vga @ [replicate 80 0x0720])"
proof -
  have "blank sample_vga = 0x0720" by (simp add: sample_vga_def vga_entry_def)
  then show ?thesis using vga_scroll_appends [OF sample_vga_inv] by auto
qed

text \<open>
  C25. The scroll-back view: \<open>vga_set_scroll_offset k\<close> clamps \<open>k\<close> to the history and shows the 25
  history lines that end \<open>k\<close> lines before its end, padded with blank lines when there are fewer.
\<close>

theorem scroll_view:
  assumes "vga_inv s"
  shows "\<exists>s'. vga_set_scroll_offset k s = Inr s' \<and> vga_inv s' \<and> history s' = history s \<and>
    scroll_offset s' = max 0 (min k (vga_get_scroll_max s)) \<and>
    screen s' = take 25 (drop (nat (history_count s - 25 - scroll_offset s')) (history s) @
      replicate 25 (replicate 80 (blank s)))"
  using assms by (rule set_offset_run)

theorem scroll_view_witness:
  "\<exists>s'. vga_set_scroll_offset 99 sample_vga = Inr s' \<and> scroll_offset s' = 5 \<and>
     screen s' = take 25 (history sample_vga)"
  using scroll_view [OF sample_vga_inv, of 99]
  by (auto simp: sample_vga_def vga_get_scroll_max_def vga_sizes length_history)

text \<open>
  Scrolling back down does not restore the live screen: after one step up and one down the
  offset is 0 again, but the screen shows the last 25 lines that had already scrolled off, and the
  25 lines shown before are lost.
\<close>

lemma scroll_up_down:
  assumes "vga_inv s" "scroll_offset s = 0" "25 < history_count s"
  shows "\<exists>s1 s2. vga_scroll_up s = Inr s1 \<and> vga_scroll_down s1 = Inr s2 \<and> scroll_offset s2 = 0 \<and>
    history s2 = history s \<and> screen s2 = last_n 25 (history s)"
proof -
  have up: "vga_scroll_up s = vga_set_scroll_offset 1 s"
    using assms by (simp add: vga_scroll_up_def vga_set_scroll_offset_def vga_sizes Let_def)
  have max: "vga_get_scroll_max s = history_count s - 25"
    using assms(3) by (simp add: vga_get_scroll_max_def vga_sizes)
  obtain s1 where s1: "vga_set_scroll_offset 1 s = Inr s1" "vga_inv s1" "history s1 = history s" "scroll_offset s1 = 1"
    using set_offset_run [OF assms(1), of 1] assms(3) by (auto simp: max)
  have n: "history_count s1 = history_count s"
    using arg_cong [OF s1(3), of length] s1(2) assms(1) unfolding length_history
    by (auto simp: vga_inv_def log_inv_def)
  have down: "vga_scroll_down s1 = vga_set_scroll_offset 0 s1"
    using assms(3) n s1(4) by (simp add: vga_scroll_down_def vga_set_scroll_offset_def vga_sizes Let_def)
  obtain s2 where s2: "vga_set_scroll_offset 0 s1 = Inr s2" "history s2 = history s" "scroll_offset s2 = 0"
      "screen s2 = take 25 (drop (nat (history_count s - 25)) (history s) @ replicate 25 (replicate 80 (blank s1)))"
    using set_offset_run [OF s1(2), of 0] assms(3) n by (auto simp: s1 vga_get_scroll_max_def vga_sizes Let_def)
  have "nat (history_count s - 25) = length (history s) - 25" by (simp add: length_history nat_diff_distrib')
  moreover have "length (drop (length (history s) - 25) (history s)) = 25"
    using assms(3) by (simp add: length_history)
  ultimately have "screen s2 = last_n 25 (history s)" unfolding s2(4) by (simp add: last_n_def)
  then show ?thesis unfolding up using s1(1) s2 down by auto
qed

end
