(* ===== verification/Console.thy ===== *)
theory Console
  imports VGA Utils
begin

text \<open>
  \<open>Kernel/src/Include/serial.c\<close> and \<open>print.c\<close>: the two serial ports and the formatted printing
  that goes to the first of them and to the screen of \<open>VGA\<close>.

  What the line status register of a port shows at its n-th read is the field \<open>lsr\<close>; the busy
  wait of \<open>serial_write_char\<close> takes a fuel argument and is \<open>Inl No_Return\<close> when the transmitter
  has not become ready within that many reads.  The arguments of \<open>kprintf\<close> are a list; taking one
  that is missing or of the other kind is \<open>Inl Undefined_Behaviour\<close>, as is reading the local
  buffer before a number has been written to it.
\<close>

section \<open>State and operations\<close>

record console =
  screen_dev :: vga
  lsr :: "u16 \<Rightarrow> nat \<Rightarrow> u8"
  polls :: "u16 \<Rightarrow> nat"
  sent :: "(u16 \<times> u8) list"

definition BAUD_RATE :: u32 where "BAUD_RATE = 115200"

definition serial_outb :: "u16 \<Rightarrow> u8 \<Rightarrow> console \<Rightarrow> console" where
  "serial_outb port val s = s\<lparr>sent := sent s @ [(port, val)]\<rparr>"

definition serial_init :: "u16 \<Rightarrow> console \<Rightarrow> console" where
  "serial_init serial_port s =
     (let divisor = (ucast (115200 div BAUD_RATE) :: u16);
          divisor_low = (ucast (divisor AND 0xFF) :: u8);
          divisor_high = (ucast (drop_bit 8 divisor AND 0xFF) :: u8);
          s = serial_outb (serial_port + 1) 0x00 s;
          s = serial_outb (serial_port + 3) 0x80 s;
          s = serial_outb (serial_port + 0) divisor_low s;
          s = serial_outb (serial_port + 1) divisor_high s;
          s = serial_outb (serial_port + 2) 0xC7 s;
          s = serial_outb (serial_port + 4) 0x0B s
      in serial_outb (serial_port + 3) 0x03 s)"

definition serial_status :: "u16 \<Rightarrow> console \<Rightarrow> u8 \<times> console" where
  "serial_status port s = (lsr s port (polls s port), s\<lparr>polls := (polls s)(port := polls s port + 1)\<rparr>)"

primrec serial_wait :: "nat \<Rightarrow> u16 \<Rightarrow> console \<Rightarrow> fault + console" where
  "serial_wait 0 port s = Inl No_Return"
| "serial_wait (Suc fuel) port s =
     (let (b, s) = serial_status (port + 5) s in if b AND 0x20 = 0 then serial_wait fuel port s else Inr s)"

definition serial_write_char :: "nat \<Rightarrow> u16 \<Rightarrow> char \<Rightarrow> console \<Rightarrow> fault + console" where
  "serial_write_char fuel port c s =
     bindE (serial_wait fuel port s) (\<lambda>s. Inr (serial_outb (port + 0) (of_char c) s))"

fun serial_write_string :: "nat \<Rightarrow> u16 \<Rightarrow> string \<Rightarrow> console \<Rightarrow> fault + console" where
  "serial_write_string fuel port [] s = Inr s"
| "serial_write_string fuel port (c # str) s =
     (if c = CHR 0x00 then Inr s
      else bindE (serial_write_char fuel port c s) (serial_write_string fuel port str))"

definition serial_write_line :: "nat \<Rightarrow> u16 \<Rightarrow> string \<Rightarrow> console \<Rightarrow> fault + console" where
  "serial_write_line fuel port str s =
     bindE (serial_write_string fuel port str s) (\<lambda>s.
     bindE (serial_write_char fuel port CR s) (\<lambda>s.
     serial_write_char fuel port LF s))"

text \<open>A call of an operation of the screen.\<close>

definition on_screen :: "(vga \<Rightarrow> fault + vga) \<Rightarrow> console \<Rightarrow> fault + console" where
  "on_screen f s = bindE (f (screen_dev s)) (\<lambda>v. Inr (s\<lparr>screen_dev := v\<rparr>))"

definition print :: "nat \<Rightarrow> string \<Rightarrow> console \<Rightarrow> fault + console" where
  "print fuel str s =
     bindE (serial_write_string fuel COM1_PORT str s) (\<lambda>s.
     bindE (serial_write_string fuel COM2_PORT str s) (\<lambda>s.
     on_screen (vga_print str) s))"

definition printl :: "nat \<Rightarrow> string \<Rightarrow> console \<Rightarrow> fault + console" where
  "printl fuel str s =
     bindE (serial_write_line fuel COM1_PORT str s) (\<lambda>s.
     bindE (serial_write_line fuel COM2_PORT str s) (\<lambda>s.
     bindE (on_screen (vga_print str) s) (\<lambda>s.
     bindE (on_screen (vga_char CR) s) (\<lambda>s.
     on_screen (vga_char LF) s))))"

definition printc :: "nat \<Rightarrow> char \<Rightarrow> console \<Rightarrow> fault + console" where
  "printc fuel charact s =
     bindE (serial_write_char fuel COM1_PORT charact s) (\<lambda>s.
     bindE (serial_write_char fuel COM2_PORT charact s) (\<lambda>s.
     on_screen (vga_char charact) s))"

definition printh :: "nat \<Rightarrow> u32 \<Rightarrow> console \<Rightarrow> fault + console" where
  "printh fuel hex s = print fuel (hex_to_str hex) s"

text \<open>
  \<open>va_arg\<close>: the next argument as a 32-bit value or as a string, and the arguments after it.  The
  buffer is \<open>None\<close> until a number has been written to it.
\<close>

fun arg_word :: "arg list \<Rightarrow> fault + u32 \<times> arg list" where
  "arg_word (ArgW w # args) = Inr (w, args)"
| "arg_word args = Inl Undefined_Behaviour"

fun arg_str :: "arg list \<Rightarrow> fault + string \<times> arg list" where
  "arg_str (ArgS t # args) = Inr (t, args)"
| "arg_str args = Inl Undefined_Behaviour"

definition put_both :: "nat \<Rightarrow> char \<Rightarrow> console \<Rightarrow> fault + console" where
  "put_both fuel c s = bindE (serial_write_char fuel COM1_PORT c s) (\<lambda>s. on_screen (vga_char c) s)"

text \<open>The \<open>switch\<close> of \<open>kprintf\<close> on the character \<open>f\<close> after a percent sign.\<close>

definition kprintf_conv :: "nat \<Rightarrow> char \<Rightarrow> string option \<Rightarrow> arg list \<Rightarrow> console \<Rightarrow>
    fault + string option \<times> arg list \<times> console" where
  "kprintf_conv fuel f buffer args s =
     (if f = CHR ''d'' \<or> f = CHR ''i'' \<or> f = CHR ''u'' then
        bindE (arg_word args) (\<lambda>(v, args). bindE (itoaE v 10) (\<lambda>b.
        bindE (serial_write_string fuel COM1_PORT b s) (\<lambda>s. Inr (Some b, args, s))))
      else if f = CHR ''x'' then
        bindE (arg_word args) (\<lambda>(v, args).
        bindE (serial_write_string fuel COM1_PORT (hex_to_str v) s) (\<lambda>s. Inr (Some (hex_to_str v), args, s)))
      else if f = CHR ''p'' then
        bindE (arg_word args) (\<lambda>(v, args).
        bindE (serial_write_string fuel COM1_PORT ''0x'' s) (\<lambda>s.
        bindE (serial_write_string fuel COM1_PORT (hex_to_str v) s) (\<lambda>s. Inr (Some (hex_to_str v), args, s))))
      else if f = CHR ''s'' then
        bindE (arg_str args) (\<lambda>(t, args).
        bindE (serial_write_string fuel COM1_PORT t s) (\<lambda>s.
        bindE (on_screen (vga_print t) s) (\<lambda>s. Inr (buffer, args, s))))
      else if f = CHR ''c'' then
        bindE (arg_word args) (\<lambda>(v, args).
        bindE (serial_write_char fuel COM1_PORT (char_of (unat (v AND 0xFF))) s) (\<lambda>s. case buffer of
          None \<Rightarrow> Inl Undefined_Behaviour
        | Some b \<Rightarrow> bindE (on_screen (vga_print b) s) (\<lambda>s. Inr (buffer, args, s))))
      else if f = CHR ''%'' then
        bindE (put_both fuel (CHR ''%'') s) (\<lambda>s. Inr (buffer, args, s))
      else
        bindE (serial_write_char fuel COM1_PORT (CHR ''%'') s) (\<lambda>s.
        bindE (serial_write_char fuel COM1_PORT f s) (\<lambda>s.
        bindE (on_screen (vga_char (CHR ''%'')) s) (\<lambda>s.
        bindE (on_screen (vga_char f) s) (\<lambda>s. Inr (buffer, args, s))))))"

text \<open>
  The loop over the format, which the list holds up to its NUL.  After a percent sign at the end
  the switch sees the NUL, and the step after it leaves the string.
\<close>

fun kprintf_loop :: "nat \<Rightarrow> string \<Rightarrow> string option \<Rightarrow> arg list \<Rightarrow> console \<Rightarrow> fault + console" where
  "kprintf_loop fuel [] buffer args s = Inr s"
| "kprintf_loop fuel [c] buffer args s =
     (if c = CHR ''%'' then bindE (kprintf_conv fuel (CHR 0x00) buffer args s) (\<lambda>_. Inl Undefined_Behaviour)
      else put_both fuel c s)"
| "kprintf_loop fuel (c # f # format) buffer args s =
     (if c = CHR ''%''
      then bindE (kprintf_conv fuel f buffer args s) (\<lambda>(buffer, args, s). kprintf_loop fuel format buffer args s)
      else bindE (put_both fuel c s) (kprintf_loop fuel (f # format) buffer args))"

definition kprintf :: "nat \<Rightarrow> string \<Rightarrow> arg list \<Rightarrow> console \<Rightarrow> fault + console" where
  "kprintf fuel format args s = kprintf_loop fuel format None args s"

section \<open>Writing to a port whose transmitter becomes ready\<close>

text \<open>From every read of its status on, the transmitter of every port is ready within \<open>fuel\<close> reads.\<close>

definition uart_ready :: "nat \<Rightarrow> (u16 \<Rightarrow> nat \<Rightarrow> u8) \<Rightarrow> bool" where
  "uart_ready fuel l \<longleftrightarrow> (\<forall>port n. \<exists>k < fuel. l port (n + k) AND 0x20 \<noteq> 0)"

definition no_nul :: "string \<Rightarrow> bool" where
  "no_nul str \<longleftrightarrow> CHR 0x00 \<notin> set str"

lemma no_nul_simps [simp]:
  "no_nul []" "no_nul (c # str) \<longleftrightarrow> c \<noteq> CHR 0x00 \<and> no_nul str" "no_nul (xs @ ys) \<longleftrightarrow> no_nul xs \<and> no_nul ys"
  by (auto simp: no_nul_def)

definition port_bytes :: "u16 \<Rightarrow> string \<Rightarrow> (u16 \<times> u8) list" where
  "port_bytes port str = map (\<lambda>c. (port, of_char c)) str"

text \<open>
  \<open>s'\<close> is \<open>s\<close> after the bytes \<open>bs\<close> went to the ports and the text \<open>txt\<close> to the screen.
\<close>

definition wrote :: "console \<Rightarrow> (u16 \<times> u8) list \<Rightarrow> string \<Rightarrow> console \<Rightarrow> bool" where
  "wrote s bs txt s' \<longleftrightarrow> lsr s' = lsr s \<and> sent s' = sent s @ bs \<and>
     vga_print txt (screen_dev s) = Inr (screen_dev s') \<and> vga_inv (screen_dev s')"

lemma vga_print_append:
  "no_nul xs \<Longrightarrow> vga_print (xs @ ys) s = bindE (vga_print xs s) (vga_print ys)"
  by (induction xs arbitrary: s) (auto simp: bindE_def split: sum.splits)

lemma wrote_trans:
  "wrote s bs txt s1 \<Longrightarrow> wrote s1 bs' txt' s2 \<Longrightarrow> no_nul txt \<Longrightarrow> wrote s (bs @ bs') (txt @ txt') s2"
  by (auto simp: wrote_def vga_print_append)

lemma serial_wait_run:
  "k < fuel \<Longrightarrow> lsr s (port + 5) (polls s (port + 5) + k) AND 0x20 \<noteq> 0 \<Longrightarrow>
   \<exists>p. serial_wait fuel port s = Inr (s\<lparr>polls := p\<rparr>)"
proof (induction fuel arbitrary: k s)
  case 0
  then show ?case by simp
next
  case (Suc fuel)
  let ?t = "snd (serial_status (port + 5) s)"
  show ?case
  proof (cases "lsr s (port + 5) (polls s (port + 5)) AND 0x20 = 0")
    case True
    then obtain j where k: "k = Suc j" using Suc.prems(2) by (cases k) auto
    have "\<exists>p. serial_wait fuel port ?t = Inr (?t\<lparr>polls := p\<rparr>)"
      by (rule Suc.IH [of j]) (use Suc.prems k in \<open>simp_all add: serial_status_def\<close>)
    then show ?thesis using True by (simp add: serial_status_def)
  qed (auto simp: serial_status_def)
qed

lemma write_char_run:
  assumes "uart_ready fuel (lsr s)" "vga_inv (screen_dev s)"
  shows "\<exists>s'. serial_write_char fuel port c s = Inr s' \<and> wrote s (port_bytes port [c]) [] s'"
proof -
  obtain k where "k < fuel" "lsr s (port + 5) (polls s (port + 5) + k) AND 0x20 \<noteq> 0"
    using assms(1) unfolding uart_ready_def by blast
  from serial_wait_run [OF this] assms(2) show ?thesis
    by (auto simp: serial_write_char_def wrote_def port_bytes_def serial_outb_def)
qed

lemma wrote_keeps:
  assumes "wrote s bs txt s'"
  shows "lsr s' = lsr s" "vga_inv (screen_dev s')"
  using assms by (simp_all add: wrote_def)

lemma write_string_run:
  assumes "uart_ready fuel (lsr s)" "vga_inv (screen_dev s)" "no_nul str"
  shows "\<exists>s'. serial_write_string fuel port str s = Inr s' \<and> wrote s (port_bytes port str) [] s'"
  using assms
proof (induction str arbitrary: s)
  case Nil
  then show ?case by (simp add: wrote_def port_bytes_def)
next
  case (Cons c str)
  obtain t where t: "serial_write_char fuel port c s = Inr t" "wrote s (port_bytes port [c]) [] t"
    using write_char_run [OF Cons.prems(1,2)] by blast
  have p: "uart_ready fuel (lsr t)" "vga_inv (screen_dev t)" "no_nul str"
    using wrote_keeps [OF t(2)] Cons.prems by simp_all
  obtain u where u: "serial_write_string fuel port str t = Inr u" "wrote t (port_bytes port str) [] u"
    using Cons.IH [OF p] by blast
  from wrote_trans [OF t(2) u(2)] t(1) u(1) Cons.prems(3) show ?case by (simp add: port_bytes_def)
qed

lemma on_screen_run:
  assumes "vga_inv (screen_dev s)"
  shows "\<exists>s'. on_screen (vga_print str) s = Inr s' \<and> wrote s [] str s'"
proof -
  obtain v where "vga_print str (screen_dev s) = Inr v" "vga_inv v"
    using vga_print_run [OF assms] by blast
  then show ?thesis by (simp add: on_screen_def wrote_def)
qed

lemma vga_char_print: "c \<noteq> CHR 0x00 \<Longrightarrow> vga_char c = vga_print [c]"
  by (auto simp: fun_eq_iff bindE_def split: sum.splits)

section \<open>What a format stands for\<close>

definition dec_text :: "u32 \<Rightarrow> string" where
  "dec_text w = (if sint w < 0 then ''-'' else []) @ rev (digits_of 10 (nat \<bar>sint w\<bar>))"

text \<open>
  The text a conversion sends to the port, the text it shows on the screen, and the arguments left;
  \<open>None\<close> where \<open>kprintf\<close> reads what is not there, and for \<open>%c\<close>, whose screen output is the local
  buffer and not the character.
\<close>

fun conv_text :: "char \<Rightarrow> arg list \<Rightarrow> (string \<times> string \<times> arg list) option" where
  "conv_text f args =
     (if f = CHR ''d'' \<or> f = CHR ''i'' \<or> f = CHR ''u''
      then (case args of ArgW w # rest \<Rightarrow> Some (dec_text w, [], rest) | _ \<Rightarrow> None)
      else if f = CHR ''x'' then (case args of ArgW w # rest \<Rightarrow> Some (hex_to_str w, [], rest) | _ \<Rightarrow> None)
      else if f = CHR ''p'' then (case args of ArgW w # rest \<Rightarrow> Some (''0x'' @ hex_to_str w, [], rest) | _ \<Rightarrow> None)
      else if f = CHR ''s''
      then (case args of ArgS t # rest \<Rightarrow> if no_nul t then Some (t, t, rest) else None | _ \<Rightarrow> None)
      else if f = CHR ''c'' then None
      else if f = CHR ''%'' then Some (''%'', ''%'', args)
      else Some ([CHR ''%'', f], [CHR ''%'', f], args))"

fun format_text :: "string \<Rightarrow> arg list \<Rightarrow> (string \<times> string) option" where
  "format_text [] args = Some ([], [])"
| "format_text [c] args = (if c = CHR ''%'' then None else Some ([c], [c]))"
| "format_text (c # f # format) args =
     (if c = CHR ''%''
      then (case conv_text f args of None \<Rightarrow> None | Some (t, v, rest) \<Rightarrow>
        (case format_text format rest of None \<Rightarrow> None | Some (t', v') \<Rightarrow> Some (t @ t', v @ v')))
      else (case format_text (f # format) args of None \<Rightarrow> None | Some (t', v') \<Rightarrow> Some (c # t', c # v')))"

lemma no_nul_dec: "no_nul (dec_text w)"
proof -
  have "\<forall>d \<in> set [0..<36]. digit_chr d \<noteq> CHR 0x00" by code_simp
  then have "c \<noteq> CHR 0x00" if "c \<in> set (digits_of 10 n)" for c n
    using digits_of_chars [OF _ _ that] by auto
  then show ?thesis by (auto simp: no_nul_def dec_text_def)
qed

lemma no_nul_hex: "no_nul (hex_to_str w)"
proof -
  have "\<forall>k \<in> set [0..<16]. hex_digit (of_nat k) \<noteq> CHR 0x00" by code_simp
  from bspec [OF this, of "unat d" for d :: u32] have "hex_digit d \<noteq> CHR 0x00" if "d < 16" for d :: u32
    using that by (auto simp: word_less_nat_alt)
  then have "CHR 0x00 \<noteq> hex_digit (x AND 0xF)" for x :: u32 using nibble_less by metis
  then show ?thesis by (auto simp: no_nul_def hex_to_str_def)
qed

lemma no_nul_conv: "conv_text f args = Some (t, v, rest) \<Longrightarrow> f \<noteq> CHR 0x00 \<Longrightarrow> no_nul t \<and> no_nul v"
  by (auto simp: no_nul_dec no_nul_hex split: if_splits list.splits arg.splits)

section \<open>How kprintf runs\<close>

text \<open>One step that writes, and what a chain of such steps writes.\<close>

definition writes :: "nat \<Rightarrow> (console \<Rightarrow> fault + console) \<Rightarrow> (u16 \<times> u8) list \<Rightarrow> string \<Rightarrow> bool" where
  "writes fuel f bs txt \<longleftrightarrow> no_nul txt \<and> (\<forall>s. uart_ready fuel (lsr s) \<longrightarrow> vga_inv (screen_dev s) \<longrightarrow>
     (\<exists>s'. f s = Inr s' \<and> wrote s bs txt s'))"

lemma writes_bind:
  assumes "writes fuel f bs txt" "writes fuel g bs' txt'"
  shows "writes fuel (\<lambda>s. bindE (f s) g) (bs @ bs') (txt @ txt')"
  unfolding writes_def
proof (intro conjI allI impI)
  show "no_nul (txt @ txt')" using assms by (simp add: writes_def)
next
  fix s :: console
  assume r: "uart_ready fuel (lsr s)" "vga_inv (screen_dev s)"
  obtain s1 where s1: "f s = Inr s1" "wrote s bs txt s1" using assms(1) r by (auto simp: writes_def)
  then have "uart_ready fuel (lsr s1)" "vga_inv (screen_dev s1)" using r by (simp_all add: wrote_keeps)
  then obtain s2 where "g s1 = Inr s2" "wrote s1 bs' txt' s2" using assms(2) by (auto simp: writes_def)
  with s1 wrote_trans [OF s1(2)] assms(1)
  show "\<exists>s'. bindE (f s) g = Inr s' \<and> wrote s (bs @ bs') (txt @ txt') s'" by (auto simp: writes_def)
qed

lemma writes_char: "writes fuel (serial_write_char fuel port c) (port_bytes port [c]) []"
  using write_char_run by (simp add: writes_def)

lemma writes_string: "no_nul str \<Longrightarrow> writes fuel (serial_write_string fuel port str) (port_bytes port str) []"
  using write_string_run by (simp add: writes_def)

lemma writes_screen: "no_nul str \<Longrightarrow> writes fuel (on_screen (vga_print str)) [] str"
  using on_screen_run by (simp add: writes_def)

lemma writes_screen_char: "c \<noteq> CHR 0x00 \<Longrightarrow> writes fuel (on_screen (vga_char c)) [] [c]"
  unfolding vga_char_print by (rule writes_screen) simp

lemma writesD:
  assumes "writes fuel f bs txt" "uart_ready fuel (lsr s)" "vga_inv (screen_dev s)"
  obtains s' where "f s = Inr s'" "wrote s bs txt s'"
  using assms by (auto simp: writes_def)

lemmas writes_intros = writes_char writes_string writes_screen writes_screen_char

lemma writes_both: "c \<noteq> CHR 0x00 \<Longrightarrow> writes fuel (put_both fuel c) (port_bytes COM1_PORT [c]) [c]"
  using writes_bind [OF writes_char writes_screen_char, of c fuel COM1_PORT c] by (simp add: put_both_def [abs_def])

text \<open>Each conversion is a step that writes its two texts.\<close>

lemma conv_run:
  assumes "conv_text f args = Some (t, v, rest)" "f \<noteq> CHR 0x00"
  obtains g b where "writes fuel g (port_bytes COM1_PORT t) v"
    "\<And>s. kprintf_conv fuel f buffer args s = bindE (g s) (\<lambda>s. Inr (b, rest, s))"
proof -
  let ?str = "serial_write_string fuel COM1_PORT" and ?chr = "serial_write_char fuel COM1_PORT"
  consider w where "f = CHR ''d'' \<or> f = CHR ''i'' \<or> f = CHR ''u''" "args = ArgW w # rest" "t = dec_text w" "v = []"
    | w where "f = CHR ''x''" "args = ArgW w # rest" "t = hex_to_str w" "v = []"
    | w where "f = CHR ''p''" "args = ArgW w # rest" "t = ''0x'' @ hex_to_str w" "v = []"
    | "f = CHR ''s''" "args = ArgS t # rest" "v = t" "no_nul t"
    | "f = CHR ''%''" "args = rest" "t = ''%''" "v = ''%''"
    | "f \<notin> set ''diuxpsc%''" "args = rest" "t = [CHR ''%'', f]" "v = [CHR ''%'', f]"
    using assms(1) by (auto split: if_splits list.splits arg.splits)
  then show thesis
  proof cases
    case (1 w)
    have "itoaE w 10 = Inr t" using 1 by (simp add: itoaE_10 dec_text_def)
    with 1 show thesis
      by (intro that [of "?str t" "Some t"]) (auto simp: kprintf_conv_def no_nul_dec intro: writes_intros)
  next
    case (2 w)
    then show thesis
      by (intro that [of "?str t" "Some t"]) (auto simp: kprintf_conv_def no_nul_hex intro: writes_intros)
  next
    case (3 w)
    have "writes fuel (\<lambda>s. bindE (?str ''0x'' s) (?str (hex_to_str w)))
        (port_bytes COM1_PORT ''0x'' @ port_bytes COM1_PORT (hex_to_str w)) ([] @ [])"
      by (intro writes_bind writes_string no_nul_hex) simp
    with 3 show thesis
      by (intro that [of "\<lambda>s. bindE (?str ''0x'' s) (?str (hex_to_str w))" "Some (hex_to_str w)"])
        (simp_all add: kprintf_conv_def port_bytes_def bindE_assoc)
  next
    case 4
    have "writes fuel (\<lambda>s. bindE (?str t s) (on_screen (vga_print t))) (port_bytes COM1_PORT t @ []) ([] @ t)"
      by (intro writes_bind writes_intros 4)
    with 4 show thesis
      by (intro that [of "\<lambda>s. bindE (?str t s) (on_screen (vga_print t))" buffer])
        (simp_all add: kprintf_conv_def bindE_assoc)
  next
    case 5
    then show thesis
      using writes_both [of "CHR ''%''" fuel]
      by (intro that [of "put_both fuel (CHR ''%'')" buffer]) (simp_all add: kprintf_conv_def)
  next
    case 6
    let ?g = "\<lambda>s. bindE (?chr (CHR ''%'') s) (\<lambda>s. bindE (?chr f s) (\<lambda>s.
      bindE (on_screen (vga_char (CHR ''%'')) s) (on_screen (vga_char f))))"
    have "writes fuel ?g (port_bytes COM1_PORT ''%'' @ port_bytes COM1_PORT [f] @ [] @ []) ([] @ [] @ ''%'' @ [f])"
      by (intro writes_bind writes_char writes_screen_char assms(2)) simp
    with 6 show thesis
      by (intro that [of ?g buffer]) (simp_all add: kprintf_conv_def port_bytes_def bindE_assoc)
  qed
qed

lemma kprintf_loop_run:
  "format_text format args = Some (t, v) \<Longrightarrow> no_nul format \<Longrightarrow>
   writes fuel (kprintf_loop fuel format buffer args) (port_bytes COM1_PORT t) v"
proof (induction format args arbitrary: t v buffer rule: format_text.induct)
  case (1 args)
  then show ?case by (simp add: writes_def wrote_def port_bytes_def)
next
  case (2 c args)
  then have "kprintf_loop fuel [c] buffer args = put_both fuel c" "t = [c]" "v = [c]"
    by (auto simp: fun_eq_iff split: if_splits)
  then show ?case using writes_both [of c fuel] "2.prems"(2) by simp
next
  case (3 c f format args)
  show ?case
  proof (cases "c = CHR ''%''")
    case True
    obtain t1 v1 rest where c1: "conv_text f args = Some (t1, v1, rest)"
      using "3.prems" True by (auto simp del: conv_text.simps split: option.splits)
    then obtain t2 v2 where c2: "format_text format rest = Some (t2, v2)" "t = t1 @ t2" "v = v1 @ v2"
      using "3.prems" True by (auto simp del: conv_text.simps split: option.splits)
    have f: "f \<noteq> CHR 0x00" "no_nul format" using "3.prems"(2) by simp_all
    obtain g b where g: "writes fuel g (port_bytes COM1_PORT t1) v1"
        "\<And>s. kprintf_conv fuel f buffer args s = bindE (g s) (\<lambda>s. Inr (b, rest, s))"
      by (rule conv_run [where fuel = fuel and buffer = buffer, OF c1 f(1)]) (rule that)
    have "writes fuel (kprintf_loop fuel format b rest) (port_bytes COM1_PORT t2) v2"
      by (rule "3.IH"(1) [OF True c1 _ _ c2(1) f(2)]) simp_all
    moreover have "kprintf_loop fuel (c # f # format) buffer args =
        (\<lambda>s. bindE (g s) (kprintf_loop fuel format b rest))"
      using True by (simp add: fun_eq_iff g(2) bindE_assoc)
    ultimately show ?thesis using writes_bind [OF g(1)] c2 by (simp add: port_bytes_def)
  next
    case False
    then obtain t2 v2 where c2: "format_text (f # format) args = Some (t2, v2)" "t = c # t2" "v = c # v2"
      using "3.prems"(1) by (auto split: option.splits)
    have n: "c \<noteq> CHR 0x00" "no_nul (f # format)" using "3.prems"(2) by simp_all
    have "kprintf_loop fuel (c # f # format) buffer args =
        (\<lambda>s. bindE (put_both fuel c s) (kprintf_loop fuel (f # format) buffer args))"
      using False by (simp add: fun_eq_iff)
    then show ?thesis
      using writes_bind [OF writes_both [OF n(1)] "3.IH"(2) [OF False c2(1) n(2)]] c2
      by (simp add: port_bytes_def)
  qed
qed

lemma on_screen_char:
  assumes "vga_inv (screen_dev s)"
  shows "\<exists>s'. on_screen (vga_char c) s = Inr s' \<and> lsr s' = lsr s \<and> vga_inv (screen_dev s')"
proof -
  obtain v where "vga_char c (screen_dev s) = Inr v" "vga_inv v" using vga_char_run [OF assms] by blast
  then show ?thesis by (simp add: on_screen_def)
qed

lemma conv_nul:
  assumes "uart_ready fuel (lsr s)" "vga_inv (screen_dev s)"
  shows "\<exists>x. kprintf_conv fuel (CHR 0x00) buffer args s = Inr x"
proof -
  let ?chr = "serial_write_char fuel COM1_PORT"
  obtain s1 where s1: "?chr (CHR ''%'') s = Inr s1" "wrote s (port_bytes COM1_PORT ''%'') [] s1"
    using write_char_run [OF assms] by blast
  have r1: "uart_ready fuel (lsr s1)" "vga_inv (screen_dev s1)"
    using wrote_keeps [OF s1(2)] assms by simp_all
  obtain s2 where s2: "?chr (CHR 0x00) s1 = Inr s2" "wrote s1 (port_bytes COM1_PORT [CHR 0x00]) [] s2"
    using write_char_run [OF r1] by blast
  obtain s3 where s3: "on_screen (vga_char (CHR ''%'')) s2 = Inr s3" "vga_inv (screen_dev s3)"
    using on_screen_char [OF wrote_keeps(2) [OF s2(2)]] by blast
  obtain s4 where "on_screen (vga_char (CHR 0x00)) s3 = Inr s4" using on_screen_char [OF s3(2)] by blast
  then show ?thesis using s1(1) s2(1) s3(1) by (simp add: kprintf_conv_def)
qed

lemma kprintf_end_percent:
  "format_text format args = Some (t, v) \<Longrightarrow> no_nul format \<Longrightarrow> uart_ready fuel (lsr s) \<Longrightarrow> vga_inv (screen_dev s) \<Longrightarrow>
   kprintf_loop fuel (format @ ''%'') buffer args s = Inl Undefined_Behaviour"
proof (induction format args arbitrary: t v buffer s rule: format_text.induct)
  case (1 args)
  then show ?case using conv_nul [of fuel s buffer args] by auto
next
  case (2 c args)
  then have c: "c \<noteq> CHR ''%''" "c \<noteq> CHR 0x00" by (auto split: if_splits)
  obtain s1 where s1: "put_both fuel c s = Inr s1" "wrote s (port_bytes COM1_PORT [c]) [c] s1"
    using writesD [OF writes_both [OF c(2)] "2.prems"(3,4)] .
  have "uart_ready fuel (lsr s1)" "vga_inv (screen_dev s1)"
    using wrote_keeps [OF s1(2)] "2.prems"(3) by simp_all
  then show ?case using c s1(1) conv_nul [of fuel s1 buffer args] by auto
next
  case (3 c f format args)
  show ?case
  proof (cases "c = CHR ''%''")
    case True
    obtain t1 v1 rest where c1: "conv_text f args = Some (t1, v1, rest)"
      using "3.prems"(1) True by (auto simp del: conv_text.simps split: option.splits)
    then obtain t2 v2 where c2: "format_text format rest = Some (t2, v2)"
      using "3.prems"(1) True by (auto simp del: conv_text.simps split: option.splits)
    have f: "f \<noteq> CHR 0x00" "no_nul format" using "3.prems"(2) by simp_all
    obtain g b where g: "writes fuel g (port_bytes COM1_PORT t1) v1"
        "\<And>s. kprintf_conv fuel f buffer args s = bindE (g s) (\<lambda>s. Inr (b, rest, s))"
      by (rule conv_run [where fuel = fuel and buffer = buffer, OF c1 f(1)]) (rule that)
    obtain s1 where s1: "g s = Inr s1" "wrote s (port_bytes COM1_PORT t1) v1 s1"
      using writesD [OF g(1) "3.prems"(3,4)] .
    have "uart_ready fuel (lsr s1)" "vga_inv (screen_dev s1)"
      using wrote_keeps [OF s1(2)] "3.prems"(3) by simp_all
    from "3.IH"(1) [OF True c1 _ _ c2 f(2) this] show ?thesis using True g(2) s1(1) by simp
  next
    case False
    then obtain t2 v2 where c2: "format_text (f # format) args = Some (t2, v2)"
      using "3.prems"(1) by (auto split: option.splits)
    have n: "c \<noteq> CHR 0x00" "no_nul (f # format)" using "3.prems"(2) by simp_all
    obtain s1 where s1: "put_both fuel c s = Inr s1" "wrote s (port_bytes COM1_PORT [c]) [c] s1"
      using writesD [OF writes_both [OF n(1)] "3.prems"(3,4)] .
    have "uart_ready fuel (lsr s1)" "vga_inv (screen_dev s1)"
      using wrote_keeps [OF s1(2)] "3.prems"(3) by simp_all
    from "3.IH"(2) [OF False c2 n(2) this] show ?thesis using False s1(1) by simp
  qed
qed

section \<open>Properties\<close>

text \<open>A console over the screen of \<open>sample_vga\<close> whose ports are busy at every other read.\<close>

definition sample_console :: console where
  "sample_console = \<lparr>screen_dev = sample_vga, lsr = (\<lambda>_ n. if even n then 0x00 else 0x60), polls = (\<lambda>_. 0), sent = []\<rparr>"

lemma sample_console_ok: "uart_ready 2 (lsr sample_console)" "vga_inv (screen_dev sample_console)"
proof -
  have "\<exists>k < 2. (if even (n + k) then 0 else 0x60 :: u8) AND 0x20 \<noteq> 0" for n :: nat
    by (rule exI [of _ "if even n then 1 else 0"]) simp
  then show "uart_ready 2 (lsr sample_console)" by (simp add: uart_ready_def sample_console_def)
qed (simp add: sample_console_def sample_vga_inv)

text \<open>
  C21. Formatted output: for every format and arguments that fit it, \<open>kprintf\<close> returns, sends to the
  first port exactly the text the format stands for, numbers in decimal and hexadecimal included,
  and shows on the screen the same text without its numbers; \<open>format_text\<close> gives both texts.
\<close>

theorem kprintf_text:
  assumes "format_text format args = Some (t, v)" "no_nul format"
    and "uart_ready fuel (lsr s)" "vga_inv (screen_dev s)"
  shows "\<exists>s'. kprintf fuel format args s = Inr s' \<and> sent s' = sent s @ port_bytes COM1_PORT t \<and>
    vga_print v (screen_dev s) = Inr (screen_dev s') \<and> vga_inv (screen_dev s')"
  using kprintf_loop_run [OF assms(1,2)] assms(3,4) unfolding kprintf_def
  by (rule writesD) (auto simp: wrote_def)

theorem kprintf_text_witness:
  "\<exists>s'. kprintf 2 ''%s at %x: %d%%'' [ArgS ''page'', ArgW 0xB8000, ArgW (- 1)] sample_console = Inr s' \<and>
     sent s' = port_bytes COM1_PORT ''page at 0x000B8000: -1%''"
proof -
  have "format_text ''%s at %x: %d%%'' [ArgS ''page'', ArgW 0xB8000, ArgW (- 1)] =
      Some (''page at 0x000B8000: -1%'', ''page at : %'')"
    by code_simp
  moreover have "no_nul ''%s at %x: %d%%''" by simp
  ultimately show ?thesis
    using kprintf_text [OF _ _ sample_console_ok] by (fastforce simp: sample_console_def)
qed

text \<open>
  C22. Formats that read what is not there: a percent sign at the end, after any format that is in
  order, takes \<open>kprintf\<close> past the NUL of the format, and \<open>%c\<close> before any number prints the local
  buffer before anything was written to it.
\<close>

theorem kprintf_over_reads:
  assumes "uart_ready fuel (lsr s)" "vga_inv (screen_dev s)"
  shows "(format_text format args = Some (t, v) \<and> no_nul format \<longrightarrow>
      kprintf fuel (format @ ''%'') args s = Inl Undefined_Behaviour) \<and>
    kprintf fuel (''%c'' @ rest) (ArgW w # args') s = Inl Undefined_Behaviour"
proof (intro conjI impI)
  show "kprintf fuel (format @ ''%'') args s = Inl Undefined_Behaviour"
    if "format_text format args = Some (t, v) \<and> no_nul format"
    using kprintf_end_percent [OF _ _ assms] that by (simp add: kprintf_def)
  obtain s' where "serial_write_char fuel COM1_PORT (char_of (unat (w AND 0xFF))) s = Inr s'"
    using write_char_run [OF assms] by blast
  then show "kprintf fuel (''%c'' @ rest) (ArgW w # args') s = Inl Undefined_Behaviour"
    by (simp add: kprintf_def kprintf_conv_def)
qed

theorem kprintf_over_reads_witness:
  "kprintf 2 ''100%'' [] sample_console = Inl Undefined_Behaviour \<and>
   kprintf 2 ''%c'' [ArgW 65] sample_console = Inl Undefined_Behaviour"
proof -
  have "format_text ''100'' [] = Some (''100'', ''100'') \<and> no_nul ''100''" by simp
  then show ?thesis
    using kprintf_over_reads [OF sample_console_ok, of "''100''" "[]" "''100''" "''100''" "[]" 65 "[]"] by simp
qed

end
