(* ===== verification/Kernel.thy ===== *)
theory Kernel
  imports IDT Console
begin

text \<open>
  \<open>Kernel/src/kernel.c\<close>: the boot sequence \<open>k_init\<close> and the test \<open>test_vmm_heap\<close>, whose call is
  commented out.  \<open>inp\<close> gives the port reads of \<open>remap_pic\<close>.  The endless loop at the end of
  \<open>k_init\<close> is not part of the model.  A timer interrupt before \<open>ksleep\<close> would only advance the tick
  counter, which nothing reads before then; the function takes none.  How the boot sequence leaves the
  interrupt controllers and the timer is read off the events of its trace that program a device.
\<close>

section \<open>Operations\<close>

text \<open>The devices, up to the call of \<open>enable_sti\<close> and its message.\<close>

definition k_init_devices :: "link \<Rightarrow> (u16 \<Rightarrow> u8) \<Rightarrow> 'a intr_scheme \<Rightarrow> fault + 'a intr_scheme" where
  "k_init_devices l inp s =
     (let s = emit (Serial_Init COM1_PORT) s;
          s = emit Vga_Init s;
          s = emit (Vga_Colors VGA_LIGHT_GREY VGA_BLACK) s;
          s = emit (Vga_Print ''[INFO] [VGA] VGA READY'') s;
          s = emit (Serial_Line COM1_PORT ''[INFO] SERIAL READY'') s;
          s = emit (Serial_Line COM1_PORT ''[INFO] GDT FLUSHED'') s
      in bindE (idt_init l s) (\<lambda>s.
      let s = emit (Serial_Line COM1_PORT ''[INFO] Enabling PIC'') s;
          s = remap_pic inp s;
          s = emit (Serial_Line COM1_PORT ''[INFO] Enabling PIT'') s
      in bindE (init_pit 1000 s) (\<lambda>s.
      let s = emit (Serial_Line COM1_PORT ''[INFO] Enabling Interrupts'') s;
          s = enable_sti s
      in Inr (emit (Serial_Line COM1_PORT ''[INFO] Enabled STI'') s))))"

text \<open>The memory: the allocator, its self-test and the address space.\<close>

definition k_init_memory :: "'a vmm_scheme \<Rightarrow> fault + 'a vmm_scheme" where
  "k_init_memory s =
     bindE (pmm_init 512 s) (\<lambda>s.
     bindE (pmm_test s) (\<lambda>s.
     bindE (vmm_init s) (\<lambda>s.
     Inr (vmm_enable s))))"

definition k_init :: "nat \<Rightarrow> link \<Rightarrow> (u16 \<Rightarrow> u8) \<Rightarrow> 'a intr_scheme \<Rightarrow> fault + 'a intr_scheme" where
  "k_init fuel l inp s =
     bindE (k_init_devices l inp s) (\<lambda>s.
     bindE (k_init_memory s) (\<lambda>s.
     let s = emit (Serial_Line COM1_PORT ''[INFO] Sleep Test'') s;
         s = emit (Printl ''[INFO] Sleep Test'') s
     in bindE (ksleep fuel 1000 s) (\<lambda>s.
     let s = emit (Printl ''[INFO] Awake!'') s;
         s = emit (Serial_Line COM1_PORT ''[INFO] Awake!'') s;
         s = emit (Serial_Line COM1_PORT '''') s;
         s = emit (Serial_Line COM1_PORT ''CoreNT'') s;
         s = emit (Serial_Line COM1_PORT ''0.0.1'') s;
         s = emit (Serial_Line COM1_PORT ''26A1'') s;
         s = emit (Printc CR) s;
         s = emit (Printc LF) s;
         s = emit (Printl ''CoreNT'') s;
         s = emit (Printl ''0.0.1'') s
     in Inr (emit (Printl ''26A1'') s))))"

text \<open>A write of a word through a pointer and the line that reports what is there.\<close>

definition write_and_log :: "u32 \<Rightarrow> u32 \<Rightarrow> 'a cpu_scheme \<Rightarrow> fault + 'a cpu_scheme" where
  "write_and_log ptr v s =
     (if ptr \<noteq> 0
      then bindE (st32 ptr v s) (\<lambda>s. bindE (ld32 ptr s) (\<lambda>w.
        Inr (emit (Kprintf (''[TEST] Wrote %x to %x'' @ crlf) [ArgW w, ArgW ptr]) s)))
      else Inr s)"

definition test_vmm_heap :: "nat \<Rightarrow> 'a heap_scheme \<Rightarrow> fault + 'a heap_scheme" where
  "test_vmm_heap fuel s =
     (let s = emit (Printl (crlf @ ''=== HEAP TEST ==='')) s
      in bindE (heap_init fuel s) (\<lambda>s.
      let s = emit (Kprintf (crlf @ ''[TEST] Allocating 256 bytes...'' @ crlf) []) s
      in bindE (kmalloc fuel 256 s) (\<lambda>(ptr1, s).
      bindE (write_and_log ptr1 0xDEADBEEF s) (\<lambda>s.
      let s = emit (Kprintf (crlf @ ''[TEST] Allocating 512 bytes...'' @ crlf) []) s
      in bindE (kmalloc fuel 512 s) (\<lambda>(ptr2, s).
      bindE (write_and_log ptr2 0xCAFEBABE s) (\<lambda>s.
      let s = emit (Kprintf (crlf @ ''[TEST] Allocating 1024 bytes...'' @ crlf) []) s
      in bindE (kmalloc fuel 1024 s) (\<lambda>(ptr3, s).
      bindE (write_and_log ptr3 0x12345678 s) (\<lambda>s.
      let s = heap_print_stats s;
          s = emit (Kprintf (crlf @ ''[TEST] Freeing middle block...'' @ crlf) []) s
      in bindE (kfree fuel ptr2 s) (\<lambda>s.
      let s = heap_print_stats s;
          s = emit (Kprintf (crlf @ ''[TEST] Re-allocating 512 bytes...'' @ crlf) []) s
      in bindE (kmalloc fuel 512 s) (\<lambda>(ptr4, s).
      let s = (if ptr4 = ptr2
               then emit (Kprintf (''[TEST] SUCCESS: Reused freed block!'' @ crlf) []) s
               else emit (Kprintf (''[TEST] FAIL: Got different block %x != %x'' @ crlf) [ArgW ptr4, ArgW ptr2]) s);
          s = heap_print_stats s;
          s = emit (Kprintf (crlf @ ''[TEST] Testing VMM mapping...'' @ crlf) []) s
      in bindE (alloc_page s) (\<lambda>(test_phys, s).
      bindE (vmm_map_page 0xA00000 test_phys (PG_PRESENT OR PG_WRITABLE) s) (\<lambda>s.
      bindE (st32 0xA00000 0x12345678 s) (\<lambda>s.
      bindE (vmm_v_to_p 0xA00000 s) (\<lambda>translated.
      let s = emit (Kprintf (''[TEST] 0xA00000 -> %x (should be %x)'' @ crlf) [ArgW translated, ArgW test_phys]) s;
          s = (if translated = test_phys
               then emit (Kprintf (''[TEST] VMM translation OK!'' @ crlf) []) s else s)
      in Inr (emit (Printl ''=== TEST COMPLETE ==='') s)))))))))))))))"

section \<open>What the devices see\<close>

text \<open>
  The events of a trace that program a device: the port writes and the initialisations of the
  serial port and of the screen.  Output to the consoles is none of them.
\<close>

definition device_event :: "event \<Rightarrow> bool" where
  "device_event e = (case e of Outb _ _ \<Rightarrow> True | Serial_Init _ \<Rightarrow> True | Vga_Init \<Rightarrow> True
     | Vga_Colors _ _ \<Rightarrow> True | _ \<Rightarrow> False)"

definition devices :: "'a cpu_scheme \<Rightarrow> event list" where
  "devices s = filter device_event (trace s)"

lemma devices_emit [simp]: "devices (emit e s) = devices s @ (if device_event e then [e] else [])"
  by (simp add: devices_def)

lemma device_event_simps [simp]:
  "device_event (Outb p v)" "device_event (Serial_Init p)" "device_event Vga_Init" "device_event (Vga_Colors f b)"
  "\<not> device_event (Kprintf m as)" "\<not> device_event (Print m)" "\<not> device_event (Printl m)" "\<not> device_event (Printc c)"
  "\<not> device_event (Serial_Line p m)" "\<not> device_event (Vga_Print m)" "\<not> device_event (Vga_Char c)" "\<not> device_event (Invlpg a)"
  by (simp_all add: device_event_def)

lemma controllers_devices:
  "pics_after (filter device_event es) ps = pics_after es ps"
  "counter_after (filter device_event es) c = counter_after es c"
  by (induction es arbitrary: ps c) (auto simp: pics_step_def counter_step_def device_event_def split: event.splits)

lemma controllers_cong:
  assumes "devices s = devices s'"
  shows "pics_after (trace s) ps = pics_after (trace s') ps" "counter_after (trace s) c = counter_after (trace s') c"
  using assms controllers_devices [of "trace s"] controllers_devices [of "trace s'"] by (metis devices_def)+

text \<open>The memory operations of the boot sequence program no device.\<close>

lemma devices_upd [simp]:
  "devices (s\<lparr>ram := m\<rparr>) = devices s" "devices (s\<lparr>cr0 := c\<rparr>) = devices s" "devices (s\<lparr>cr3 := c\<rparr>) = devices s"
  "devices (s1\<lparr>total_pages := x\<rparr>) = devices s1" "devices (s1\<lparr>bitmap := x\<rparr>) = devices s1"
  "devices (s1\<lparr>used_pages := x\<rparr>) = devices s1" "devices (s1\<lparr>last_alloc_index := x\<rparr>) = devices s1"
  "devices (s2\<lparr>total_mapped := x\<rparr>) = devices s2"
  by (simp_all add: devices_def)

lemma devices_store:
  "st8 a v s = Inr s' \<Longrightarrow> devices s' = devices s"
  "st32 a w s = Inr s' \<Longrightarrow> devices s' = devices s"
  by (auto simp: st8_def st32_def bindE_eq_Inr split: option.splits)

lemma devices_foldE:
  "foldE f xs s = Inr s' \<Longrightarrow> (\<And>x t t'. f x t = Inr t' \<Longrightarrow> devices t' = devices t) \<Longrightarrow> devices s' = devices s"
  by (induction xs arbitrary: s) (force simp: bindE_eq_Inr)+

lemma devices_fill:
  "foldE (\<lambda>i s. st8 (a i s) (v i) s) xs s = Inr s' \<Longrightarrow> devices s' = devices s"
  "foldE (\<lambda>i s. st32 (a i s) (w i) s) xs s = Inr s' \<Longrightarrow> devices s' = devices s"
  by (erule devices_foldE, erule devices_store)+

lemma devices_alloc_page: "alloc_page s = Inr (p, s') \<Longrightarrow> devices s' = devices s"
  by (auto simp: alloc_page_def alloc_take_def bindE_eq_Inr Let_def split: option.splits if_splits dest!: devices_store)

lemma devices_free_page: "pmm_free_page p s = Inr s' \<Longrightarrow> devices s' = devices s"
  by (auto simp: pmm_free_page_def bindE_eq_Inr Let_def split: if_splits dest!: devices_store)

lemma devices_memory:
  "pmm_init m s = Inr s' \<Longrightarrow> devices s' = devices s"
  "pmm_test s = Inr s' \<Longrightarrow> devices s' = devices s"
  "vmm_init s1 = Inr s1' \<Longrightarrow> devices s1' = devices s1"
  "devices (vmm_enable s1) = devices s1"
  by (auto simp: pmm_init_def pmm_test_def vmm_init_def vmm_enable_def bindE_eq_Inr Let_def split: if_splits
    dest!: devices_store devices_fill devices_alloc_page devices_free_page)

lemma devices_k_init_memory: "k_init_memory s = Inr s' \<Longrightarrow> devices s' = devices s"
  by (auto simp: k_init_memory_def bindE_eq_Inr devices_memory(4) dest!: devices_memory(1-3))

section \<open>The boot sequence\<close>

text \<open>What the two programming functions write, as the controllers read it.\<close>

lemma remap_pic_trace: "\<exists>t. remap_pic inp s = s\<lparr>trace := trace s @ t\<rparr> \<and>
    (\<forall>ps. pics_after t ps = (pic_ready 32 0xFE, pic_data 0xFF (pic_command (inp 0xA1) (pic_ready 40 0))))"
proof -
  obtain t where t: "remap_pic inp u = u\<lparr>trace := trace u @ t\<rparr>" for u :: "'a cpu_scheme"
    by (simp add: remap_pic_def outb_def emit_def Let_def)
  have "pics_after t ps = (pic_ready 32 0xFE, pic_data 0xFF (pic_command (inp 0xA1) (pic_ready 40 0)))" for ps
    using remap_pic_run [of inp "s\<lparr>trace := []\<rparr>" ps] by (simp add: t)
  then show ?thesis using t by blast
qed

lemma init_pit_trace: "\<exists>t. init_pit 1000 s = Inr (s\<lparr>trace := trace s @ t\<rparr>) \<and> (\<forall>ps. pics_after t ps = ps) \<and>
    (\<forall>c. reload (counter_after t c) = 1193)"
  by (simp add: init_pit_def itoaE_10 Let_def emit_def outb_def) (rule exI, rule conjI, rule refl,
    simp add: pics_step_def counter_step_def)

lemma devices_run:
  assumes "length (idt s) = 256"
  shows "\<exists>t. k_init_devices l inp s = Inr (s\<lparr>idt := kernel_gates l, idtp := (2047, idt_at l),
    idtr := Some (2047, idt_at l), interrupts_on := True, trace := trace s @ t\<rparr>) \<and>
    (\<exists>u. filter device_event t = [Serial_Init COM1_PORT, Vga_Init, Vga_Colors VGA_LIGHT_GREY VGA_BLACK] @ u) \<and>
    (\<forall>ps. pics_after t ps = (pic_ready 32 0xFE, pic_data 0xFF (pic_command (inp 0xA1) (pic_ready 40 0)))) \<and>
    (\<forall>c. reload (counter_after t c) = 1193)"
proof -
  let ?a = "emit (Serial_Line COM1_PORT ''[INFO] GDT FLUSHED'') (emit (Serial_Line COM1_PORT ''[INFO] SERIAL READY'')
    (emit (Vga_Print ''[INFO] [VGA] VGA READY'') (emit (Vga_Colors VGA_LIGHT_GREY VGA_BLACK) (emit Vga_Init (emit (Serial_Init COM1_PORT) s)))))"
  let ?b = "?a\<lparr>idt := kernel_gates l, idtp := (2047, idt_at l), idtr := Some (2047, idt_at l)\<rparr>"
  have a: "idt_init l ?a = Inr ?b" by (rule idt_init_run) (simp add: assms)
  obtain t where c: "remap_pic inp (emit (Serial_Line COM1_PORT ''[INFO] Enabling PIC'') ?b) =
      (emit (Serial_Line COM1_PORT ''[INFO] Enabling PIC'') ?b)\<lparr>trace :=
        trace (emit (Serial_Line COM1_PORT ''[INFO] Enabling PIC'') ?b) @ t\<rparr>" (is "_ = ?c")
    and t: "\<And>ps. pics_after t ps = (pic_ready 32 0xFE, pic_data 0xFF (pic_command (inp 0xA1) (pic_ready 40 0)))"
    using remap_pic_trace by blast
  obtain u where d: "init_pit 1000 (emit (Serial_Line COM1_PORT ''[INFO] Enabling PIT'') ?c) =
      Inr ((emit (Serial_Line COM1_PORT ''[INFO] Enabling PIT'') ?c)\<lparr>trace :=
        trace (emit (Serial_Line COM1_PORT ''[INFO] Enabling PIT'') ?c) @ u\<rparr>)"
    and u: "\<And>ps. pics_after u ps = ps" "\<And>c. reload (counter_after u c) = 1193"
    using init_pit_trace by blast
  show ?thesis
    unfolding k_init_devices_def Let_def a bindE_simps c d
    by (simp add: emit_def enable_sti_def) (rule exI, rule conjI, rule refl,
      simp add: t u pics_step_def counter_step_def)
qed

lemma memory_run:
  assumes "\<not> paging s" "last_alloc_index s = 4096"
  shows "\<exists>s1. k_init_memory s = Inr (vmm_enable s1) \<and> vmm.more s1 = vmm.more s \<and> bitmap s1 = BITMAP_START \<and>
    total_pages s1 = 0x20000 \<and> used_pages s1 = 4100 \<and> pde (ram s1) 0 = (4099 * PAGE_SIZE) OR 3 \<and>
    (\<forall>v. hw_walk (ram s1) page_dir v = (if v < 0x400000 then Some v
       else if 0xC0000000 \<le> v \<and> v < 0xC0400000 then Some (v - 0xC0000000) else None))"
proof -
  obtain f e e' where f: "pmm_inv f" "used_set f = {4096, 4097, 4098}" "last_alloc_index f = 4098"
      "total_pages f = 0x20000" "pmm.more f = pmm.more s"
    and run: "bindE (pmm_init 512 s) pmm_test = Inr (emit e (emit e' f))"
    using pmm_boot_run [OF assms] by fastforce
  let ?f = "emit e (emit e' f)"
  have "4098 \<in> used_set f" "4099 \<notin> used_set f" using f(2) by simp_all
  then have bits: "ram f (BITMAP_START + 4098) \<noteq> 0" "ram f (BITMAP_START + 4099) = 0"
    using f(1,4) by (auto simp: used_set_def pmm_inv_def)
  have "j = 4098" if "4098 \<le> j" "j < 4099" for j :: u32
    using that by (simp add: word_le_nat_alt word_less_nat_alt word_unat_eq_iff)
  then have b: "boot_ready 4099 ?f"
    using f(1,3,4) bits by (auto simp: boot_ready_def pmm_inv_def)
  have "unat (used_pages f) = 4099" using f(1,2) by (simp add: pmm_inv_def)
  then have u: "used_pages ?f = 4099" by (simp add: word_unat_eq_iff)
  obtain s1 where s1: "vmm_init ?f = Inr s1"
      "\<And>v. hw_walk (ram s1) page_dir v = (if v < 0x400000 then Some v
       else if 0xC0000000 \<le> v \<and> v < 0xC0400000 then Some (v - 0xC0000000) else None)"
      "\<And>j. j < 1024 \<Longrightarrow> pde (ram s1) j = (if j = 0 \<or> j = 768 then (4099 * PAGE_SIZE) OR 3 else 2)"
      "bitmap s1 = BITMAP_START" "total_pages s1 = total_pages ?f" "used_pages s1 = used_pages ?f + 1"
      "vmm.more s1 = vmm.more ?f"
    by (rule vmm_init_ready [OF b]) (rule that; assumption)
  have "k_init_memory s = Inr (vmm_enable s1)"
    using run s1(1) by (simp add: k_init_memory_def bindE_assoc [symmetric])
  moreover have "vmm.more ?f = vmm.more s" using f(5) by (cases f; cases s) simp
  moreover have "pde (ram s1) 0 = (4099 * PAGE_SIZE) OR 3" using s1(3) [of 0] by simp
  ultimately show ?thesis using s1 u f(4) by (intro exI [of _ s1]) simp
qed

lemma ticks_run: "(pit_handler ^^ n) s =
    s\<lparr>system_ticks := system_ticks s + of_nat n, trace := trace s @ replicate n (Outb 0x20 0x20)\<rparr>"
  by (induction n) (simp_all add: pit_handler_def outb_def emit_def replicate_append_same [symmetric])

lemma eoi_run:
  "pics_after (replicate n (Outb 0x20 0x20)) ps = ps" "counter_after (replicate n (Outb 0x20 0x20)) c = c"
  by (induction n) (simp_all add: pics_step_def pic_command_def counter_step_def)

lemma paging_timer [simp]: "paging (s\<lparr>system_ticks := n\<rparr>) = paging s"
  by (simp add: paging_def)

lemma same_upper:
  assumes "vmm.more s = vmm.more (t :: 'a intr_scheme)"
  shows "idt s = idt t" "idtr s = idtr t" "interrupts_on s = interrupts_on t" "system_ticks s = system_ticks t"
  using assms by (cases s; cases t; simp)+

text \<open>The lines printed after the sleep.\<close>

lemma k_init_tail:
  assumes "k_init_devices l inp s = Inr s1" "k_init_memory s1 = Inr s2"
    and "ksleep fuel 1000 (emit (Printl ''[INFO] Sleep Test'') (emit (Serial_Line COM1_PORT ''[INFO] Sleep Test'') s2)) = Inr S"
  shows "\<exists>e. k_init fuel l inp s = Inr (S\<lparr>trace := trace S @ e\<rparr>) \<and> filter device_event e = []"
  unfolding k_init_def assms bindE_simps Let_def
  by (simp add: emit_def) (rule exI, rule conjI, rule refl, simp)

text \<open>The devices of a state whose trace is that of the boot sequence.\<close>

lemma booted_devices:
  fixes inp :: "u16 \<Rightarrow> u8"
  assumes "devices s' = devices s @ filter device_event t @ replicate n (Outb 0x20 0x20)"
    and "\<exists>u. filter device_event t = [Serial_Init COM1_PORT, Vga_Init, Vga_Colors VGA_LIGHT_GREY VGA_BLACK] @ u"
    and "\<forall>ps. pics_after t ps = (pic_ready 32 0xFE, pic_data 0xFF (pic_command (inp 0xA1) (pic_ready 40 0)))"
    and "\<forall>c. reload (counter_after t c) = 1193"
  shows "\<exists>u. devices s' = devices s @ [Serial_Init COM1_PORT, Vga_Init, Vga_Colors VGA_LIGHT_GREY VGA_BLACK] @ u"
    and "fst (pics_after (trace s') ps) = \<lparr>vector_base = 32, irq_mask = 0xFE, pending = []\<rparr>"
    and "if inp 0xA1 AND 0x10 = 0 then snd (pics_after (trace s') ps) = \<lparr>vector_base = 40, irq_mask = 0xFF, pending = []\<rparr>
      else vector_base (snd (pics_after (trace s') ps)) = 0xF8 \<and> irq_mask (snd (pics_after (trace s') ps)) = 0"
    and "clocks_per_tick (counter_after (trace s') c) = 1193"
proof -
  show "\<exists>u. devices s' = devices s @ [Serial_Init COM1_PORT, Vga_Init, Vga_Colors VGA_LIGHT_GREY VGA_BLACK] @ u"
    using assms(1,2) by auto
  have d: "devices s' = filter device_event (trace s @ t) @ replicate n (Outb 0x20 0x20)"
    using assms(1) by (simp add: devices_def)
  have p: "pics_after (trace s') ps = pics_after t (pics_after (trace s) ps)"
    unfolding controllers_devices(1) [of "trace s'", symmetric] devices_def [symmetric] d
    by (simp add: eoi_run controllers_devices)
  have c: "counter_after (trace s') c = counter_after t (counter_after (trace s) c)"
    unfolding controllers_devices(2) [of "trace s'", symmetric] devices_def [symmetric] d
    by (simp add: eoi_run controllers_devices)
  show "fst (pics_after (trace s') ps) = \<lparr>vector_base = 32, irq_mask = 0xFE, pending = []\<rparr>"
    "if inp 0xA1 AND 0x10 = 0 then snd (pics_after (trace s') ps) = \<lparr>vector_base = 40, irq_mask = 0xFF, pending = []\<rparr>
      else vector_base (snd (pics_after (trace s') ps)) = 0xF8 \<and> irq_mask (snd (pics_after (trace s') ps)) = 0"
    by (simp_all add: p assms(3) pic_sim)
  show "clocks_per_tick (counter_after (trace s') c) = 1193"
    by (simp add: c assms(4) clocks_per_tick_def)
qed

lemma devices_ticks: "devices ((pit_handler ^^ n) s) = devices s @ replicate n (Outb 0x20 0x20)"
  by (simp add: ticks_run devices_def)

text \<open>
  C19. Booting: from reset state \<open>k_init\<close> reaches its final loop, a second after it began to sleep.
  The serial port was initialised first, then the screen and its colours; read off its port writes,
  the first interrupt controller has its vectors at 32 and only the timer enabled, the second one is
  as \<open>remap_pic\<close> leaves it (masked when its old mask had bit 4 clear), and the timer ticks every 1193
  clocks.  The interrupt table is loaded, interrupts and paging are on, the first 4 MiB are mapped
  to themselves and at \<open>0xC0000000\<close> and nothing else is, and 4 frames are in use beyond the kernel's.
  The one page table lies in the frame at \<open>0x1003000\<close>, which is inside the bitmap of the allocator.
\<close>

theorem k_init_boots:
  assumes "\<not> paging s" "last_alloc_index s = 4096" "length (idt s) = 256"
    and "unat (system_ticks s) + 1000 < 2 ^ 32" "1000 < fuel"
  shows "\<exists>s'. k_init fuel l inp s = Inr s' \<and> paging s' \<and> interrupts_on s' \<and> idtr s' = Some (2047, idt_at l) \<and>
    idt s' = kernel_gates l \<and> system_ticks s' = system_ticks s + 1000 \<and> used_pages s' = 4100 \<and>
    (\<forall>v. xlate s' v = (if v < 0x400000 then Some v
       else if 0xC0000000 \<le> v \<and> v < 0xC0400000 then Some (v - 0xC0000000) else None)) \<and>
    frame_of (pde (ram s') 0) = 0x1003000 \<and> bitmap s' \<le> 0x1003000 \<and> 0x1003000 + 0xFFF < bitmap s' + total_pages s' \<and>
    (\<exists>u. devices s' = devices s @ [Serial_Init COM1_PORT, Vga_Init, Vga_Colors VGA_LIGHT_GREY VGA_BLACK] @ u) \<and>
    (\<forall>ps. fst (pics_after (trace s') ps) = \<lparr>vector_base = 32, irq_mask = 0xFE, pending = []\<rparr> \<and>
      (if inp 0xA1 AND 0x10 = 0 then snd (pics_after (trace s') ps) = \<lparr>vector_base = 40, irq_mask = 0xFF, pending = []\<rparr>
       else vector_base (snd (pics_after (trace s') ps)) = 0xF8 \<and> irq_mask (snd (pics_after (trace s') ps)) = 0)) \<and>
    (\<forall>c. clocks_per_tick (counter_after (trace s') c) = 1193)"
proof -
  obtain s1 t where s1: "k_init_devices l inp s = Inr s1" "s1 = s\<lparr>idt := kernel_gates l, idtp := (2047, idt_at l),
      idtr := Some (2047, idt_at l), interrupts_on := True, trace := trace s @ t\<rparr>"
    and dev: "\<exists>u. filter device_event t = [Serial_Init COM1_PORT, Vga_Init, Vga_Colors VGA_LIGHT_GREY VGA_BLACK] @ u"
      "\<forall>ps. pics_after t ps = (pic_ready 32 0xFE, pic_data 0xFF (pic_command (inp 0xA1) (pic_ready 40 0)))"
      "\<forall>c. reload (counter_after t c) = 1193"
    using devices_run [OF assms(3), of l inp] by blast
  have "\<not> paging s1" "last_alloc_index s1 = 4096" using assms(1,2) by (simp_all add: s1(2) paging_def)
  from memory_run [OF this] obtain s2 where s2: "k_init_memory s1 = Inr (vmm_enable s2)" "vmm.more s2 = vmm.more s1"
      "bitmap s2 = BITMAP_START" "total_pages s2 = 0x20000" "used_pages s2 = 4100" "pde (ram s2) 0 = (4099 * PAGE_SIZE) OR 3"
      "\<forall>v. hw_walk (ram s2) page_dir v = (if v < 0x400000 then Some v
       else if 0xC0000000 \<le> v \<and> v < 0xC0400000 then Some (v - 0xC0000000) else None)" by blast
  note up = same_upper [OF s2(2)]
  let ?t = "emit (Printl ''[INFO] Sleep Test'') (emit (Serial_Line COM1_PORT ''[INFO] Sleep Test'') (vmm_enable s2))"
  define S where "S = (pit_handler ^^ 1000) ?t"
  have en: "idt (vmm_enable s2) = idt s2" "idtr (vmm_enable s2) = idtr s2" "interrupts_on (vmm_enable s2) = interrupts_on s2"
    "system_ticks (vmm_enable s2) = system_ticks s2" "used_pages (vmm_enable s2) = used_pages s2"
    by (simp_all add: vmm_enable_def emit_def)
  have sl: "ksleep fuel 1000 ?t = Inr S"
    using ksleep_run [of ?t 1000 fuel] assms(4,5) up(4) by (simp add: en s1(2) S_def)
  obtain e where k: "k_init fuel l inp s = Inr (S\<lparr>trace := trace S @ e\<rparr>)" "filter device_event e = []"
    using k_init_tail [OF s1(1) s2(1) sl] by blast
  let ?F = "S\<lparr>trace := trace S @ e\<rparr>"
  have "devices s1 = devices s @ filter device_event t" by (simp add: s1(2) devices_def)
  moreover have "devices ?F = devices (vmm_enable s2) @ replicate 1000 (Outb 0x20 0x20)"
    using k(2) devices_ticks [of 1000 ?t] by (simp add: S_def devices_def)
  ultimately have "devices ?F = devices s @ filter device_event t @ replicate 1000 (Outb 0x20 0x20)"
    using devices_k_init_memory [OF s2(1)] by simp
  note d = booted_devices [where inp = inp, OF this dev]
  have x: "xlate ?F v = hw_walk (ram s2) page_dir v" for v by (simp add: S_def ticks_run xlate_def)
  show ?thesis
    by (rule exI [of _ ?F], intro conjI allI k(1) d)
      (use up s2 in \<open>simp_all add: x\<close>, simp_all add: S_def ticks_run en s1(2) config_defs frame_of_def)
qed

theorem k_init_boots_witness:
  "\<exists>s'. k_init 1001 sample_link (\<lambda>_. 0xFF) sample_intr = Inr s' \<and> paging s' \<and> system_ticks s' = 1000 \<and>
     irq_mask (fst (pics_after (trace s') (pic_ready 8 0, pic_ready 0x70 0))) = 0xFE \<and>
     clocks_per_tick (counter_after (trace s') \<lparr>access = 0, low_byte = None, reload = 0\<rparr>) = 1193"
proof -
  have "\<not> paging sample_intr" "last_alloc_index sample_intr = 4096" "length (idt sample_intr) = 256"
    "unat (system_ticks sample_intr) + 1000 < 2 ^ 32" "(1000 :: nat) < 1001"
    by (simp_all add: sample_intr_def extend_defs sample_boot_def paging_def)
  moreover have "system_ticks sample_intr = 0" by (simp add: sample_intr_def extend_defs)
  ultimately show ?thesis using k_init_boots [of sample_intr 1001 sample_link "\<lambda>_. 0xFF"] by fastforce
qed

end
