(* ===== verification/GDT.thy ===== *)
theory GDT
  imports Machine
begin

text \<open>
  \<open>Kernel/src/Include/gdt.c\<close>: the segment descriptors.  \<open>gdt_init\<close> is not called by the boot
  sequence.  The table's address is an argument.
\<close>

section \<open>State and operations\<close>

record gdt_entry =
  limit_low :: u16
  base_low :: u16
  base_middle :: u8
  access_byte :: u8
  granularity :: u8
  base_high :: u8

record segments = cpu +
  gdt :: "gdt_entry list"
  gdt_ptr :: "u16 \<times> u32"

definition gdt_set :: "int \<Rightarrow> u32 \<Rightarrow> u32 \<Rightarrow> u8 \<Rightarrow> u8 \<Rightarrow> 'a segments_scheme \<Rightarrow> fault + 'a segments_scheme" where
  "gdt_set i base limit access gran s =
     (if i < 0 \<or> int (length (gdt s)) \<le> i then Inl Undefined_Behaviour
      else let e = gdt s ! nat i;
               e = e\<lparr>base_low := ucast (base AND 0xFFFF)\<rparr>;
               e = e\<lparr>base_middle := ucast (drop_bit 16 base AND 0xFF)\<rparr>;
               e = e\<lparr>base_high := ucast (drop_bit 24 base AND 0xFF)\<rparr>;
               e = e\<lparr>limit_low := ucast (limit AND 0xFFFF)\<rparr>;
               e = e\<lparr>granularity := ucast (drop_bit 16 limit AND 0x0F) OR (gran AND 0xF0)\<rparr>
        in Inr (emit (Serial_Line COM1_PORT ''[GDT] Set'') (s\<lparr>gdt := (gdt s)[nat i := e]\<rparr>)))"

definition gdt_init :: "u32 \<Rightarrow> 'a segments_scheme \<Rightarrow> fault + 'a segments_scheme" where
  "gdt_init gdt_at s =
     (let s = s\<lparr>gdt_ptr := (8 * 3 - 1, gdt_at)\<rparr>
      in bindE (gdt_set 0 0 0 0 0 s) (\<lambda>s.
      bindE (gdt_set 1 0 0xFFFFFFFF 0x9A 0xCF s) (\<lambda>s.
      bindE (gdt_set 2 0 0xFFFFFFFF 0x92 0xCF s) (\<lambda>s.
      Inr (emit (Serial_Line COM1_PORT ''[GDT] Initialized'') s)))))"

section \<open>What the processor reads from a descriptor\<close>

lemma emit_segments [simp]: "gdt (emit e s) = gdt s" "gdt_ptr (emit e s) = gdt_ptr s"
  by (simp_all add: emit_def)

definition seg_base :: "gdt_entry \<Rightarrow> u32" where
  "seg_base e = ucast (base_low e) OR push_bit 16 (ucast (base_middle e)) OR push_bit 24 (ucast (base_high e))"

definition seg_limit :: "gdt_entry \<Rightarrow> u32" where
  "seg_limit e = ucast (limit_low e) OR push_bit 16 (ucast (granularity e AND 0x0F))"

definition seg_present :: "gdt_entry \<Rightarrow> bool" where
  "seg_present e \<longleftrightarrow> access_byte e AND 0x80 \<noteq> 0"

lemma gdt_set_run:
  assumes "i < length (gdt s)"
  shows "\<exists>e. gdt_set (int i) base limit access gran s =
      Inr (emit (Serial_Line COM1_PORT ''[GDT] Set'') (s\<lparr>gdt := (gdt s)[i := e]\<rparr>)) \<and>
    seg_base e = base \<and> seg_limit e = limit AND 0xFFFFF \<and> granularity e AND 0xF0 = gran AND 0xF0 \<and>
    access_byte e = access_byte (gdt s ! i)"
proof -
  have m: "(0xFFFF :: u32) = mask 16" "(0xFF :: u32) = mask 8" "(0x0F :: u32) = mask 4" "(0xFFFFF :: u32) = mask 20"
    "(0x0F :: u8) = mask 4" "(0xF0 :: u8) = push_bit 4 (mask 4)"
    by (simp_all add: mask_eq_exp_minus_1)
  let ?e = "(gdt s ! i)\<lparr>base_low := ucast (base AND 0xFFFF), base_middle := ucast (drop_bit 16 base AND 0xFF),
    base_high := ucast (drop_bit 24 base AND 0xFF), limit_low := ucast (limit AND 0xFFFF),
    granularity := ucast (drop_bit 16 limit AND 0x0F) OR (gran AND 0xF0)\<rparr>"
  have "seg_base ?e = base"
    unfolding seg_base_def
  proof (rule bit_word_eqI)
    fix n
    assume "n < LENGTH(32)"
    then consider "n < 16" | "16 \<le> n" "n < 24" | "24 \<le> n" "n < 32" by fastforce
    then show "bit (ucast (base_low ?e) OR push_bit 16 (ucast (base_middle ?e)) OR
        push_bit 24 (ucast (base_high ?e)) :: u32) n = bit base n"
      unfolding m by cases (auto simp: bit_simps)
  qed
  moreover have "seg_limit ?e = limit AND 0xFFFFF"
    unfolding seg_limit_def m by (rule bit_word_eqI) (auto simp: bit_simps)
  moreover have "granularity ?e AND 0xF0 = gran AND 0xF0"
    unfolding m by (rule bit_word_eqI) (auto simp: bit_simps)
  ultimately show ?thesis
    using assms by (intro exI [of _ ?e]) (simp add: gdt_set_def Let_def)
qed

section \<open>Properties\<close>

text \<open>
  C31. The descriptors: \<open>gdt_init\<close> gives the code and the data segment base 0 and the full limit, but
  it never stores the access byte it is called with, so a descriptor that was clear before stays
  not present.
\<close>

theorem gdt_access_never_set:
  assumes "length (gdt s) = 3"
  shows "\<exists>s'. gdt_init at s = Inr s' \<and> gdt_ptr s' = (23, at) \<and>
    (\<forall>i < 3. access_byte (gdt s' ! i) = access_byte (gdt s ! i)) \<and>
    (\<forall>i \<in> {1, 2}. seg_base (gdt s' ! i) = 0 \<and> seg_limit (gdt s' ! i) = 0xFFFFF \<and>
      granularity (gdt s' ! i) AND 0xF0 = 0xC0)"
proof -
  let ?m = "Serial_Line COM1_PORT ''[GDT] Set''" and ?s = "s\<lparr>gdt_ptr := (23, at)\<rparr>"
  obtain e0 where e0: "gdt_set 0 0 0 0 0 ?s = Inr (emit ?m (?s\<lparr>gdt := (gdt s)[0 := e0]\<rparr>))"
      "access_byte e0 = access_byte (gdt s ! 0)"
    using gdt_set_run [of 0 ?s 0 0 0 0] assms by auto
  let ?t = "emit ?m (?s\<lparr>gdt := (gdt s)[0 := e0]\<rparr>)"
  obtain e1 where e1: "gdt_set 1 0 0xFFFFFFFF 0x9A 0xCF ?t = Inr (emit ?m (?t\<lparr>gdt := (gdt ?t)[1 := e1]\<rparr>))"
      "access_byte e1 = access_byte (gdt s ! 1)" "seg_base e1 = 0" "seg_limit e1 = 0xFFFFF" "granularity e1 AND 0xF0 = 0xC0"
    using gdt_set_run [of 1 ?t 0 "0xFFFFFFFF" "0x9A" "0xCF"] assms by auto
  let ?u = "emit ?m (?t\<lparr>gdt := (gdt ?t)[1 := e1]\<rparr>)"
  obtain e2 where e2: "gdt_set 2 0 0xFFFFFFFF 0x92 0xCF ?u = Inr (emit ?m (?u\<lparr>gdt := (gdt ?u)[2 := e2]\<rparr>))"
      "access_byte e2 = access_byte (gdt s ! 2)" "seg_base e2 = 0" "seg_limit e2 = 0xFFFFF" "granularity e2 AND 0xF0 = 0xC0"
    using gdt_set_run [of 2 ?u 0 "0xFFFFFFFF" "0x92" "0xCF"] assms by auto
  have "i = 0 \<or> i = 1 \<or> i = 2" if "i < 3" for i :: nat using that by auto
  moreover have sz: "(8 * 3 - 1 :: u16) = 23" by simp
  have "gdt_init at s = Inr (emit (Serial_Line COM1_PORT ''[GDT] Initialized'') (emit ?m (?u\<lparr>gdt := (gdt ?u)[2 := e2]\<rparr>)))"
    unfolding gdt_init_def Let_def sz e0(1) e1(1) e2(1) bindE_simps ..
  ultimately show ?thesis using assms e0(2) e1(2-5) e2(2-5) by (auto simp: nth_list_update)
qed

theorem gdt_access_never_set_witness:
  "\<exists>s'. gdt_init 0x109000 \<lparr>ram = (\<lambda>_. 0), cr0 = 0, cr3 = 0, trace = [], gdt = replicate 3
     \<lparr>limit_low = 0, base_low = 0, base_middle = 0, access_byte = 0, granularity = 0, base_high = 0\<rparr>, gdt_ptr = (0, 0)\<rparr> =
     Inr s' \<and> \<not> seg_present (gdt s' ! 1)"
proof -
  let ?s = "\<lparr>ram = (\<lambda>_. 0), cr0 = 0, cr3 = 0, trace = [], gdt = replicate 3
     \<lparr>limit_low = 0, base_low = 0, base_middle = 0, access_byte = 0, granularity = 0, base_high = 0\<rparr>, gdt_ptr = (0, 0)\<rparr>"
  have "length (gdt ?s) = 3" by simp
  from gdt_access_never_set [OF this, of "0x109000"] obtain s' where
    "gdt_init 0x109000 ?s = Inr s'" "\<forall>i < 3. access_byte (gdt s' ! i) = access_byte (gdt ?s ! i)" by blast
  then show ?thesis by (auto simp: seg_present_def)
qed

end
