(* ===== verification/Heap_Growth.thy ===== *)
theory Heap_Growth
  imports HEAP
begin

text \<open>
  How the kernel heap grows: \<open>heap_expand\<close> takes frames from the allocator and puts a free block of
  one page per frame behind the last free block, from \<open>TEST_HEAP_VIRT\<close> on.  The theory follows the
  growth page by page from the state \<open>vmm_init\<close> leaves behind, for up to 768 pages, the end of the
  window that is mapped then (a bound of the theorems; the code checks none); \<open>heap_init\<close> is four such steps, and a \<open>kmalloc\<close> that finds no block
  large enough is one.
\<close>

section \<open>Growing the heap\<close>

lemma fresh_header_run:
  assumes "\<not> paging s" "unat b + 16 \<le> 2 ^ 32"
  shows "\<exists>m. fresh_header b s = Inr (s\<lparr>ram := m\<rparr>) \<and> agree (hrange 0 b) (ram s) m \<and> hdr 0 m b 4080 0 0 0"
proof -
  define m where "m = wr32 (b + 12) 0 (wr32 (b + 8) 0 ((wr32 b 4080 (ram s))(b + 4 := 0)))"
  have "fresh_header b s = Inr (s\<lparr>ram := m\<rparr>)"
    using assms(1) by (simp add: fresh_header_def run_simps PAGE_SIZE_def block_hdr_def m_def)
  then show ?thesis
    using split_header [OF assms(2), where m = "ram s" and a = 0 and nx = 0 and r = 4080, folded m_def] by blast
qed

lemma last_block_run:
  "\<not> paging s \<Longrightarrow> dll 0 (ram s) pv p bs 0 l \<Longrightarrow> \<forall>b \<in> set bs. fst b \<noteq> 0 \<Longrightarrow> length bs < fuel \<Longrightarrow>
   last_block fuel p s = Inr (if bs = [] then 0 else l)"
proof (induction bs arbitrary: pv p fuel)
  case Nil
  then show ?case by (cases fuel) auto
next
  case (Cons b bs)
  obtain a n f where b: "b = (a, n)" and f: "fuel = Suc f" "length bs < f"
    using Cons.prems(4) by (cases b; cases fuel) auto
  have d: "p = a" "a \<noteq> 0" "dll 0 (ram s) a (rd32 (ram s) (a + 8)) bs 0 l"
    using Cons.prems b by auto
  show ?case
  proof (cases bs)
    case Nil
    then show ?thesis using d Cons.prems(1) f by (simp add: run_simps)
  next
    case (Cons c cs)
    then have "rd32 (ram s) (a + 8) \<noteq> 0" using dll_first [OF d(3)] Cons.prems(3) by simp
    then show ?thesis
      using Cons.IH [OF Cons.prems(1) d(3) _ f(2)] d Cons.prems(1,3) f Cons by (simp add: run_simps)
  qed
qed

text \<open>The state \<open>heap_add_page\<close> needs to succeed: a free frame next, and the page at \<open>v\<close> mapped.\<close>

definition grow_ok :: "'a heap_scheme \<Rightarrow> blocks \<Rightarrow> u32 \<Rightarrow> bool" where
  "grow_ok s bs k \<longleftrightarrow> \<not> paging s \<and> bitmap s = BITMAP_START \<and> last_alloc_index s = k \<and> 4096 \<le> k \<and>
     k + 1 < total_pages s \<and> k < total_pages s \<and> total_pages s \<le> 0x100000 \<and>
     (heap_start s = 0 \<and> bs = [] \<or> heap_start s \<noteq> 0 \<and> heap_rel s bs) \<and>
     ram s (BITMAP_START + k) = 0"

text \<open>Linking the header at \<open>v\<close> behind the last block.\<close>

lemma link_last_run:
  assumes np: "\<not> paging s" and d: "dll 0 (ram s) 0 (free_list s) bs 0 l" and ok: "blocks_ok 0 (bs @ [(v, n)])"
    and h: "hdr 0 (ram s) v n 0 0 0" and fuel: "length bs < fuel"
  shows "\<exists>m f. bindE (last_block fuel (free_list s) s) (\<lambda>lst.
       bindE (if lst \<noteq> 0 then bindE (st32 (lst + 8) v s) (\<lambda>s. st32 (v + 12) lst s) else Inr (s\<lparr>free_list := v\<rparr>)) g) =
     g (s\<lparr>ram := m, free_list := f\<rparr>) \<and> heap_rel (s\<lparr>ram := m, free_list := f\<rparr>) (bs @ [(v, n)]) \<and>
     agree (bytes 0 (bs @ [(v, n)])) (ram s) m"
proof -
  have okv: "v \<noteq> 0" "block_end 0 (v, n) \<le> 2 ^ 32" "blocks_ok 0 bs" using ok by (simp_all add: blocks_ok_append blocks_ok_Cons)
  then have bv: "unat v + 16 \<le> 2 ^ 32" by (simp add: block_end_def)
  have ap: "heads 0 bs \<inter> hrange 0 v = {}" using heads_apart [OF ok] by simp
  note nil = dll_end_nil [OF d okv(3)]
  have lb: "last_block fuel (free_list s) s = Inr (if bs = [] then 0 else l)"
    using last_block_run [of s 0 "free_list s" bs l fuel] d np okv(3) fuel by (simp add: blocks_ok_def)
  let ?n = "set_next 0 l v (ram s)"
  define m where "m = (if l = 0 then ram s else wr32 (v + 12) l (wr32 (l + 8) v (ram s)))"
  have sn: "agree (heads 0 bs) (ram s) ?n" by (rule agree_next [OF d okv(3)])
  have x1: "dll 0 ?n 0 (if bs = [] then v else free_list s) bs v l" by (rule dll_set_next [OF d okv(3)])
  have h1: "hdr 0 ?n v n 0 0 0" using hdr_agree [OF sn] h ap bv by (simp add: Int_commute)
  have m: "m = (if l = 0 then ?n else wr32 (v + 12) l ?n)" by (simp add: m_def set_0)
  have a2: "agree (hrange 0 v) ?n m" using agree_write(4) [of v 0 "hrange 0 v"] bv by (simp add: m)
  have h2: "hdr 0 m v n 0 0 l" using hdr_write(4) [OF h1, of l] h1 by (cases "l = 0") (simp_all add: m)
  have x2: "dll 0 m 0 (if bs = [] then v else free_list s) bs v l" using dll_keep [OF a2 _ okv(3)] x1 ap by blast
  let ?s = "s\<lparr>ram := m, free_list := (if bs = [] then v else free_list s)\<rparr>"
  have "dll 0 m 0 (if bs = [] then v else free_list s) (bs @ [(v, n)]) 0 v"
    unfolding dll_append using x2 h2 by (auto simp: hdr_0)
  then have "heap_rel ?s (bs @ [(v, n)])"
    using np ok unfolding heap_rel_def by (intro conjI exI [of _ v]) (simp_all split: if_splits)
  moreover have "agree (bytes 0 (bs @ [(v, n)])) (ram s) m"
    by (rule agree_trans [OF agree_mono [OF sn] agree_mono [OF a2]])
      (use hrange_extent [of 0 "(v, n)"] heads_bytes [of 0 bs] in auto)
  moreover have "bindE (last_block fuel (free_list s) s) (\<lambda>lst.
       bindE (if lst \<noteq> 0 then bindE (st32 (lst + 8) v s) (\<lambda>s. st32 (v + 12) lst s) else Inr (s\<lparr>free_list := v\<rparr>)) g) = g ?s"
  proof (cases "bs = []")
    case True
    then show ?thesis using lb nil by (simp add: m_def)
  next
    case False
    have "s\<lparr>ram := m, free_list := free_list s\<rparr> = s\<lparr>ram := m\<rparr>" by simp
    then show ?thesis using False lb nil np by (simp add: run_simps m_def)
  qed
  ultimately show ?thesis by blast
qed

text \<open>The frame and the mapping: what is left to do is the header.\<close>

lemma take_frame_run:
  assumes g: "grow_ok s bs k" and v: "v = TEST_HEAP_VIRT + heap_total s"
    and mapped: "hw_walk ((ram s)(BITMAP_START + k := 1)) page_dir v \<noteq> None"
  obtains s2 where "heap_add_page fuel s =
      (if heap_start s2 = 0
       then bindE (fresh_header v (s2\<lparr>heap_start := v\<rparr>)) (\<lambda>s.
         Inr (True, s\<lparr>free_list := heap_start s, heap_blocks := 1\<rparr>))
       else bindE (fresh_header v s2) (\<lambda>s.
         bindE (last_block fuel (free_list s) s) (\<lambda>lst.
         bindE (if lst \<noteq> 0
                then bindE (st32 (lst + 8) v s) (\<lambda>s. st32 (v + 12) lst s)
                else Inr (s\<lparr>free_list := v\<rparr>)) (\<lambda>s.
         Inr (True, s\<lparr>heap_blocks := heap_blocks s + 1\<rparr>)))))"
    "\<not> paging s2" "ram s2 = (ram s)(BITMAP_START + k := 1)" "heap_start s2 = heap_start s" "free_list s2 = free_list s"
    "heap_total s2 = heap_total s + 4096" "last_alloc_index s2 = k + 1" "bitmap s2 = BITMAP_START"
    "total_pages s2 = total_pages s" "used_pages s2 = used_pages s + 1"
proof -
  have np: "\<not> paging s" and B: "bitmap s = BITMAP_START" and l: "last_alloc_index s = k" "4096 \<le> k"
      "k + 1 < total_pages s" "k < total_pages s" "total_pages s \<le> 0x100000" "ram s (bitmap s + k) = 0"
    using g by (simp_all add: grow_ok_def)
  have k: "k < 0x100000" using l(4,5) by (rule less_le_trans)
  define s1 where "s1 = alloc_effect k [alloc_msg k s] s"
  have al: "alloc_page s = Inr (k * PAGE_SIZE, s1)"
    unfolding s1_def by (rule alloc_page_here [OF np l(1,4) l(6)])
  have nz: "k * PAGE_SIZE \<noteq> 0" by (rule page_nonzero [OF l(2) k])
  have np1: "\<not> paging s1" and r1: "ram s1 = (ram s)(BITMAP_START + k := 1)" using np B by (simp_all add: s1_def)
  obtain e e' where mp: "vmm_map_page v (k * PAGE_SIZE) (PG_PRESENT OR PG_WRITABLE) s1 = Inr (emit e' (emit e s1))"
    using map_page_old [OF np1, of v] mapped by (simp add: r1)
  define s2 where "s2 = (emit e' (emit e s1))\<lparr>heap_total := heap_total s + PAGE_SIZE\<rparr>"
  have ht: "heap_total s1 = heap_total s" by (simp add: s1_def alloc_effect_def)
  have fs: "heap_start s1 = heap_start s" "free_list s1 = free_list s"
    by (simp_all add: s1_def alloc_effect_def)
  have l1: "last_alloc_index s1 = k + 1" "bitmap s1 = BITMAP_START" "total_pages s1 = total_pages s"
      "used_pages s1 = used_pages s + 1"
    using l(3) B by (auto simp: s1_def not_le)
  show thesis
  proof (rule that)
    show "heap_add_page fuel s =
      (if heap_start s2 = 0
       then bindE (fresh_header v (s2\<lparr>heap_start := v\<rparr>)) (\<lambda>s.
         Inr (True, s\<lparr>free_list := heap_start s, heap_blocks := 1\<rparr>))
       else bindE (fresh_header v s2) (\<lambda>s.
         bindE (last_block fuel (free_list s) s) (\<lambda>lst.
         bindE (if lst \<noteq> 0
                then bindE (st32 (lst + 8) v s) (\<lambda>s. st32 (v + 12) lst s)
                else Inr (s\<lparr>free_list := v\<rparr>)) (\<lambda>s.
         Inr (True, s\<lparr>heap_blocks := heap_blocks s + 1\<rparr>)))))"
      unfolding heap_add_page_def al bindE_simps prod.case if_not_P [OF nz] Let_def ht v [symmetric] mp
      by (simp add: s2_def ht)
  qed (use np1 r1 l1 fs in \<open>simp_all add: s2_def PAGE_SIZE_def\<close>)
qed

lemma heap_add_page_run:
  assumes g: "grow_ok s bs k" and v: "v = TEST_HEAP_VIRT + heap_total s" and ok: "blocks_ok 0 (bs @ [(v, 4080)])"
    and out: "unat (BITMAP_START + k) \<notin> bytes 0 (bs @ [(v, 4080)])"
    and mapped: "hw_walk ((ram s)(BITMAP_START + k := 1)) page_dir v \<noteq> None" and fuel: "length bs < fuel"
  shows "\<exists>s'. heap_add_page fuel s = Inr (True, s') \<and> heap_rel s' (bs @ [(v, 4080)]) \<and> heap_start s' \<noteq> 0 \<and>
    heap_total s' = heap_total s + 4096 \<and> last_alloc_index s' = k + 1 \<and> bitmap s' = BITMAP_START \<and>
    total_pages s' = total_pages s \<and> used_pages s' = used_pages s + 1 \<and>
    agree ({unat (BITMAP_START + k)} \<union> bytes 0 (bs @ [(v, 4080)])) (ram s) (ram s')"
proof -
  have okv: "v \<noteq> 0" "block_end 0 (v, 4080) \<le> 2 ^ 32" "blocks_ok 0 bs"
    using ok by (simp_all add: blocks_ok_append blocks_ok_Cons)
  then have bv: "unat v + 16 \<le> 2 ^ 32" by (simp add: block_end_def)
  obtain s2 where run: "heap_add_page fuel s =
        (if heap_start s2 = 0
         then bindE (fresh_header v (s2\<lparr>heap_start := v\<rparr>)) (\<lambda>s.
           Inr (True, s\<lparr>free_list := heap_start s, heap_blocks := 1\<rparr>))
         else bindE (fresh_header v s2) (\<lambda>s.
           bindE (last_block fuel (free_list s) s) (\<lambda>lst.
           bindE (if lst \<noteq> 0
                  then bindE (st32 (lst + 8) v s) (\<lambda>s. st32 (v + 12) lst s)
                  else Inr (s\<lparr>free_list := v\<rparr>)) (\<lambda>s.
           Inr (True, s\<lparr>heap_blocks := heap_blocks s + 1\<rparr>)))))"
    and np2: "\<not> paging s2" and r2: "ram s2 = (ram s)(BITMAP_START + k := 1)"
    and hs: "heap_start s2 = heap_start s" "free_list s2 = free_list s"
    and l: "heap_total s2 = heap_total s + 4096" "last_alloc_index s2 = k + 1" "bitmap s2 = BITMAP_START"
      "total_pages s2 = total_pages s" "used_pages s2 = used_pages s + 1"
    by (rule take_frame_run [OF g v mapped])
  let ?S = "{unat (BITMAP_START + k)} \<union> bytes 0 (bs @ [(v, 4080)])"
  have a1: "agree ?S (ram s) (ram s2)" by (simp add: r2 agree_upd)
  have hv: "hrange 0 v \<subseteq> bytes 0 (bs @ [(v, 4080)])" using hrange_extent [of 0 "(v, 4080)"] by auto
  show ?thesis
  proof (cases "heap_start s = 0")
    case True
    then have bs: "bs = []" using g by (simp add: grow_ok_def)
    obtain m where m: "fresh_header v (s2\<lparr>heap_start := v\<rparr>) = Inr (s2\<lparr>heap_start := v, ram := m\<rparr>)"
        "agree (hrange 0 v) (ram s2) m" "hdr 0 m v 4080 0 0 0"
      using fresh_header_run [of "s2\<lparr>heap_start := v\<rparr>" v] np2 bv by auto
    have "agree ?S (ram s) m"
      by (rule agree_trans [OF a1 agree_mono [OF m(2)]]) (use hv in blast)
    with m run True hs okv np2 ok l show ?thesis by (auto simp: bs heap_rel_def hdr_0)
  next
    case False
    obtain l0 where d: "dll 0 (ram s) 0 (free_list s) bs 0 l0" using g False by (auto simp: grow_ok_def heap_rel_def)
    obtain m where m: "fresh_header v s2 = Inr (s2\<lparr>ram := m\<rparr>)" "agree (hrange 0 v) (ram s2) m"
        "hdr 0 m v 4080 0 0 0"
      using fresh_header_run [OF np2 bv] by blast
    have "agree {unat (BITMAP_START + k)} (ram s) (ram s2)" by (simp add: r2 agree_upd)
    then have "dll 0 (ram s2) 0 (free_list s) bs 0 l0"
      using d dll_keep [of "{unat (BITMAP_START + k)}"] okv(3) out heads_bytes [of 0 bs] by fastforce
    moreover have ap: "heads 0 bs \<inter> hrange 0 v = {}" using heads_apart [OF ok] by simp
    ultimately have dm: "dll 0 m 0 (free_list s) bs 0 l0"
      using dll_keep [OF m(2) _ okv(3)] by simp
    have am: "agree ?S (ram s) m"
      by (rule agree_trans [OF a1 agree_mono [OF m(2)]]) (use hv in blast)
    let ?g = "\<lambda>s. Inr (True, s\<lparr>heap_blocks := heap_blocks s + 1\<rparr>)"
    obtain m' f where m': "bindE (last_block fuel (free_list s) (s2\<lparr>ram := m\<rparr>)) (\<lambda>lst.
         bindE (if lst \<noteq> 0 then bindE (st32 (lst + 8) v (s2\<lparr>ram := m\<rparr>)) (\<lambda>s. st32 (v + 12) lst s)
                else Inr (s2\<lparr>ram := m, free_list := v\<rparr>)) ?g) = ?g (s2\<lparr>ram := m', free_list := f\<rparr>)"
        "heap_rel (s2\<lparr>ram := m', free_list := f\<rparr>) (bs @ [(v, 4080)])" "agree (bytes 0 (bs @ [(v, 4080)])) m m'"
      using link_last_run [of "s2\<lparr>ram := m\<rparr>" bs l0 v 4080 fuel ?g] np2 dm ok m(3) fuel by (auto simp: hs)
    have "agree ?S (ram s) m'" by (rule agree_trans [OF am agree_mono [OF m'(3)]]) blast
    moreover have "heap_rel (s2\<lparr>ram := m', free_list := f, heap_blocks := heap_blocks s2 + 1\<rparr>) (bs @ [(v, 4080)])"
      (is "heap_rel ?s' _") using m'(2) by (simp add: heap_rel_def)
    moreover have "heap_add_page fuel s = Inr (True, ?s')" using run False m(1) m'(1) by (simp add: hs)
    ultimately show ?thesis using l False hs by (intro exI [of _ ?s'] conjI) simp_all
  qed
qed

lemma heap_fields_more:
  assumes "vmm.more s' = vmm.more s"
  shows "heap_start s' = heap_start s" "heap_total s' = heap_total s" "free_list s' = free_list s"
    "heap_used s' = heap_used s" "heap_blocks s' = heap_blocks s"
  using assms by (cases s; cases s'; simp)+

text \<open>
  The pages grow upwards from \<open>TEST_HEAP_VIRT\<close>, with the frames from 4100 on.  After \<open>j\<close> rounds only
  \<open>j\<close> bitmap bytes and bytes of \<open>j\<close> pages have changed.
\<close>

definition window :: "nat \<Rightarrow> nat set" where
  "window j = {0xC0100000 ..< 0xC0100000 + 4096 * j}"

definition page_block :: "nat \<Rightarrow> u32 \<times> u32" where
  "page_block j = (TEST_HEAP_VIRT + of_nat j * 4096, 4080)"

definition grown :: "nat \<Rightarrow> nat set" where
  "grown j = {0x1001004 ..< 0x1001004 + j} \<union> window j"

lemma grown_mono: "i \<le> j \<Longrightarrow> grown i \<subseteq> grown j"
  by (auto simp: grown_def window_def)

lemma unat_nat: "j \<le> 768 \<Longrightarrow> unat (of_nat j :: u32) = j"
  by (simp add: unat_of_nat)

lemma window_page:
  assumes "j < 768"
  shows "unat (TEST_HEAP_VIRT + of_nat j * 4096) = 0xC0100000 + 4096 * j" "extent 0 (page_block j) = {0xC0100000 + 4096 * j ..< 0xC0100000 + 4096 * Suc j}"
    "window (Suc j) = window j \<union> extent 0 (page_block j)" "extent 0 (page_block j) \<inter> window j = {}"
proof -
  have "unat (of_nat j * 4096 :: u32) = 4096 * j"
    using assms by (simp add: unat_word_ariths unat_nat)
  then show u: "unat (TEST_HEAP_VIRT + of_nat j * 4096) = 0xC0100000 + 4096 * j"
    using assms by (subst unat_add_lem [THEN iffD1]) (simp_all add: TEST_HEAP_VIRT_def)
  then show e: "extent 0 (page_block j) = {0xC0100000 + 4096 * j ..< 0xC0100000 + 4096 * Suc j}"
    by (simp add: extent_def page_block_def)
  show "window (Suc j) = window j \<union> extent 0 (page_block j)" "extent 0 (page_block j) \<inter> window j = {}"
    unfolding e by (auto simp: window_def)
qed

lemma bitmap_byte:
  assumes "j < 768"
  shows "unat (4100 + of_nat j :: u32) = 4100 + j" "unat (BITMAP_START + (4100 + of_nat j)) = 0x1001004 + j"
proof -
  show u: "unat (4100 + of_nat j :: u32) = 4100 + j"
    using assms by (subst unat_add_lem [THEN iffD1]) (simp_all add: unat_nat)
  show "unat (BITMAP_START + (4100 + of_nat j)) = 0x1001004 + j"
    using assms u by (subst unat_add_lem [THEN iffD1]) (simp_all add: BITMAP_START_def)
qed

text \<open>A list of free blocks within the pages so far.\<close>

definition grow_inv :: "'a heap_scheme \<Rightarrow> nat \<Rightarrow> blocks \<Rightarrow> 'a heap_scheme \<Rightarrow> bool" where
  "grow_inv s1 j bs s \<longleftrightarrow> \<not> paging s \<and> bitmap s = BITMAP_START \<and> last_alloc_index s = 4100 + of_nat j \<and>
     total_pages s = total_pages s1 \<and> used_pages s = used_pages s1 + of_nat j \<and>
     heap_total s = of_nat j * 4096 \<and> bytes 0 bs \<subseteq> window j \<and>
     (if j = 0 then heap_start s = 0 else heap_start s \<noteq> 0 \<and> heap_rel s bs) \<and>
     agree (grown j) (ram s1) (ram s)"

lemma grow_inv_emit [simp]: "grow_inv s1 j bs (emit e s) = grow_inv s1 j bs s"
  by (simp add: grow_inv_def)

text \<open>
  A state after \<open>vmm_init\<close> whose tables are at 32 MiB and in frame 4099, with the next \<open>n\<close> frames
  free and one more managed.
\<close>

definition heap_ready :: "nat \<Rightarrow> 'a heap_scheme \<Rightarrow> bool" where
  "heap_ready n s \<longleftrightarrow> grow_inv s 0 [] s \<and> n \<le> 768 \<and> 4100 + of_nat n < total_pages s \<and> total_pages s \<le> 0x100000 \<and>
     (\<forall>j < n. ram s (BITMAP_START + (4100 + of_nat j)) = 0) \<and>
     (\<forall>v. 0xC0100000 \<le> v \<and> v < 0xC0400000 \<longrightarrow> hw_walk (ram s) page_dir v \<noteq> None) \<and>
     (\<forall>i < 1024. present (pde (ram s) i) \<longrightarrow> frame_of (pde (ram s) i) = 0x1003000)"

lemma frame_range: "frame_of a = p \<Longrightarrow> unat p \<le> unat a \<and> unat a < unat p + 4096"
proof -
  assume p: "frame_of a = p"
  have s: "p + (a AND 0xFFF) = a" using frame_low(1) [of a] p by simp
  have lt: "unat (a AND 0xFFF) < 4096" using frame_low(2) [of a] by (simp add: word_less_nat_alt)
  have "unat a div 4096 * 4096 + unat a mod 4096 = unat a" by simp
  moreover have "unat (a AND 0xFFF) = unat a mod 4096" by (rule unat_indices(3))
  moreover have "p \<le> a" using p word_and_le2 [of a "0xFFFFF000"] by (simp add: frame_of_def)
  ultimately have "unat p + unat (a AND 0xFFF) = unat a"
    using s unat_plus_simple [of p "a AND 0xFFF"] by (metis word_le_sub1 add_diff_cancel_left' le_add_diff_inverse
      unat_sub word_le_nat_alt)
  then show ?thesis using lt by linarith
qed

lemma grown_walk:
  assumes "heap_ready n s1" "agree (grown j) (ram s1) m" "j \<le> 768" "0xC0100000 \<le> v" "v < 0xC0400000"
  shows "hw_walk m page_dir v \<noteq> None"
proof -
  have out: "m a = ram s1 a" if "frame_of a \<in> {page_dir, 0x1003000}" for a
  proof -
    have "unat a \<notin> grown j"
      using frame_range [of a "frame_of a"] that assms(3) by (auto simp: grown_def window_def page_dir_def config_defs)
    then show ?thesis using assms(2) by (simp add: agree_def)
  qed
  have "hw_walk m page_dir v = hw_walk (ram s1) page_dir v"
  proof (rule hw_walk_cong)
    show "m a = ram s1 a" if "present (pde (ram s1) (pd_index v))"
      "frame_of a = frame_of (pde (ram s1) (pd_index v))" for a
      using assms(1) that index_less(1) [of v] out [of a] by (simp add: heap_ready_def)
  qed (use out in simp)
  then show ?thesis using assms(1,4,5) by (simp add: heap_ready_def)
qed

lemma append_page_ok:
  assumes "blocks_ok 0 bs" "bytes 0 bs \<subseteq> window j" "j < 768"
  shows "blocks_ok 0 (bs @ [page_block j])"
proof -
  note w = window_page [OF assms(3)]
  have "before 0 b (page_block j)" if b: "b \<in> set bs" for b
  proof -
    have "block_end 0 b - 1 \<in> extent 0 b" by (simp add: extent_ends block_end_def)
    then have "block_end 0 b - 1 \<in> window j" using b assms(2) by (auto simp: bytes_def)
    then show ?thesis using w(1) by (auto simp: before_def window_def page_block_def)
  qed
  moreover have "page_block j \<noteq> (0, n)" "block_end 0 (page_block j) \<le> 2 ^ 32" for n
    using w(1) assms(3) by (auto simp: page_block_def block_end_def dest!: arg_cong [where f = unat])
  ultimately show ?thesis
    using assms(1) by (cases "page_block j") (auto simp: blocks_ok_append blocks_ok_Cons)
qed

lemma grow_step:
  assumes r: "heap_ready n s1" and inv: "grow_inv s1 j bs s" and j: "j < n" and nil: "j = 0 \<longrightarrow> bs = []"
    and fuel: "length bs < fuel"
  shows "\<exists>s'. heap_add_page fuel s = Inr (True, s') \<and> grow_inv s1 (Suc j) (bs @ [page_block j]) s' \<and>
    agree ({0x1001004 + j} \<union> bytes 0 (bs @ [page_block j])) (ram s) (ram s')"
proof -
  let ?k = "4100 + of_nat j :: u32" and ?v = "TEST_HEAP_VIRT + of_nat j * 4096"
  have j': "j < 768" and n: "n \<le> 768" using r j by (simp_all add: heap_ready_def)
  note w = window_page [OF j'] and bb = bitmap_byte [OF j']
  have tot: "4100 + of_nat n < total_pages s" "total_pages s \<le> 0x100000"
    using r inv by (simp_all add: heap_ready_def grow_inv_def)
  have un: "unat (4100 + of_nat n :: u32) = 4100 + n"
    using n by (subst unat_add_lem [THEN iffD1]) (simp_all add: unat_nat)
  have "unat (?k + 1) = 4101 + j" using bb(1) j' by (subst unat_add_lem [THEN iffD1]) simp_all
  then have si: "?k < total_pages s" "?k + 1 < total_pages s" "4096 \<le> ?k"
    using tot(1) j un bb(1) by (simp_all only: word_less_nat_alt word_le_nat_alt) simp_all
  have ag: "agree (grown j) (ram s1) (ram s)" and bw: "bytes 0 bs \<subseteq> window j" using inv by (simp_all add: grow_inv_def)
  have "unat (BITMAP_START + ?k) \<notin> grown j" unfolding bb(2) using j' by (auto simp: grown_def window_def)
  then have z: "ram s (BITMAP_START + ?k) = 0" using ag r j by (simp add: agree_def heap_ready_def)
  have g: "grow_ok s bs ?k" using inv tot si z nil by (auto simp: grow_inv_def grow_ok_def split: if_splits)
  have v: "?v = TEST_HEAP_VIRT + heap_total s" using inv by (simp add: grow_inv_def)
  have okb: "blocks_ok 0 bs" using inv nil by (cases "j = 0") (auto simp: grow_inv_def heap_rel_def)
  have ok: "blocks_ok 0 (bs @ [(?v, 4080)])" using append_page_ok [OF okb bw j'] by (simp add: page_block_def)
  have wb: "bytes 0 (bs @ [page_block j]) \<subseteq> window (Suc j)" using bw w(3) by auto
  have out: "unat (BITMAP_START + ?k) \<notin> bytes 0 (bs @ [(?v, 4080)])"
    unfolding bb(2) using wb j' by (auto simp: page_block_def window_def)
  have S: "{0x1001004 + j} \<union> bytes 0 (bs @ [page_block j]) \<subseteq> grown (Suc j)"
    using wb by (auto simp: grown_def)
  have "agree (grown (Suc j)) (ram s1) ((ram s)(BITMAP_START + ?k := 1))"
    by (rule agree_trans [OF agree_mono [OF ag grown_mono] agree_upd]) (use bb(2) in \<open>simp_all add: grown_def\<close>)
  moreover have "0xC0100000 \<le> ?v \<and> ?v < 0xC0400000" unfolding word_le_nat_alt word_less_nat_alt w(1) using j' by simp
  ultimately have mapped: "hw_walk ((ram s)(BITMAP_START + ?k := 1)) page_dir ?v \<noteq> None"
    using grown_walk [OF r] j' by fastforce
  obtain s' where s': "heap_add_page fuel s = Inr (True, s')" "heap_rel s' (bs @ [page_block j])"
      "heap_start s' \<noteq> 0" "heap_total s' = heap_total s + 4096" "last_alloc_index s' = ?k + 1"
      "bitmap s' = BITMAP_START" "total_pages s' = total_pages s" "used_pages s' = used_pages s + 1"
      "agree ({0x1001004 + j} \<union> bytes 0 (bs @ [page_block j])) (ram s) (ram s')"
    using heap_add_page_run [OF g v ok out mapped fuel] unfolding bb(2) page_block_def by blast
  have "agree (grown (Suc j)) (ram s1) (ram s')"
    by (rule agree_trans [OF agree_mono [OF ag grown_mono] agree_mono [OF s'(9) S]]) simp
  moreover have "\<not> paging s'" using s'(2) by (simp add: heap_rel_def)
  ultimately have "grow_inv s1 (Suc j) (bs @ [page_block j]) s'"
    using s' wb inv by (simp add: grow_inv_def algebra_simps)
  with s'(1,9) show ?thesis by blast
qed

text \<open>\<open>heap_init\<close>: four pages.\<close>

definition init_blocks :: blocks where
  "init_blocks = map page_block [0..<4]"

lemma init_blocks_at: "init_blocks = [(0xC0100000, 4080), (0xC0101000, 4080), (0xC0102000, 4080), (0xC0103000, 4080)]"
  by (simp add: init_blocks_def page_block_def TEST_HEAP_VIRT_def eval_nat_numeral)

lemma heap_init_run:
  assumes r: "heap_ready n s" and n: "4 \<le> n" and fuel: "4 \<le> fuel"
  shows "\<exists>s'. heap_init fuel s = Inr s' \<and> grow_inv s 4 init_blocks s'"
proof -
  have 4: "unat HEAP_INIT_PAGES = Suc (Suc (Suc (Suc 0)))" by (simp add: HEAP_INIT_PAGES_def)
  define e where "e = Kprintf (''%s %s Initializing at %x...'' @ crlf) [ArgS LOG_INFO, ArgS LOG_HEAP, ArgW TEST_HEAP_VIRT]"
  have step: "\<exists>s'. heap_add_page fuel t = Inr (True, s') \<and> grow_inv s (Suc j) (map page_block [0..<Suc j]) s'"
    if "grow_inv s j (map page_block [0..<j]) t" "j < 4" for j t
    using grow_step [OF r that(1), of fuel] that(2) n fuel by auto
  have "grow_inv s 0 (map page_block [0..<0]) (emit e s)" using r by (simp add: heap_ready_def)
  from step [OF this] obtain a where a: "heap_add_page fuel (emit e s) = Inr (True, a)" "grow_inv s (Suc 0) (map page_block [0..<Suc 0]) a"
    by auto
  from step [OF a(2)] obtain b where b: "heap_add_page fuel a = Inr (True, b)" "grow_inv s (Suc (Suc 0)) (map page_block [0..<Suc (Suc 0)]) b"
    by auto
  from step [OF b(2)] obtain c where c: "heap_add_page fuel b = Inr (True, c)"
      "grow_inv s (Suc (Suc (Suc 0))) (map page_block [0..<Suc (Suc (Suc 0))]) c"
    by auto
  from step [OF c(2)] obtain d where d: "heap_add_page fuel c = Inr (True, d)"
      "grow_inv s (Suc (Suc (Suc (Suc 0)))) (map page_block [0..<Suc (Suc (Suc (Suc 0)))]) d"
    by auto
  have "grow_inv s 4 init_blocks d" using d(2) by (simp add: init_blocks_def eval_nat_numeral del: upt_Suc)
  then show ?thesis
    unfolding heap_init_def Let_def e_def [symmetric] heap_expand_def 4
    using a(1) b(1) c(1) d(1) by simp
qed

section \<open>A request that grows the heap\<close>

lemma grow_inv_list:
  assumes "grow_inv s1 j bs s" "0 < j" "same_rest s s'" "heap_rel s' bs'" "bytes 0 bs' \<subseteq> window j"
    and "agree (window j) (ram s) (ram s')"
  shows "grow_inv s1 j bs' s'"
proof -
  have "agree (grown j) (ram s1) (ram s')"
    by (rule agree_trans [OF _ agree_mono [OF assms(6)]]) (use assms(1) in \<open>auto simp: grow_inv_def grown_def\<close>)
  then show ?thesis using assms by (simp add: grow_inv_def same_rest_def heap_rel_def)
qed

lemma take_fit_append:
  "take_fit k rest sz bs = None \<Longrightarrow>
   take_fit k rest sz (bs @ cs) = map_option (\<lambda>(b, ds). (b, bs @ ds)) (take_fit k rest sz cs)"
proof (induction bs)
  case Nil
  show ?case by (cases "take_fit k rest sz cs") auto
next
  case (Cons b bs)
  obtain a n where b: "b = (a, n)" by force
  then have "take_fit k rest sz bs = None" "\<not> sz \<le> n" using Cons.prems by (auto split: if_splits)
  with Cons.IH show ?case by (cases "take_fit k rest sz cs") (auto simp: b)
qed

lemma round8_page:
  assumes "req \<noteq> 0" "req \<le> 4080"
  shows "round8 req \<noteq> 0" "round8 req \<le> 4080" "req \<le> round8 req"
    "(round8 req + block_hdr + PAGE_SIZE - 1) div PAGE_SIZE = 1"
proof -
  have r: "unat req \<le> 4080" using assms(2) by (simp add: word_le_nat_alt)
  then have u: "unat (req + 7) = unat req + 7" by (subst unat_add_lem [THEN iffD1]) simp_all
  have d: "unat (round8 req) = (unat req + 7) div 8 * 8" using round8_div [of req] by (simp add: u)
  show le: "round8 req \<le> 4080" unfolding word_le_nat_alt d using r by simp
  have "req \<le> 0xFFFFFFF8" using assms(2) by (rule order_trans) simp
  then show ge: "req \<le> round8 req" by (rule round8_ge)
  show "round8 req \<noteq> 0" using ge assms(1) by auto
  have "unat (round8 req) \<le> 4080" using le by (simp add: word_le_nat_alt)
  then have "unat (round8 req + 4111) = unat (round8 req) + 4111" by (subst unat_add_lem [THEN iffD1]) simp_all
  moreover have "(unat (round8 req) + 4111) div 4096 = 1" using \<open>unat (round8 req) \<le> 4080\<close> by simp
  ultimately have "unat ((round8 req + 4111) div 4096) = unat (1 :: u32)" by (simp add: unat_div)
  then have "(round8 req + 4111) div 4096 = 1" by (rule unsigned_word_eqI)
  moreover have "round8 req + block_hdr + PAGE_SIZE - 1 = round8 req + 4111"
    by (simp add: block_hdr_def PAGE_SIZE_def)
  ultimately show "(round8 req + block_hdr + PAGE_SIZE - 1) div PAGE_SIZE = 1"
    by (simp only: PAGE_SIZE_def)
qed

lemma kmalloc_grow_run:
  assumes r: "heap_ready n s1" and inv: "grow_inv s1 j bs s" and j: "0 < j" "j < n"
    and req: "req \<noteq> 0" "req \<le> 4080" and none: "take_fit 0 (heap_rest (round8 req)) (round8 req) bs = None"
    and fuel: "length bs + 3 < fuel"
    and t: "take_fit 0 (heap_rest (round8 req)) (round8 req) (bs @ [page_block j]) = Some ((a, m), bs')"
  shows "\<exists>s' nx pv. kmalloc fuel req s = Inr (a + 16, s') \<and> grow_inv s1 (Suc j) bs' s' \<and>
    hdr 0 (ram s') a m 1 nx pv \<and> agree ({0x1001004 + j} \<union> bytes 0 (bs @ [page_block j])) (ram s) (ram s')"
proof -
  obtain f g where f: "fuel = Suc f" "f = Suc g" "length bs + 1 < g"
    by (rule that [of "fuel - 1" "fuel - 2"]) (use fuel in simp_all)
  let ?sz = "round8 req"
  note sz = round8_page [OF req]
  have rel: "heap_rel s bs" using inv j(1) by (simp add: grow_inv_def)
  define e where "e = Kprintf (''%s %s Request: %d bytes'' @ crlf) [ArgS LOG_DEBUG, ArgS LOG_HEAP, ArgW ?sz]"
  define e' where "e' = Kprintf (''%s %s No free block, expanding by %d pages...'' @ crlf)
    [ArgS LOG_DEBUG, ArgS LOG_HEAP, ArgW 1]"
  let ?s = "emit e s"
  have np: "\<not> paging ?s" and okz: "\<forall>b \<in> set bs. fst b \<noteq> 0" and d: "\<exists>l. dll 0 (ram ?s) 0 (free_list ?s) bs 0 l"
    using rel by (auto simp: heap_rel_def blocks_ok_def)
  have "find_fit f (free_list ?s) ?sz ?s = Inr None"
    using d find_fit_run [OF np _ okz, of 0 "free_list ?s" _ f ?sz] f(2,3) none by (auto simp: take_fit_None)
  then have 1: "kmalloc fuel req s = bindE (heap_expand f 1 (emit e' ?s)) (\<lambda>s. kmalloc f ?sz s)"
    using req(1) by (simp add: f(1) kmalloc.simps(2) Let_def sz(4) e_def [symmetric] e'_def [symmetric] del: append_Cons emit_heap)
  have inv': "grow_inv s1 j bs (emit e' ?s)" using inv by simp
  obtain s2 where s2: "heap_add_page f (emit e' ?s) = Inr (True, s2)" "grow_inv s1 (Suc j) (bs @ [page_block j]) s2"
      "agree ({0x1001004 + j} \<union> bytes 0 (bs @ [page_block j])) (ram s) (ram s2)"
    using grow_step [OF r inv' j(2), of f] f(2,3) j(1) by auto
  obtain e2 where e2: "heap_expand f 1 (emit e' ?s) = Inr (emit e2 s2)"
    using s2(1) by (simp add: heap_expand_def)
  have rel2: "heap_rel (emit e2 s2) (bs @ [page_block j])" using s2(2) by (simp add: grow_inv_def)
  have t': "take_fit 0 (heap_rest (round8 ?sz)) (round8 ?sz) (bs @ [page_block j]) = Some ((a, m), bs')"
    using t by (simp add: round8_idem)
  have "length (bs @ [page_block j]) < g" using f(3) by simp
  from kmalloc_run [OF rel2 sz(1) this t', folded f(2)]
  obtain s' nx pv where s': "kmalloc f ?sz (emit e2 s2) = Inr (a + 16, s')" "heap_rel s' bs'"
      "hdr 0 (ram s') a m 1 nx pv" "agree (bytes 0 (bs @ [page_block j])) (ram s2) (ram s')" "same_rest (emit e2 s2) s'"
    by auto
  have w: "bytes 0 (bs @ [page_block j]) \<subseteq> window (Suc j)" using s2(2) by (simp add: grow_inv_def)
  have "blocks_ok 0 (bs @ [page_block j])" using rel2 by (simp add: heap_rel_def)
  from take_fit_ok(3) [OF t this rest_sound] have "bytes 0 bs' \<subseteq> bytes 0 (bs @ [page_block j])" by blast
  then have "grow_inv s1 (Suc j) bs' s'"
    using grow_inv_list [of s1 "Suc j" "bs @ [page_block j]" "emit e2 s2" s' bs'] s2(2) s'(2,5) agree_mono [OF s'(4) w] w by auto
  moreover have "agree ({0x1001004 + j} \<union> bytes 0 (bs @ [page_block j])) (ram s) (ram s')"
    by (rule agree_trans [OF s2(3) agree_mono [OF s'(4)]]) blast
  ultimately show ?thesis using 1 e2 s'(1,3) by auto
qed

section \<open>The heap at boot\<close>

text \<open>The boot sequence without the switch to paging leaves a state the heap can start from.\<close>

lemma boot_tables_other:
  assumes "frame_of p = p" "frame_of a \<noteq> p" "frame_of a \<noteq> page_dir" "a \<noteq> b"
  shows "boot_tables p b m a = m a"
  using assms by (simp add: boot_tables_def wr32_other_frame fill_other)

lemma vmm_init_heap_ready:
  assumes b: "boot_ready 4099 s" and n: "n \<le> 768" "4100 + of_nat n < total_pages s"
    and h: "heap_start s = 0" "heap_total s = 0" and z: "\<forall>j < n. ram s (BITMAP_START + (4100 + of_nat j)) = 0"
  obtains s1 where "vmm_init s = Inr s1" "heap_ready n s1" "used_pages s1 = used_pages s + 1"
  using b
proof (rule vmm_init_ready)
  fix s1 :: "'a heap_scheme"
  assume s1: "vmm_init s = Inr s1" "\<not> paging s1"
    "ram s1 = boot_tables (4099 * PAGE_SIZE) (BITMAP_START + 4099) (ram s)"
    "bitmap s1 = BITMAP_START" "total_pages s1 = total_pages s" "used_pages s1 = used_pages s + 1"
    "last_alloc_index s1 = (if 4099 + 1 \<ge> total_pages s then 4096 else 4099 + 1)" "vmm.more s1 = vmm.more s"
    and w: "\<And>v. hw_walk (ram s1) page_dir v = (if v < 0x400000 then Some v
       else if 0xC0000000 \<le> v \<and> v < 0xC0400000 then Some (v - 0xC0000000) else None)"
    and p: "\<And>j. j < 1024 \<Longrightarrow> pde (ram s1) j = (if j = 0 \<or> j = 768 then (4099 * PAGE_SIZE) OR 3 else 2)"
  have pf: "4099 * PAGE_SIZE = 0x1003000" "frame_of (0x1003000 :: u32) = 0x1003000"
    by (simp_all add: PAGE_SIZE_def frame_of_def)
  have zz: "ram s1 (BITMAP_START + (4100 + of_nat j)) = 0" if "j < n" for j
  proof -
    have j: "j < 768" using that n(1) by simp
    note u = bitmap_byte(2) [OF j]
    have "ram s1 (BITMAP_START + (4100 + of_nat j)) = ram s (BITMAP_START + (4100 + of_nat j))"
      unfolding s1(3) pf(1)
    proof (rule boot_tables_other [OF pf(2)])
      show "frame_of (BITMAP_START + (4100 + of_nat j)) \<noteq> 0x1003000"
        "frame_of (BITMAP_START + (4100 + of_nat j)) \<noteq> page_dir"
        using frame_range [OF refl, of "BITMAP_START + (4100 + of_nat j)"] u j
        by (auto simp: page_dir_def config_defs)
      have "unat (BITMAP_START + 4099) = 0x1001003" by (simp add: BITMAP_START_def)
      with u show "BITMAP_START + (4100 + of_nat j) \<noteq> BITMAP_START + 4099" by force
    qed
    then show ?thesis using z that by simp
  qed
  have "unat (4100 + of_nat n :: u32) = 4100 + n"
    using n(1) by (subst unat_add_lem [THEN iffD1]) (simp_all add: unat_nat)
  then have "4099 + 1 < total_pages s" using n(2) by (simp add: word_less_nat_alt)
  then have "last_alloc_index s1 = 4100" using s1(7) by (simp add: not_le)
  then have "grow_inv s1 0 [] s1"
    using s1(2,4) h heap_fields_more [OF s1(8)] by (simp add: grow_inv_def)
  moreover have "total_pages s \<le> 0x100000" using b by (simp add: boot_ready_def)
  moreover have "hw_walk (ram s1) page_dir v \<noteq> None" if "0xC0100000 \<le> v" "v < 0xC0400000" for v
    using that unfolding w by (auto simp: word_le_nat_alt word_less_nat_alt)
  moreover have "frame_of (pde (ram s1) i) = 0x1003000" if "i < 1024" "present (pde (ram s1) i)" for i
    using that p [OF that(1)] entry_flags(1) [OF pf(2)] by (auto simp: pf(1) present_def split: if_splits)
  ultimately have "heap_ready n s1" using n zz s1(5) by (simp add: heap_ready_def)
  with that s1(1,6) show thesis by blast
qed

section \<open>Properties\<close>

text \<open>
  C17. \<open>heap_init\<close> builds the heap when paging is still off: after \<open>pmm_init\<close>, three frames handed
  out and \<open>vmm_init\<close>, it returns with four free pages of 4080 bytes on the list at
  \<open>TEST_HEAP_VIRT\<close>, 16 KiB of heap and four frames taken, none of which was mapped, because the
  window was mapped already.
\<close>

theorem heap_init_at_boot:
  assumes "boot_ready 4099 s" "4105 \<le> total_pages s" "heap_start s = 0" "heap_total s = 0"
    and "\<forall>j < 4. ram s (BITMAP_START + (4100 + of_nat j)) = 0" "4 \<le> fuel"
  shows "\<exists>s1 s2. vmm_init s = Inr s1 \<and> heap_init fuel s1 = Inr s2 \<and> heap_total s2 = 0x4000 \<and>
    heap_rel s2 [(0xC0100000, 4080), (0xC0101000, 4080), (0xC0102000, 4080), (0xC0103000, 4080)] \<and>
    used_pages s2 = used_pages s + 5"
proof -
  have n: "(4 :: nat) \<le> 768" "4100 + of_nat 4 < total_pages s"
    using assms(2) by (simp_all add: word_le_nat_alt word_less_nat_alt)
  obtain s1 where s1: "vmm_init s = Inr s1" "heap_ready 4 s1" "used_pages s1 = used_pages s + 1"
    using vmm_init_heap_ready [OF assms(1) n assms(3-5)] by blast
  obtain s2 where "heap_init fuel s1 = Inr s2" "grow_inv s1 4 init_blocks s2"
    using heap_init_run [OF s1(2) order_refl assms(6)] by blast
  with s1 show ?thesis by (simp add: grow_inv_def init_blocks_at)
qed

definition sample_heap_boot :: heap where
  "sample_heap_boot = \<lparr>ram = (\<lambda>_. 0), cr0 = 0, cr3 = 0, trace = [], bitmap = BITMAP_START,
     total_pages = 0x20000, used_pages = 4099, last_alloc_index = 4099, total_mapped = 0,
     heap_start = 0, free_list = 0, heap_total = 0, heap_used = 0, heap_blocks = 0\<rparr>"

theorem heap_init_at_boot_witness:
  "\<exists>s1 s2. vmm_init sample_heap_boot = Inr s1 \<and> heap_init 4 s1 = Inr s2 \<and> heap_total s2 = 0x4000"
proof -
  have "boot_ready 4099 sample_heap_boot" "4105 \<le> total_pages sample_heap_boot"
    "heap_start sample_heap_boot = 0" "heap_total sample_heap_boot = 0"
    "\<forall>j < 4. ram sample_heap_boot (BITMAP_START + (4100 + of_nat j)) = 0" "(4 :: nat) \<le> 4"
    by (auto simp: boot_ready_def sample_heap_boot_def paging_def)
  from heap_init_at_boot [OF this] show ?thesis by blast
qed

end
