(* ===== verification/Heap_Run.thy ===== *)
theory Heap_Run
  imports Heap_Growth
begin

text \<open>
  The kernel heap over whole runs.  \<open>heap_run n s0 s us\<close> says that \<open>s\<close> is reached from \<open>s0\<close>, a state
  \<open>vmm_init\<close> leaves behind with \<open>n\<close> free frames, by \<open>heap_init\<close>, calls of \<open>kmalloc\<close> and \<open>kfree\<close>, stores
  into the payload of blocks in use and output, with \<open>us\<close> the blocks in use.  The requests are those
  \<open>kmalloc\<close> can serve, from a free block or from one more page (\<open>served\<close>); the others make it recurse
  until no frame is left.

  \<open>RUN_FUEL\<close> is enough for every walk of these runs: they have at most 768 pages, and a block takes 16
  bytes.  The bound on the pages is one of the theorems (\<open>n\<close> is at most 768, the pages from
  \<open>TEST_HEAP_VIRT\<close> to the end of the window mapped at boot); the code itself has none.
\<close>

section \<open>The invariant\<close>

definition RUN_FUEL :: nat where "RUN_FUEL = 196612"

definition run_inv :: "nat \<Rightarrow> 'a heap_scheme \<Rightarrow> nat \<Rightarrow> blocks \<Rightarrow> blocks \<Rightarrow> 'a heap_scheme \<Rightarrow> bool" where
  "run_inv n s0 j bs us s \<longleftrightarrow> heap_ready n s0 \<and> 4 \<le> j \<and> j \<le> n \<and> grow_inv s0 j bs s \<and>
     shares 0 (window j) bs us \<and> (\<forall>u \<in> set us. heap_held s u)"

lemma run_inv_emit [simp]: "run_inv n s0 j bs us (emit e s) = run_inv n s0 j bs us s"
  by (simp add: run_inv_def heap_held_def)

lemma run_inv_facts:
  assumes "run_inv n s0 j bs us s"
  shows "heap_rel s bs" "heap_total s = of_nat j * 4096" "j \<le> 768" "blocks_ok 0 bs" "bytes 0 bs \<subseteq> window j"
  using assms by (auto simp: run_inv_def grow_inv_def heap_ready_def heap_rel_def)

lemma run_fuel:
  assumes "run_inv n s0 j bs us s" "RUN_FUEL \<le> fuel"
  shows "length bs + 3 < fuel"
proof -
  have "bytes 0 bs \<subseteq> window 768"
    using run_inv_facts(3,5) [OF assms(1)] by (auto simp: window_def)
  then have "card (bytes 0 bs) \<le> 768 * 4096"
    using card_mono [of "window 768"] by (fastforce simp: window_def)
  moreover have "blocks_apart 0 bs" using run_inv_facts(4) [OF assms(1)] blocks_ok_apart by auto
  ultimately show ?thesis using apart_length [of 0 bs] assms(2) by (simp add: RUN_FUEL_def)
qed

lemma run_used:
  assumes "run_inv n s0 j bs us s" "(a, m) \<in> set us"
  shows "unat (a + 16) = unat a + 16" "a + 16 \<noteq> 0" "rd32 (ram s) a = m"
proof -
  have "extent 0 (a, m) \<subseteq> window 768"
    using assms shares_in(1) [OF _ assms(2)] run_inv_facts(3) [OF assms(1)] by (fastforce simp: run_inv_def window_def)
  moreover have "unat a \<in> extent 0 (a, m)" by simp
  ultimately have "0xC0100000 \<le> unat a \<and> unat a < 0xC0400000" unfolding window_def by fastforce
  then show u: "unat (a + 16) = unat a + 16" by (subst unat_add_lem [THEN iffD1]) simp_all
  then show "a + 16 \<noteq> 0" by auto
  show "rd32 (ram s) a = m" using assms by (auto simp: run_inv_def heap_held_def hdr_0)
qed

lemma heap_rel_unique: "heap_rel s bs \<Longrightarrow> heap_rel s cs \<Longrightarrow> bs = cs"
  using dlu_unique [of 0 0 "ram s" 0 "free_list s" bs _ cs] by (fastforce simp: heap_rel_def blocks_ok_def)

text \<open>Blocks in use are kept when only free bytes and the bitmap change.\<close>

lemma held_kept:
  assumes "\<forall>u \<in> set us. heap_held s u" "agree (B \<union> S) (ram s) (ram s')" "bytes 0 us \<inter> (B \<union> S) = {}"
  shows "\<forall>u \<in> set us. heap_held s' u"
proof
  fix u assume u: "u \<in> set us"
  have "extent 0 u \<inter> (B \<union> S) = {}" using apart_bytes [OF u, of 0] assms(3) by auto
  then show "heap_held s' u" using held_agree [OF _ assms(2)] assms(1) u by blast
qed

lemma shares_window:
  assumes "shares 0 (window j) bs us"
  shows "bytes 0 us \<inter> bytes 0 bs = {}" "bytes 0 us \<subseteq> window j"
  using assms by (auto simp: shares_def)

section \<open>The operations on it\<close>

lemma window_blocks: "j \<le> 768 \<Longrightarrow> bytes 0 (map page_block [0..<j]) = window j"
proof (induction j)
  case 0
  show ?case by (simp add: window_def)
next
  case (Suc j)
  then show ?case using window_page(3) [of j] by simp
qed

lemma heap_init_inv:
  assumes "heap_ready n s0" "4 \<le> n" "4 \<le> fuel"
  shows "\<exists>s. heap_init fuel s0 = Inr s \<and> run_inv n s0 4 init_blocks [] s"
proof -
  obtain s where s: "heap_init fuel s0 = Inr s" "grow_inv s0 4 init_blocks s" using heap_init_run [OF assms] by blast
  have "bytes 0 init_blocks = window 4" unfolding init_blocks_def by (rule window_blocks) simp
  then show ?thesis using s assms by (auto simp: run_inv_def shares_start)
qed

lemma take_held:
  assumes "hdr 0 (ram s') a m 1 nx pv" "take_fit 0 (heap_rest sz) sz bs = Some ((a, m), bs')" "blocks_ok 0 bs"
  shows "heap_held s' (a, m)" "sz \<le> m" "bytes 0 bs' \<subseteq> bytes 0 bs"
  using take_fit_ok [OF assms(2,3) rest_sound] assms(1) by (auto simp: heap_held_def)

lemma alloc_fits:
  assumes inv: "run_inv n s0 j bs us s" and req: "req \<noteq> 0" and fuel: "RUN_FUEL \<le> fuel"
    and t: "take_fit 0 (heap_rest (round8 req)) (round8 req) bs = Some ((a, m), bs')"
  shows "\<exists>s'. kmalloc fuel req s = Inr (a + 16, s') \<and> run_inv n s0 j bs' ((a, m) # us) s' \<and>
    agree ({0x1001004 + j} \<union> bytes 0 bs) (ram s) (ram s')"
proof -
  note f = run_inv_facts [OF inv]
  obtain g where g: "fuel = Suc g" "length bs < g"
    by (rule that [of "fuel - 1"]) (use run_fuel [OF inv fuel] in simp_all)
  obtain s' nx pv where s': "kmalloc fuel req s = Inr (a + 16, s')" "heap_rel s' bs'" "hdr 0 (ram s') a m 1 nx pv"
      "agree (bytes 0 bs) (ram s) (ram s')" "same_rest s s'"
    using kmalloc_run [OF f(1) req g(2) t] unfolding g(1) by blast
  note th = take_held [OF s'(3) t f(4)]
  have sh: "shares 0 (window j) bs us" and gi: "grow_inv s0 j bs s" and j: "0 < j"
    using inv by (simp_all add: run_inv_def)
  have "\<forall>u \<in> set us. heap_held s' u"
    using held_kept [of us s "{}" "bytes 0 bs" s'] s'(4) inv shares_window(1) [OF sh] by (simp add: run_inv_def)
  moreover have "grow_inv s0 j bs' s'"
    using grow_inv_list [OF gi j s'(5,2)] th(3) f(5) agree_mono [OF s'(4) f(5)] by blast
  moreover have "shares 0 (window j) bs' ((a, m) # us)"
    by (rule heap_blocks.shares_take [OF f(1) TrueI t sh])
  ultimately have "run_inv n s0 j bs' ((a, m) # us) s'" using inv th(1) by (simp add: run_inv_def)
  moreover have "agree ({0x1001004 + j} \<union> bytes 0 bs) (ram s) (ram s')" by (rule agree_mono [OF s'(4)]) blast
  ultimately show ?thesis using s'(1) by blast
qed

lemma alloc_grows:
  assumes inv: "run_inv n s0 j bs us s" and req: "req \<noteq> 0" "req \<le> 4080" and fuel: "RUN_FUEL \<le> fuel" and j: "j < n"
    and none: "take_fit 0 (heap_rest (round8 req)) (round8 req) bs = None"
  obtains a m bs' s' where "kmalloc fuel req s = Inr (a + 16, s')" "run_inv n s0 (Suc j) bs' ((a, m) # us) s'"
    "round8 req \<le> m" "agree ({0x1001004 + j} \<union> bytes 0 (bs @ [page_block j])) (ram s) (ram s')"
proof -
  note f = run_inv_facts [OF inv]
  have r: "heap_ready n s0" and gi: "grow_inv s0 j bs s" and j0: "0 < j" "4 \<le> j" and sh: "shares 0 (window j) bs us"
    using inv by (simp_all add: run_inv_def)
  have j': "j < 768" using r j by (simp add: heap_ready_def)
  note w = window_page [OF j']
  have ok: "blocks_ok 0 (bs @ [page_block j])" by (rule append_page_ok [OF f(4,5) j'])
  have "round8 req \<le> 4080" by (rule round8_page(2) [OF req])
  then have "take_fit 0 (heap_rest (round8 req)) (round8 req) (bs @ [page_block j]) \<noteq> None"
    using take_fit_append [OF none, of "[page_block j]"] by (simp add: page_block_def)
  then obtain a m bs' where t: "take_fit 0 (heap_rest (round8 req)) (round8 req) (bs @ [page_block j]) = Some ((a, m), bs')"
    by auto
  obtain s' nx pv where s': "kmalloc fuel req s = Inr (a + 16, s')" "grow_inv s0 (Suc j) bs' s'"
      "hdr 0 (ram s') a m 1 nx pv" "agree ({0x1001004 + j} \<union> bytes 0 (bs @ [page_block j])) (ram s) (ram s')"
    using kmalloc_grow_run [OF r gi j0(1) j req none run_fuel [OF inv fuel] t] by blast
  note th = take_held [OF s'(3) t ok]
  have sh1: "shares 0 (window (Suc j)) (bs @ [page_block j]) us" unfolding w(3) by (rule shares_grow [OF sh w(4)])
  have "bytes 0 us \<inter> ({0x1001004 + j} \<union> bytes 0 (bs @ [page_block j])) = {}"
    using shares_window [OF sh] w(4) j' by (auto simp: window_def)
  then have "\<forall>u \<in> set us. heap_held s' u" using held_kept [of us, OF _ s'(4)] inv by (simp add: run_inv_def)
  moreover have "shares 0 (window (Suc j)) bs' ((a, m) # us)" by (rule shares_take_fit [OF t ok rest_sound sh1])
  ultimately have "run_inv n s0 (Suc j) bs' ((a, m) # us) s'" using r j j0 s'(2) th(1) by (simp add: run_inv_def)
  then show thesis using that s'(1,4) th(2) by blast
qed

text \<open>A request that can be served: a free block is large enough, or one more page is and a frame is left.\<close>

definition served :: "nat \<Rightarrow> 'a heap_scheme \<Rightarrow> u32 \<Rightarrow> bool" where
  "served n s req \<longleftrightarrow> req \<noteq> 0 \<and> ((\<exists>bs. heap_rel s bs \<and> (\<exists>b \<in> set bs. round8 req \<le> snd b)) \<or>
     req \<le> 4080 \<and> heap_total s < of_nat n * 4096)"

lemma alloc_run:
  assumes inv: "run_inv n s0 j bs us s" and sv: "served n s req" and fuel: "RUN_FUEL \<le> fuel"
  obtains a m j' bs' s' where "kmalloc fuel req s = Inr (a + 16, s')" "run_inv n s0 j' bs' ((a, m) # us) s'"
    "round8 req \<le> m" "\<And>x. unat x \<in> bytes 0 us \<Longrightarrow> ram s' x = ram s x"
proof -
  note f = run_inv_facts [OF inv]
  have req: "req \<noteq> 0" and sh: "shares 0 (window j) bs us" and n: "n \<le> 768"
    using sv inv by (simp_all add: served_def run_inv_def heap_ready_def)
  note w = shares_window [OF sh]
  show thesis
  proof (cases "take_fit 0 (heap_rest (round8 req)) (round8 req) bs")
    case None
    then have "\<not> (\<exists>cs. heap_rel s cs \<and> (\<exists>b \<in> set cs. round8 req \<le> snd b))"
      using heap_rel_unique [OF f(1)] by (auto simp: take_fit_None find_None_iff)
    then have r: "req \<le> 4080" and lt: "(of_nat j * 4096 :: u32) < of_nat n * 4096"
      using sv f(2) by (auto simp: served_def)
    have "unat (of_nat i * 4096 :: u32) = 4096 * i" if "i \<le> 768" for i
      using that by (simp add: unat_word_ariths unat_nat)
    then have j: "j < n" using lt n f(3) by (simp add: word_less_nat_alt)
    obtain a m bs' s' where s': "kmalloc fuel req s = Inr (a + 16, s')" "run_inv n s0 (Suc j) bs' ((a, m) # us) s'"
        "round8 req \<le> m" "agree ({0x1001004 + j} \<union> bytes 0 (bs @ [page_block j])) (ram s) (ram s')"
      by (rule alloc_grows [OF inv req r fuel j None])
    have "bytes 0 us \<inter> ({0x1001004 + j} \<union> bytes 0 (bs @ [page_block j])) = {}"
      using w window_page(4) [of j] j n by (auto simp: window_def)
    then show thesis using that s'(1-3) agree_at [OF s'(4)] by blast
  next
    case (Some x)
    obtain a m bs' where x: "x = ((a, m), bs')" by (metis surj_pair)
    note t = Some [unfolded x]
    obtain s' where s': "kmalloc fuel req s = Inr (a + 16, s')" "run_inv n s0 j bs' ((a, m) # us) s'"
        "agree ({0x1001004 + j} \<union> bytes 0 bs) (ram s) (ram s')"
      using alloc_fits [OF inv req fuel t] by blast
    have "round8 req \<le> m" using take_fit_ok(6) [OF t f(4) rest_sound] by simp
    moreover have "bytes 0 us \<inter> ({0x1001004 + j} \<union> bytes 0 bs) = {}" using w f(3) by (auto simp: window_def)
    ultimately show thesis using that s'(1,2) agree_at [OF s'(3)] by blast
  qed
qed

lemma free_run:
  assumes inv: "run_inv n s0 j bs (us @ (a, m) # vs) s" and fuel: "RUN_FUEL \<le> fuel"
  shows "\<exists>s'. kfree fuel (a + 16) s = Inr s' \<and>
    run_inv n s0 j (merge_adjacent 0 (insert_block (a, m) bs)) (us @ vs) s' \<and>
    coalesced 0 (merge_adjacent 0 (insert_block (a, m) bs)) \<and>
    (\<forall>x. unat x \<in> bytes 0 (us @ vs) \<longrightarrow> ram s' x = ram s x)"
proof -
  let ?bs = "merge_adjacent 0 (insert_block (a, m) bs)"
  note f = run_inv_facts [OF inv]
  have sh: "shares 0 (window j) bs (us @ (a, m) # vs)" and gi: "grow_inv s0 j bs s" and j: "0 < j"
    and held: "heap_held s (a, m)"
    using inv by (simp_all add: run_inv_def)
  note sf = shares_free [OF sh f(4)]
  obtain nx pv where h: "hdr 0 (ram s) a m 1 nx pv" using held by (auto simp: heap_held_def)
  have nz: "a + 16 \<noteq> 0" using run_used(2) [OF inv, of a m] by simp
  have "Suc (length bs) < fuel" using run_fuel [OF inv fuel] by simp
  from kfree_run [OF f(1) h _ nz sf(1) this]
  obtain s' where s': "kfree fuel (a + 16) s = Inr s'" "heap_rel s' ?bs"
      "agree (bytes 0 (insert_block (a, m) bs)) (ram s) (ram s')" "same_rest s s'"
    by auto
  have d: "bytes 0 (us @ vs) \<inter> bytes 0 (insert_block (a, m) bs) = {}"
    using shares_free_bytes [OF sh] by (fastforce simp: bytes_def)
  have "\<forall>u \<in> set (us @ vs). heap_held s' u"
    using held_kept [of "us @ vs" s "{}" "bytes 0 (insert_block (a, m) bs)" s'] s'(3) inv d by (auto simp: run_inv_def)
  moreover have "grow_inv s0 j ?bs s'"
    using grow_inv_list [OF gi j s'(4,2)] agree_mono [OF s'(3) sf(2)] sf(3) by (auto simp: shares_def)
  ultimately have "run_inv n s0 j ?bs (us @ vs) s'" using inv sf(3) by (simp add: run_inv_def)
  then show ?thesis using s'(1) sf(4) agree_at [OF s'(3) _ d] by blast
qed

lemma payload_store_run:
  assumes inv: "run_inv n s0 j bs us s" and b: "b \<in> set us" and a: "agree (payload 0 b) (ram s) m'"
  shows "run_inv n s0 j bs us (s\<lparr>ram := m'\<rparr>)"
proof -
  note f = run_inv_facts [OF inv]
  have sh: "shares 0 (window j) bs us" and gi: "grow_inv s0 j bs s" and j: "0 < j" using inv by (simp_all add: run_inv_def)
  have ap: "blocks_apart 0 us" using sh by (simp add: shares_def)
  note p = payload_heads [OF ap b]
  have d: "heads 0 bs \<inter> payload 0 b = {}" using shares_window(1) [OF sh] p(2) heads_bytes [of 0 bs] by blast
  obtain l where "\<not> paging s" "dll 0 (ram s) 0 (free_list s) bs 0 l" using f(1) by (auto simp: heap_rel_def)
  then have rel: "heap_rel (s\<lparr>ram := m'\<rparr>) bs" using f(4) dll_keep [OF a d f(4)] by (auto simp: heap_rel_def)
  have "agree (window j) (ram s) (ram (s\<lparr>ram := m'\<rparr>))"
    using agree_mono [OF a] p(2) shares_window(2) [OF sh] by auto
  from grow_inv_list [OF gi j _ rel f(5) this] have "grow_inv s0 j bs (s\<lparr>ram := m'\<rparr>)" by (simp add: same_rest_def)
  moreover have "heap_held (s\<lparr>ram := m'\<rparr>) u" if u: "u \<in> set us" for u
  proof -
    have "hrange 0 (fst u) \<inter> payload 0 b = {}" using p(1) u by (auto simp: heads_def)
    moreover have h: "heap_held s u" using inv u by (simp add: run_inv_def)
    moreover from h have "unat (fst u) + hlen 0 \<le> 2 ^ 32" by (simp add: heap_held_def block_end_def)
    ultimately show ?thesis using hdr_agree [OF a] by (auto simp: heap_held_def)
  qed
  ultimately show ?thesis using inv by (simp add: run_inv_def)
qed

section \<open>Runs\<close>

inductive heap_run :: "nat \<Rightarrow> 'a heap_scheme \<Rightarrow> 'a heap_scheme \<Rightarrow> blocks \<Rightarrow> bool" for n s0 where
  start: "heap_ready n s0 \<Longrightarrow> 4 \<le> n \<Longrightarrow> 4 \<le> fuel \<Longrightarrow> heap_init fuel s0 = Inr s \<Longrightarrow> heap_run n s0 s []"
| alloc: "heap_run n s0 s us \<Longrightarrow> RUN_FUEL \<le> fuel \<Longrightarrow> served n s req \<Longrightarrow> kmalloc fuel req s = Inr (p, s') \<Longrightarrow>
    heap_run n s0 s' ((p - 16, rd32 (ram s') (p - 16)) # us)"
| release: "heap_run n s0 s (us @ (a, m) # vs) \<Longrightarrow> RUN_FUEL \<le> fuel \<Longrightarrow> kfree fuel (a + 16) s = Inr s' \<Longrightarrow>
    heap_run n s0 s' (us @ vs)"
| store: "heap_run n s0 s us \<Longrightarrow> b \<in> set us \<Longrightarrow> agree (payload 0 b) (ram s) m' \<Longrightarrow> heap_run n s0 (s\<lparr>ram := m'\<rparr>) us"
| shown: "heap_run n s0 s us \<Longrightarrow> heap_run n s0 (emit e s) us"

lemma heap_run_inv: "heap_run n s0 s us \<Longrightarrow> \<exists>j bs. run_inv n s0 j bs us s"
proof (induction rule: heap_run.induct)
  case (start fuel s)
  then show ?case using heap_init_inv by fastforce
next
  case (alloc s us fuel req p s')
  then obtain j bs where inv: "run_inv n s0 j bs us s" by blast
  obtain a m j' bs' where "p = a + 16" and inv': "run_inv n s0 j' bs' ((a, m) # us) s'"
    using alloc_run [OF inv alloc.hyps(3,2)] alloc.hyps(4) by (metis Inr_inject prod.inject)
  then show ?case using run_used(3) [OF inv', of a m] by auto
next
  case (release s us a m vs fuel s')
  then show ?case using free_run by fastforce
next
  case (store s us b m')
  then show ?case using payload_store_run by blast
qed auto

lemma all_released:
  assumes inv: "run_inv n s0 j bs [] s" and c: "coalesced 0 bs"
  shows "bs = [(0xC0100000, of_nat j * 4096 - 16)]"
proof (rule coalesced_unique [of 0])
  note f = run_inv_facts [OF inv]
  have j: "0 < j" using inv by (simp add: run_inv_def)
  have "unat (of_nat j * 4096 :: u32) = 4096 * j" using f(3) by (simp add: unat_word_ariths unat_nat)
  then have u: "unat (of_nat j * 4096 - 16 :: u32) = 4096 * j - 16"
    using j by (subst unat_sub) (simp_all add: word_le_nat_alt)
  have "extent 0 (0xC0100000, of_nat j * 4096 - 16) = window j"
    unfolding extent_def window_def using u j by simp
  then show "bytes 0 bs = bytes 0 [(0xC0100000, of_nat j * 4096 - 16)]"
    using inv by (simp add: run_inv_def shares_def)
  show "blocks_ok 0 [(0xC0100000, of_nat j * 4096 - 16)]"
    using u f(3) j by (simp add: blocks_ok_Cons block_end_def)
  show "coalesced 0 [(0xC0100000, of_nat j * 4096 - 16)]" by (simp add: coalesced_def extent_ends)
qed (use c run_inv_facts(4) [OF inv] in auto)

section \<open>Properties\<close>

text \<open>A run after the boot sequence: one allocation.\<close>

lemma sample_kernel_run:
  "\<exists>s1 s2 s3. vmm_init sample_heap_boot = Inr s1 \<and> heap_init 4 s1 = Inr s2 \<and>
     kmalloc RUN_FUEL 250 s2 = Inr (0xC0100010, s3) \<and> heap_run 768 s1 s3 [(0xC0100000, 256)] \<and> heap_total s3 = 0x4000"
proof -
  have "boot_ready 4099 sample_heap_boot" "(768 :: nat) \<le> 768" "4100 + of_nat 768 < total_pages sample_heap_boot"
    "heap_start sample_heap_boot = 0" "heap_total sample_heap_boot = 0"
    "\<forall>j < 768. ram sample_heap_boot (BITMAP_START + (4100 + of_nat j)) = 0"
    by (auto simp: boot_ready_def sample_heap_boot_def paging_def)
  from vmm_init_heap_ready [OF this] obtain s1 where s1: "vmm_init sample_heap_boot = Inr s1" "heap_ready 768 s1"
    by blast
  obtain s2 where s2: "heap_init 4 s1 = Inr s2" "run_inv 768 s1 4 init_blocks [] s2"
    using heap_init_inv [OF s1(2), of 4] by auto
  have r2: "heap_run 768 s1 s2 []" using heap_run.start [OF s1(2) _ order_refl s2(1)] by simp
  have t: "take_fit 0 (heap_rest (round8 250)) (round8 250) init_blocks =
      Some ((0xC0100000, 256), (0xC0100110, 3808) # tl init_blocks)"
    by (simp add: init_blocks_at round8_def heap_rest_def)
  have q: "(250 :: u32) \<noteq> 0" by simp
  obtain s3 where s3: "kmalloc RUN_FUEL 250 s2 = Inr (0xC0100000 + 16, s3)"
      "run_inv 768 s1 4 ((0xC0100110, 3808) # tl init_blocks) [(0xC0100000, 256)] s3"
    using alloc_fits [OF s2(2) q order_refl t] by auto
  have "served 768 s2 250"
    using run_inv_facts(2) [OF s2(2)] by (simp add: served_def)
  from heap_run.alloc [OF r2 order_refl this s3(1)] run_used(3) [OF s3(2), of "0xC0100000" 256]
  show ?thesis using s1(1) s2(1) s3(1) run_inv_facts(2) [OF s3(2)] by auto
qed

text \<open>
  C6. The kernel heap never loses a byte.  In every state reached from the boot state by \<open>heap_init\<close>,
  calls of \<open>kmalloc\<close> for requests it can serve, with or without growing the heap, calls of \<open>kfree\<close> and
  stores into blocks in use, the free blocks and the blocks in use do not overlap and together are the
  pages the heap has; and when the last block in use is released, they are one free block.
\<close>

theorem kernel_heap_shared_out:
  assumes "heap_run n s0 s us"
  shows "\<exists>bs j. heap_rel s bs \<and> heap_total s = of_nat j * 4096 \<and> 4 \<le> j \<and> j \<le> n \<and>
    (\<forall>b \<in> set us. heap_held s b) \<and> blocks_apart 0 us \<and> bytes 0 us \<inter> bytes 0 bs = {} \<and>
    bytes 0 bs \<union> bytes 0 us = {0xC0100000 ..< 0xC0100000 + 4096 * j} \<and>
    (\<forall>a m fuel. us = [(a, m)] \<and> RUN_FUEL \<le> fuel \<longrightarrow>
      (\<exists>s'. kfree fuel (a + 16) s = Inr s' \<and> heap_rel s' [(0xC0100000, heap_total s - 16)]))"
proof -
  obtain j bs where inv: "run_inv n s0 j bs us s" using heap_run_inv [OF assms] by blast
  note f = run_inv_facts [OF inv]
  have "\<exists>s'. kfree fuel (a + 16) s = Inr s' \<and> heap_rel s' [(0xC0100000, heap_total s - 16)]"
    if us: "us = [(a, m)]" and fuel: "RUN_FUEL \<le> fuel" for a m fuel
  proof -
    have "run_inv n s0 j bs ([] @ (a, m) # []) s" using inv us by simp
    from free_run [OF this fuel] obtain s' where s': "kfree fuel (a + 16) s = Inr s'"
        "run_inv n s0 j (merge_adjacent 0 (insert_block (a, m) bs)) [] s'"
        "coalesced 0 (merge_adjacent 0 (insert_block (a, m) bs))"
      by auto
    show ?thesis using s'(1) run_inv_facts(1) [OF s'(2)] all_released [OF s'(2,3)] f(2) by auto
  qed
  then show ?thesis
    using inv f(1,2) by (intro exI [of _ bs] exI [of _ j]) (auto simp: run_inv_def shares_def window_def)
qed

theorem kernel_heap_shared_out_witness:
  "\<exists>s1 s2 s3 s4. vmm_init sample_heap_boot = Inr s1 \<and> heap_init 4 s1 = Inr s2 \<and>
     kmalloc RUN_FUEL 250 s2 = Inr (0xC0100010, s3) \<and> kfree RUN_FUEL 0xC0100010 s3 = Inr s4 \<and>
     heap_rel s4 [(0xC0100000, 0x3FF0)]"
proof -
  obtain s1 s2 s3 where s: "vmm_init sample_heap_boot = Inr s1" "heap_init 4 s1 = Inr s2"
      "kmalloc RUN_FUEL 250 s2 = Inr (0xC0100010, s3)" "heap_run 768 s1 s3 [(0xC0100000, 256)]" "heap_total s3 = 0x4000"
    using sample_kernel_run by blast
  from kernel_heap_shared_out [OF s(4)]
  have "\<exists>s'. kfree RUN_FUEL (0xC0100000 + 16) s3 = Inr s' \<and> heap_rel s' [(0xC0100000, heap_total s3 - 16)]" by blast
  with s show ?thesis by auto
qed

text \<open>
  C7. Requests are served and contents kept.  In every such state, \<open>kmalloc\<close> returns for a request of at
  most a page while a frame is left, and for any request a free block is large enough for: the block it
  hands out is as large as the request, overlaps no block in use, and no byte stored in one has changed.
\<close>

theorem kmalloc_serves:
  assumes "heap_run n s0 s us" "served n s req" "req \<le> 0xFFFFFFF8" "RUN_FUEL \<le> fuel"
  shows "\<exists>a m s'. kmalloc fuel req s = Inr (a + 16, s') \<and> a + 16 \<noteq> 0 \<and> req \<le> m \<and> heap_run n s0 s' ((a, m) # us) \<and>
    heap_held s' (a, m) \<and> (\<forall>b \<in> set us. extent 0 (a, m) \<inter> extent 0 b = {} \<and>
      (\<forall>x. unat x \<in> payload 0 b \<longrightarrow> ram s' x = ram s x))"
proof -
  obtain j bs where inv: "run_inv n s0 j bs us s" using heap_run_inv [OF assms(1)] by blast
  obtain a m j' bs' s' where s': "kmalloc fuel req s = Inr (a + 16, s')" "run_inv n s0 j' bs' ((a, m) # us) s'"
      "round8 req \<le> m" "\<And>x. unat x \<in> bytes 0 us \<Longrightarrow> ram s' x = ram s x"
    by (rule alloc_run [OF inv assms(2,4)]) (rule that; assumption)
  have u: "rd32 (ram s') a = m" "a + 16 \<noteq> 0" using run_used(2,3) [OF s'(2), of a m] by simp_all
  have r: "heap_run n s0 s' ((a, m) # us)" using heap_run.alloc [OF assms(1,4,2) s'(1)] u(1) by simp
  have m: "req \<le> m" using round8_ge [OF assms(3)] s'(3) by (rule order_trans)
  have held: "heap_held s' (a, m)" using s'(2) by (simp add: run_inv_def)
  have ap: "blocks_apart 0 ((a, m) # us)" using s'(2) by (simp add: run_inv_def shares_def)
  have kept: "\<forall>b \<in> set us. extent 0 (a, m) \<inter> extent 0 b = {} \<and> (\<forall>x. unat x \<in> payload 0 b \<longrightarrow> ram s' x = ram s x)"
  proof (intro ballI conjI allI impI)
    fix b assume b: "b \<in> set us"
    show "extent 0 (a, m) \<inter> extent 0 b = {}" using ap b by (simp add: blocks_apart_Cons apart_def)
    show "ram s' x = ram s x" if "unat x \<in> payload 0 b" for x
      by (rule s'(4)) (use that payload_extent [of 0 b] apart_bytes [OF b, of 0] in blast)
  qed
  show ?thesis by (intro exI conjI) (rule s'(1) u(2) m r held kept)+
qed

theorem kmalloc_serves_witness:
  "\<exists>s1 s2 s3 a s4. vmm_init sample_heap_boot = Inr s1 \<and> heap_init 4 s1 = Inr s2 \<and>
     kmalloc RUN_FUEL 250 s2 = Inr (0xC0100010, s3) \<and> kmalloc RUN_FUEL 4000 s3 = Inr (a + 16, s4) \<and>
     extent 0 (a, rd32 (ram s4) a) \<inter> extent 0 (0xC0100000, 256) = {} \<and> ram s4 0xC0100010 = ram s3 0xC0100010"
proof -
  obtain s1 s2 s3 where s: "vmm_init sample_heap_boot = Inr s1" "heap_init 4 s1 = Inr s2"
      "kmalloc RUN_FUEL 250 s2 = Inr (0xC0100010, s3)" "heap_run 768 s1 s3 [(0xC0100000, 256)]" "heap_total s3 = 0x4000"
    using sample_kernel_run by blast
  have "served 768 s3 4000" using s(5) by (simp add: served_def)
  from kmalloc_serves [OF s(4) this _ order_refl] obtain a m s4 where s4: "kmalloc RUN_FUEL 4000 s3 = Inr (a + 16, s4)"
      "heap_held s4 (a, m)" "extent 0 (a, m) \<inter> extent 0 (0xC0100000, 256) = {}"
      "\<forall>x. unat x \<in> payload 0 (0xC0100000, 256) \<longrightarrow> ram s4 x = ram s3 x"
    by auto
  have "unat (0xC0100010 :: u32) \<in> payload 0 (0xC0100000, 256)" by (simp add: payload_def block_end_def)
  moreover have "rd32 (ram s4) a = m" using s4(2) by (auto simp: heap_held_def hdr_0)
  ultimately show ?thesis using s s4 by blast
qed

end
