(* ===== verification/Old_PMM.thy ===== *)
theory Old_PMM
  imports Utils Frame_Allocator
begin

text \<open>
  \<open>old/Include/PMM.c\<close>: the physical page allocator of the old kernel, a second provider of the
  contract of \<open>Frame_Allocator\<close>.  It keeps one bit per frame in a static array of 32768 words,
  reserves the first 16 MiB in the bitmap itself, and always searches from frame 4096 on.  An
  index past the array is the value \<open>Inl Undefined_Behaviour\<close>.
\<close>

section \<open>State and operations\<close>

record old_pmm = cpu +
  pmm_bitmap :: "u32 list"
  pmm_total_pages :: u32
  pmm_used_pages :: u32
  pmm_bitmap_size :: u32

definition PMM_BITMAP_SIZE :: nat where "PMM_BITMAP_SIZE = 32768"

definition bm_get :: "u32 \<Rightarrow> 'a old_pmm_scheme \<Rightarrow> fault + u32" where
  "bm_get i s = (if unat i < length (pmm_bitmap s) then Inr (pmm_bitmap s ! unat i) else Inl Undefined_Behaviour)"

definition bm_put :: "u32 \<Rightarrow> u32 \<Rightarrow> 'a old_pmm_scheme \<Rightarrow> fault + 'a old_pmm_scheme" where
  "bm_put i w s = (if unat i < length (pmm_bitmap s) then Inr (s\<lparr>pmm_bitmap := (pmm_bitmap s)[unat i := w]\<rparr>)
     else Inl Undefined_Behaviour)"

text \<open>\<open>pmm_bitmap[bitmap_index] |= (1 << bit_index)\<close>\<close>

definition bm_set :: "u32 \<Rightarrow> 'a old_pmm_scheme \<Rightarrow> fault + 'a old_pmm_scheme" where
  "bm_set i s =
     (let bitmap_index = i div 32; bit_index = i mod 32
      in bindE (bm_get bitmap_index s) (\<lambda>w. bm_put bitmap_index (w OR push_bit (unat bit_index) 1) s))"

definition PMM_GET_FREE_PAGES :: "'a old_pmm_scheme \<Rightarrow> u32" where
  "PMM_GET_FREE_PAGES s =
     (if pmm_total_pages s > pmm_used_pages s then pmm_total_pages s - pmm_used_pages s else 0)"

definition PMM_INIT :: "u32 \<Rightarrow> 'a old_pmm_scheme \<Rightarrow> fault + 'a old_pmm_scheme" where
  "PMM_INIT total_memory s =
     (let s = s\<lparr>pmm_total_pages := total_memory div PAGE_SIZE\<rparr>;
          s = s\<lparr>pmm_bitmap_size := (pmm_total_pages s + 31) div 32\<rparr>;
          s = s\<lparr>pmm_used_pages := 0\<rparr>;
          s = emit (Vga_Print ''[PMM] Total memory: '') s;
          s = emit (Vga_Print (int_to_str (total_memory div 1024 div 1024))) s;
          s = emit (Vga_Print ''MB ('') s;
          s = emit (Vga_Print (int_to_str (pmm_total_pages s))) s;
          s = emit (Vga_Print ('' pages)'' @ [LF])) s
      in bindE (foldE (\<lambda>i s. bm_put (of_nat i) 0 s) [0..<unat (pmm_bitmap_size s)] s) (\<lambda>s.
      let kernel_pages = (16 * 1024 * 1024) div PAGE_SIZE;
          s = emit (Vga_Print ''[PMM] Reserving '') s;
          s = emit (Vga_Print (int_to_str kernel_pages)) s;
          s = emit (Vga_Print ('' pages (16MB) for kernel'' @ [LF])) s
      in bindE (foldE (\<lambda>i s. bm_set (of_nat i) s) [0..<unat kernel_pages] s) (\<lambda>s.
      let s = s\<lparr>pmm_used_pages := kernel_pages\<rparr>;
          s = emit (Vga_Print ''[PMM] Ready - '') s;
          s = emit (Vga_Print (int_to_str (PMM_GET_FREE_PAGES s))) s
      in Inr (emit (Vga_Print ('' free pages available'' @ [LF])) s))))"

function PMM_SCAN :: "u32 \<Rightarrow> u32 \<Rightarrow> 'a old_pmm_scheme \<Rightarrow> fault + u32 option" where
  "PMM_SCAN i n s =
     (if i < n
      then bindE (bm_get (i div 32) s) (\<lambda>w.
        if w AND push_bit (unat (i mod 32)) 1 = 0 then Inr (Some i) else PMM_SCAN (i + 1) n s)
      else Inr None)"
  by pat_completeness auto
termination
  by (relation "measure (\<lambda>(i, n, s). unat n - unat i)") (auto simp: word_Suc_less word_less_nat_alt)

declare PMM_SCAN.simps [simp del]

definition PMM_ALLOC_PAGE :: "'a old_pmm_scheme \<Rightarrow> fault + u32 \<times> 'a old_pmm_scheme" where
  "PMM_ALLOC_PAGE s =
     bindE (PMM_SCAN 4096 (pmm_total_pages s) s) (\<lambda>r. case r of
       Some i \<Rightarrow> bindE (bm_set i s) (\<lambda>s.
         let s = s\<lparr>pmm_used_pages := pmm_used_pages s + 1\<rparr> in Inr (i * PAGE_SIZE, s))
     | None \<Rightarrow> Inr (0, s))"

definition PMM_FREE_PAGE :: "u32 \<Rightarrow> 'a old_pmm_scheme \<Rightarrow> fault + 'a old_pmm_scheme" where
  "PMM_FREE_PAGE page s =
     (let page_index = page div PAGE_SIZE in
      if page_index < 4096 then Inr s
      else let bitmap_index = page_index div 32; bit_index = page_index mod 32 in
        if bitmap_index < pmm_bitmap_size s
        then bindE (bm_get bitmap_index s) (\<lambda>w.
          if w AND push_bit (unat bit_index) 1 \<noteq> 0
          then bindE (bm_put bitmap_index (w AND NOT (push_bit (unat bit_index) 1)) s) (\<lambda>s.
            Inr (if pmm_used_pages s > 4096 then s\<lparr>pmm_used_pages := pmm_used_pages s - 1\<rparr> else s))
          else Inr s)
        else Inr s)"

definition PMM_PRINT_STATUS :: "'a old_pmm_scheme \<Rightarrow> 'a old_pmm_scheme" where
  "PMM_PRINT_STATUS s =
     (let s = emit (Vga_Print ([LF] @ ''[PMM] STATUS'' @ [LF])) s;
          s = emit (Vga_Print ''[PMM] Used Pages: '') s;
          s = emit (Vga_Print (int_to_str (pmm_used_pages s))) s;
          s = emit (Vga_Print [LF]) s;
          s = emit (Vga_Print ''[PMM] Total Pages: '') s;
          s = emit (Vga_Print (int_to_str (pmm_total_pages s))) s;
          s = emit (Vga_Print [LF]) s;
          s = emit (Vga_Print ''[PMM] Free Pages: '') s;
          s = emit (Vga_Print (int_to_str (PMM_GET_FREE_PAGES s))) s
      in emit (Vga_Print [LF]) s)"

lemma emit_old_pmm [simp]:
  "pmm_bitmap (emit e s) = pmm_bitmap s" "pmm_total_pages (emit e s) = pmm_total_pages s"
  "pmm_used_pages (emit e s) = pmm_used_pages s" "pmm_bitmap_size (emit e s) = pmm_bitmap_size s"
  "old_pmm.more (emit e s) = old_pmm.more s"
  by (simp_all add: emit_def)

section \<open>The bitmap as a set of frame numbers\<close>

definition marked :: "u32 list \<Rightarrow> nat \<Rightarrow> bool" where
  "marked bm i \<longleftrightarrow> bit (bm ! (i div 32)) (i mod 32)"

lemma marked_word: "w AND push_bit (unat (i mod 32)) 1 = 0 \<longleftrightarrow> \<not> bit (w :: u32) (unat i mod 32)" for i :: u32
  using and_exp_eq_0_iff_not_bit [of w "unat i mod 32"] by (simp add: push_bit_eq_mult unat_mod)

lemma marked_set:
  assumes "k div 32 < length bm"
  shows "marked (bm[k div 32 := bm ! (k div 32) OR push_bit (k mod 32) 1]) i \<longleftrightarrow> i = k \<or> marked bm i"
proof (cases "i div 32 = k div 32")
  case True
  have "i mod 32 = k mod 32 \<longleftrightarrow> i = k" using True by (metis div_mult_mod_eq)
  moreover have "bit (push_bit (k mod 32) (1 :: u32)) (i mod 32) \<longleftrightarrow> i mod 32 = k mod 32"
    by (auto simp: bit_exp_iff)
  ultimately show ?thesis using True assms by (simp add: marked_def bit_or_iff disj_commute)
next
  case False
  then show ?thesis by (auto simp: marked_def)
qed

lemma marked_clear:
  assumes "k div 32 < length bm"
  shows "marked (bm[k div 32 := bm ! (k div 32) AND NOT (push_bit (k mod 32) 1)]) i \<longleftrightarrow> i \<noteq> k \<and> marked bm i"
proof (cases "i div 32 = k div 32")
  case True
  have "i mod 32 = k mod 32 \<longleftrightarrow> i = k" using True by (metis div_mult_mod_eq)
  moreover have "bit (NOT (push_bit (k mod 32) (1 :: u32))) (i mod 32) \<longleftrightarrow> i mod 32 \<noteq> k mod 32"
    by (auto simp: bit_not_iff bit_exp_iff)
  ultimately show ?thesis using True assms by (auto simp: marked_def bit_and_iff)
next
  case False
  then show ?thesis by (auto simp: marked_def)
qed

text \<open>Frames by their number: managed, and of these the ones handed out.\<close>

definition managed :: "'a old_pmm_scheme \<Rightarrow> nat set" where
  "managed s = {i. 4096 \<le> i \<and> i < unat (pmm_total_pages s)}"

definition handed :: "'a old_pmm_scheme \<Rightarrow> nat set" where
  "handed s = {i \<in> managed s. marked (pmm_bitmap s) i}"

definition page_at :: "nat \<Rightarrow> u32" where
  "page_at i = of_nat i * PAGE_SIZE"

definition old_pmm_inv :: "'a old_pmm_scheme \<Rightarrow> bool" where
  "old_pmm_inv s \<longleftrightarrow> length (pmm_bitmap s) = PMM_BITMAP_SIZE \<and> pmm_total_pages s \<le> 0x100000 \<and>
     pmm_bitmap_size s = (pmm_total_pages s + 31) div 32 \<and>
     unat (pmm_used_pages s) = 4096 + card (handed s)"

definition old_pool :: "'a old_pmm_scheme \<Rightarrow> u32 set" where
  "old_pool s = page_at ` managed s"

definition old_owned :: "'a old_pmm_scheme \<Rightarrow> u32 set" where
  "old_owned s = page_at ` handed s"


section \<open>Allocation\<close>

lemma managed_bounds:
  assumes "old_pmm_inv s" "i < unat (pmm_total_pages s)"
  shows "i < 0x100000" "i div 32 < length (pmm_bitmap s)" "unat (of_nat i :: u32) = i"
    "unat ((of_nat i :: u32) div 32) = i div 32" "unat ((of_nat i :: u32) mod 32) = i mod 32"
proof -
  show i: "i < 0x100000" using assms by (simp add: old_pmm_inv_def word_le_nat_alt)
  then show "i div 32 < length (pmm_bitmap s)" using assms(1) by (simp add: old_pmm_inv_def PMM_BITMAP_SIZE_def)
  show u: "unat (of_nat i :: u32) = i" using i by (simp add: unat_of_nat)
  show "unat ((of_nat i :: u32) div 32) = i div 32" "unat ((of_nat i :: u32) mod 32) = i mod 32"
    by (simp_all add: unat_div unat_mod u)
qed

lemma page_at_inj: "inj_on page_at {i. i < 0x100000}"
proof (rule inj_onI)
  fix i j assume l: "i \<in> {i. i < 0x100000}" "j \<in> {i. i < 0x100000}" and e: "page_at i = page_at j"
  have "unat (page_at n) = n * 4096" if "n < 0x100000" for n
    using that by (simp add: page_at_def PAGE_SIZE_def unat_word_ariths unat_of_nat)
  with l e show "i = j" by (metis mem_Collect_eq mult_right_cancel zero_neq_numeral)
qed

lemma page_at_div: "i < 0x100000 \<Longrightarrow> page_at i div PAGE_SIZE = of_nat i"
  by (simp add: word_unat_eq_iff page_at_def PAGE_SIZE_def unat_div unat_word_ariths unat_of_nat)

text \<open>The search returns the lowest frame from \<open>i\<close> on that is not marked.\<close>

lemma scan_run:
  assumes "old_pmm_inv s" "n = pmm_total_pages s"
  shows "(PMM_SCAN i n s = Inr None \<and> (\<forall>j. unat i \<le> j \<and> j < unat n \<longrightarrow> marked (pmm_bitmap s) j)) \<or>
   (\<exists>k. PMM_SCAN i n s = Inr (Some (of_nat k)) \<and> unat i \<le> k \<and> k < unat n \<and> \<not> marked (pmm_bitmap s) k \<and>
      (\<forall>j. unat i \<le> j \<and> j < k \<longrightarrow> marked (pmm_bitmap s) j))"
  using assms
proof (induction i n s rule: PMM_SCAN.induct)
  case (1 i n s)
  show ?case
  proof (cases "i < n")
    case False
    then show ?thesis by (auto simp: PMM_SCAN.simps [of i] word_less_nat_alt)
  next
    case True
    let ?w = "pmm_bitmap s ! (unat i div 32)"
    have i: "unat i < unat n" using True by (simp add: word_less_nat_alt)
    have g: "bm_get (i div 32) s = Inr ?w"
      using managed_bounds(2) [OF "1.prems"(1)] i "1.prems"(2) by (simp add: bm_get_def unat_div)
    have b: "?w AND push_bit (unat (i mod 32)) 1 = 0 \<longleftrightarrow> \<not> marked (pmm_bitmap s) (unat i)"
      unfolding marked_word marked_def ..
    have s: "unat (i + 1) = Suc (unat i)" using word_Suc_less [OF True] .
    have split: "unat i \<le> j \<longleftrightarrow> j = unat i \<or> Suc (unat i) \<le> j" for j by auto
    show ?thesis
    proof (cases "marked (pmm_bitmap s) (unat i)")
      case m: True
      have "PMM_SCAN i n s = PMM_SCAN (i + 1) n s"
        using True g m by (simp add: PMM_SCAN.simps [of i] b del: push_bit_of_1)
      moreover note "1.IH" [OF True g _ "1.prems", unfolded s]
      ultimately show ?thesis using b m unfolding split by (simp del: push_bit_of_1) blast
    next
      case False
      have "PMM_SCAN i n s = Inr (Some i)"
        using True g False by (simp add: PMM_SCAN.simps [of i] b del: push_bit_of_1)
      then show ?thesis using i False by (intro disjI2 exI [of _ "unat i"]) auto
    qed
  qed
qed

definition mark_effect :: "nat \<Rightarrow> 'a old_pmm_scheme \<Rightarrow> 'a old_pmm_scheme" where
  "mark_effect k s = s\<lparr>pmm_bitmap := (pmm_bitmap s)[k div 32 := pmm_bitmap s ! (k div 32) OR push_bit (k mod 32) 1],
     pmm_used_pages := pmm_used_pages s + 1\<rparr>"

lemma handed_mark:
  assumes "old_pmm_inv s" "k \<in> managed s"
  shows "handed (mark_effect k s) = insert k (handed s)"
  using assms managed_bounds(2) [OF assms(1), of k] marked_set [of k "pmm_bitmap s"]
  by (auto simp: handed_def managed_def mark_effect_def)

lemma handed_finite: "finite (handed s)" "card (handed s) \<le> unat (pmm_total_pages s)"
proof -
  have "handed s \<subseteq> {..<unat (pmm_total_pages s)}" by (auto simp: handed_def managed_def)
  from finite_subset [OF this] card_mono [OF _ this]
  show "finite (handed s)" "card (handed s) \<le> unat (pmm_total_pages s)" by simp_all
qed

lemma mark_inv:
  assumes "old_pmm_inv s" "k \<in> managed s - handed s"
  shows "old_pmm_inv (mark_effect k s)"
proof -
  have k: "k \<in> managed s" "k \<notin> handed s" using assms(2) by auto
  have "card (handed (mark_effect k s)) = Suc (card (handed s))"
    unfolding handed_mark [OF assms(1) k(1)] using k(2) handed_finite(1) [of s] by simp
  moreover have "unat (pmm_used_pages s + 1) = Suc (unat (pmm_used_pages s))"
    using assms(1) handed_finite(2) [of s] by (simp add: old_pmm_inv_def unat_word_ariths word_le_nat_alt)
  ultimately show ?thesis using assms(1) by (simp add: old_pmm_inv_def mark_effect_def)
qed

text \<open>One allocation: the lowest managed frame that is not handed out, or 0 when there is none.\<close>

lemma old_alloc_run [consumes 1, case_names fresh full]:
  assumes "old_pmm_inv s"
  obtains (fresh) k where "k \<in> managed s - handed s" "\<forall>j \<in> managed s. j < k \<longrightarrow> j \<in> handed s"
      "PMM_ALLOC_PAGE s = Inr (page_at k, mark_effect k s)"
  | (full) "managed s = handed s" "PMM_ALLOC_PAGE s = Inr (0, s)"
proof -
  have c: "unat (4096 :: u32) = 4096" by simp
  from scan_run [OF assms refl, of 4096, unfolded c] show thesis
  proof (elim disjE exE conjE)
    assume "PMM_SCAN 4096 (pmm_total_pages s) s = Inr None"
      and "\<forall>j. 4096 \<le> j \<and> j < unat (pmm_total_pages s) \<longrightarrow> marked (pmm_bitmap s) j"
    then show thesis by (intro full) (auto simp: managed_def handed_def PMM_ALLOC_PAGE_def)
  next
    fix k assume k: "PMM_SCAN 4096 (pmm_total_pages s) s = Inr (Some (of_nat k))" "4096 \<le> k"
      "k < unat (pmm_total_pages s)" "\<not> marked (pmm_bitmap s) k"
      and l: "\<forall>j. 4096 \<le> j \<and> j < k \<longrightarrow> marked (pmm_bitmap s) j"
    note b = managed_bounds [OF assms k(3)]
    have "PMM_ALLOC_PAGE s = Inr (page_at k, mark_effect k s)"
      using k(1) b by (simp add: PMM_ALLOC_PAGE_def bm_set_def bm_get_def bm_put_def mark_effect_def page_at_def Let_def)
    then show thesis using k l by (intro fresh [of k]) (auto simp: managed_def handed_def)
  qed
qed

lemma frames_small:
  assumes "old_pmm_inv s"
  shows "managed s \<subseteq> {i. i < 0x100000}" "handed s \<subseteq> {i. i < 0x100000}"
  using managed_bounds(1) [OF assms] by (auto simp: managed_def handed_def)

lemma owned_at_iff:
  assumes "old_pmm_inv s" "k \<in> managed s"
  shows "page_at k \<in> old_owned s \<longleftrightarrow> k \<in> handed s"
  using assms(2) frames_small [OF assms(1)] inj_onD [OF page_at_inj] by (auto simp: old_owned_def)

lemma old_full_iff:
  assumes "old_pmm_inv s"
  shows "old_owned s = old_pool s \<longleftrightarrow> managed s = handed s"
  using inj_on_image_eq_iff [OF page_at_inj, of "handed s" "managed s"] frames_small [OF assms]
  unfolding old_owned_def old_pool_def by auto

section \<open>Release\<close>

definition clear_effect :: "nat \<Rightarrow> 'a old_pmm_scheme \<Rightarrow> 'a old_pmm_scheme" where
  "clear_effect k s = s\<lparr>pmm_bitmap := (pmm_bitmap s)[k div 32 := pmm_bitmap s ! (k div 32) AND NOT (push_bit (k mod 32) 1)],
     pmm_used_pages := pmm_used_pages s - 1\<rparr>"

lemma old_free_run:
  assumes "old_pmm_inv s" "k \<in> handed s"
  shows "PMM_FREE_PAGE (page_at k) s = Inr (clear_effect k s)" "handed (clear_effect k s) = handed s - {k}"
    "old_pmm_inv (clear_effect k s)"
proof -
  have k: "4096 \<le> k" "k < unat (pmm_total_pages s)" "marked (pmm_bitmap s) k"
    using assms(2) by (auto simp: handed_def managed_def)
  note b = managed_bounds [OF assms(1) k(2)]
  have h: "0 < card (handed s)" using assms(2) handed_finite(1) by (auto simp: card_gt_0_iff)
  have u: "unat (pmm_used_pages s) = 4096 + card (handed s)" using assms(1) by (simp add: old_pmm_inv_def)
  then have u4: "pmm_used_pages s > 4096" using h by (simp add: word_less_nat_alt)
  have not_low: "\<not> (of_nat k :: u32) < 4096" using k(1) b(3) by (simp add: word_less_nat_alt)
  have "unat (pmm_bitmap_size s) = (unat (pmm_total_pages s) + 31) div 32"
  proof -
    have "unat (pmm_total_pages s + 31) = unat (pmm_total_pages s) + 31"
      using assms(1) by (simp add: old_pmm_inv_def unat_word_ariths word_le_nat_alt)
    then show ?thesis using assms(1) by (simp add: old_pmm_inv_def unat_div)
  qed
  then have size: "(of_nat k :: u32) div 32 < pmm_bitmap_size s" using k(2) b(4) by (simp add: word_less_nat_alt)
  have m: "pmm_bitmap s ! (k div 32) AND push_bit (unat ((of_nat k :: u32) mod 32)) 1 \<noteq> 0"
    using k(3) b(3) unfolding marked_word marked_def by simp
  show "PMM_FREE_PAGE (page_at k) s = Inr (clear_effect k s)"
    using not_low size m b u4
    by (simp add: PMM_FREE_PAGE_def page_at_div bm_get_def bm_put_def clear_effect_def Let_def del: push_bit_of_1)
  show hd: "handed (clear_effect k s) = handed s - {k}"
    using marked_clear [OF b(2)] by (auto simp: handed_def managed_def clear_effect_def)
  have "unat (pmm_used_pages s - 1) = unat (pmm_used_pages s) - 1"
    using u by (intro unat_minus_one) auto
  then show "old_pmm_inv (clear_effect k s)"
    using assms u h unfolding old_pmm_inv_def hd
    by (simp add: card_Diff_singleton) (simp add: clear_effect_def)
qed

section \<open>The allocator meets the contract\<close>

lemma old_owned_mark:
  "old_pmm_inv s \<Longrightarrow> k \<in> managed s \<Longrightarrow> old_owned (mark_effect k s) = insert (page_at k) (old_owned s)"
  "old_pool (mark_effect k s) = old_pool s"
  by (simp add: old_owned_def handed_mark) (simp add: old_pool_def managed_def mark_effect_def)

interpretation old_frames: frame_allocator old_pmm_inv old_pool old_owned PMM_ALLOC_PAGE PMM_FREE_PAGE
proof
  show "old_owned s \<subseteq> old_pool s" for s :: "'a old_pmm_scheme"
    by (auto simp: old_owned_def old_pool_def handed_def)
  show "0 \<notin> old_pool s" if "old_pmm_inv s" for s :: "'a old_pmm_scheme"
  proof
    assume "0 \<in> old_pool s"
    then obtain k where "k \<in> managed s" "page_at k = page_at 0" by (auto simp: old_pool_def page_at_def)
    then have "k = 0" using inj_onD [OF page_at_inj, of k 0] frames_small(1) [OF that] by auto
    then show False using \<open>k \<in> managed s\<close> by (simp add: managed_def)
  qed
  show "\<exists>p s'. PMM_ALLOC_PAGE s = Inr (p, s') \<and> old_pmm_inv s' \<and> p \<in> old_pool s - old_owned s \<and>
      old_owned s' = insert p (old_owned s) \<and> old_pool s' = old_pool s"
    if "old_pmm_inv s" "old_owned s \<noteq> old_pool s" for s :: "'a old_pmm_scheme"
    using that(1)
  proof (cases rule: old_alloc_run)
    case (fresh k)
    then have "page_at k \<in> old_pool s - old_owned s"
      using owned_at_iff [OF that(1)] by (auto simp: old_pool_def)
    then show ?thesis
      using fresh mark_inv [OF that(1)] old_owned_mark(1) [OF that(1)] old_owned_mark(2) by blast
  qed (use that old_full_iff in auto)
  show "\<exists>s'. PMM_ALLOC_PAGE s = Inr (0, s') \<and> old_pmm_inv s' \<and> old_owned s' = old_owned s \<and> old_pool s' = old_pool s"
    if "old_pmm_inv s" "old_owned s = old_pool s" for s :: "'a old_pmm_scheme"
    using that(1)
  proof (cases rule: old_alloc_run)
    case (fresh k)
    then show ?thesis using that old_full_iff [OF that(1)] by simp
  qed (use that in simp)
  show "\<exists>s'. PMM_FREE_PAGE p s = Inr s' \<and> old_pmm_inv s' \<and> old_owned s' = old_owned s - {p} \<and> old_pool s' = old_pool s"
    if i: "old_pmm_inv s" and p: "p \<in> old_owned s" for p and s :: "'a old_pmm_scheme"
  proof -
    obtain k where k: "k \<in> handed s" "p = page_at k" using p by (auto simp: old_owned_def)
    note f = old_free_run [OF i k(1)]
    have "old_owned (clear_effect k s) = old_owned s - {p}"
      using inj_on_image_set_diff [OF page_at_inj, of "handed s" "{k}"] frames_small [OF i] k
      by (auto simp: old_owned_def f(2))
    then show ?thesis using f(1,3) k(2) by (auto simp: old_pool_def managed_def clear_effect_def)
  qed
qed


section \<open>Boot\<close>

lemma clear_run:
  assumes "length (pmm_bitmap s) = 32768" "n \<le> 32768"
  shows "\<exists>b. foldE (\<lambda>i s. bm_put (of_nat i) 0 s) [0..<n] s = Inr (s\<lparr>pmm_bitmap := b\<rparr>) \<and>
    length b = 32768 \<and> (\<forall>j < n. b ! j = 0)"
proof -
  let ?I = "\<lambda>x t. \<exists>b. t = s\<lparr>pmm_bitmap := b\<rparr> \<and> length b = 32768 \<and> (\<forall>j < x. b ! j = 0)"
  have "?I 0 s" using assms(1) by (intro exI [of _ "pmm_bitmap s"]) simp
  moreover have "\<exists>t'. bm_put (of_nat x) 0 t = Inr t' \<and> ?I (Suc x) t'" if x: "x < n" and I: "?I x t" for x t
  proof -
    obtain b where b: "t = s\<lparr>pmm_bitmap := b\<rparr>" "length b = 32768" "\<forall>j < x. b ! j = 0" using I by blast
    have "unat (of_nat x :: u32) = x" using x assms(2) by (simp add: unat_of_nat)
    then show ?thesis
      using b x assms(2)
      by (simp add: bm_put_def) (rule exI [of _ "b[x := 0]"], auto simp: nth_list_update)
  qed
  ultimately show ?thesis using foldE_inv [of 0 n ?I s "\<lambda>i s. bm_put (of_nat i) 0 s"] by auto
qed

lemma reserve_run:
  assumes "length (pmm_bitmap s) = 32768" "n \<le> 4096"
  shows "\<exists>b. foldE (\<lambda>i s. bm_set (of_nat i) s) [0..<n] s = Inr (s\<lparr>pmm_bitmap := b\<rparr>) \<and>
    length b = 32768 \<and> (\<forall>j. marked b j \<longleftrightarrow> j < n \<or> marked (pmm_bitmap s) j)"
proof -
  let ?I = "\<lambda>x t. \<exists>b. t = s\<lparr>pmm_bitmap := b\<rparr> \<and> length b = 32768 \<and>
    (\<forall>j. marked b j \<longleftrightarrow> j < x \<or> marked (pmm_bitmap s) j)"
  have "?I 0 s" using assms(1) by (intro exI [of _ "pmm_bitmap s"]) simp
  moreover have "\<exists>t'. bm_set (of_nat x) t = Inr t' \<and> ?I (Suc x) t'" if x: "x < n" and I: "?I x t" for x t
  proof -
    obtain b where b: "t = s\<lparr>pmm_bitmap := b\<rparr>" "length b = 32768"
        "\<forall>j. marked b j \<longleftrightarrow> j < x \<or> marked (pmm_bitmap s) j" using I by blast
    have u: "unat (of_nat x :: u32) = x" using x assms(2) by (simp add: unat_of_nat)
    have d: "x div 32 < length b" using x assms(2) b(2) by simp
    let ?b = "b[x div 32 := b ! (x div 32) OR push_bit (x mod 32) 1]"
    have "bm_set (of_nat x) t = Inr (s\<lparr>pmm_bitmap := ?b\<rparr>)"
      using b(1) d u by (simp add: bm_set_def bm_get_def bm_put_def unat_div unat_mod)
    moreover have "\<forall>j. marked ?b j \<longleftrightarrow> j < Suc x \<or> marked (pmm_bitmap s) j"
      using marked_set [OF d] b(3) by (simp only: less_Suc_eq) blast
    moreover have "length ?b = 32768" using b(2) by simp
    ultimately show ?thesis by blast
  qed
  ultimately show ?thesis using foldE_inv [of 0 n ?I s "\<lambda>i s. bm_set (of_nat i) s"] by auto
qed

lemma bitmap_words: "unat ((m div PAGE_SIZE + 31) div 32) = (unat (m div PAGE_SIZE) + 31) div 32"
    "m div PAGE_SIZE \<le> 0x100000" for m :: u32
proof -
  have b: "unat (m div PAGE_SIZE) < 0x100000"
    using less_mult_imp_div_less [of "unat m" "0x100000" 4096] unsigned_less [of m, where 'a = nat]
    by (simp add: unat_div PAGE_SIZE_def)
  then show "m div PAGE_SIZE \<le> 0x100000" by (simp add: word_le_nat_alt)
  have "unat (m div PAGE_SIZE + 31) = unat (m div PAGE_SIZE) + 31" using b by (simp add: unat_word_ariths)
  then show "unat ((m div PAGE_SIZE + 31) div 32) = (unat (m div PAGE_SIZE) + 31) div 32" by (simp add: unat_div)
qed

lemma old_init_run:
  assumes "length (pmm_bitmap s) = PMM_BITMAP_SIZE"
  shows "\<exists>s'. PMM_INIT m s = Inr s' \<and> old_pmm_inv s' \<and> handed s' = {} \<and>
    pmm_total_pages s' = m div PAGE_SIZE \<and> ram s' = ram s \<and> cr0 s' = cr0 s \<and> cr3 s' = cr3 s"
proof -
  define u where "u = emit (Vga_Print ('' pages)'' @ [LF])) (emit (Vga_Print (int_to_str (m div PAGE_SIZE)))
    (emit (Vga_Print ''MB ('') (emit (Vga_Print (int_to_str (m div 1024 div 1024)))
    (emit (Vga_Print ''[PMM] Total memory: '') (s\<lparr>pmm_total_pages := m div PAGE_SIZE,
      pmm_bitmap_size := (m div PAGE_SIZE + 31) div 32, pmm_used_pages := 0\<rparr>)))))"
  define mid :: "'a old_pmm_scheme \<Rightarrow> 'a old_pmm_scheme" where "mid = (\<lambda>s.
    emit (Vga_Print ('' pages (16MB) for kernel'' @ [LF])) (emit (Vga_Print (int_to_str 4096))
      (emit (Vga_Print ''[PMM] Reserving '') s)))"
  define fin :: "'a old_pmm_scheme \<Rightarrow> 'a old_pmm_scheme" where "fin = (\<lambda>s.
    emit (Vga_Print ('' free pages available'' @ [LF]))
      (emit (Vga_Print (int_to_str (PMM_GET_FREE_PAGES (emit (Vga_Print ''[PMM] Ready - '') (s\<lparr>pmm_used_pages := 4096\<rparr>)))))
      (emit (Vga_Print ''[PMM] Ready - '') (s\<lparr>pmm_used_pages := 4096\<rparr>))))"
  have kp: "(16 * 1024 * 1024 :: u32) div PAGE_SIZE = 4096" by (simp add: PAGE_SIZE_def)
  have init: "PMM_INIT m s = bindE (foldE (\<lambda>i s. bm_put (of_nat i) 0 s) [0..<unat (pmm_bitmap_size u)] u) (\<lambda>s.
      bindE (foldE (\<lambda>i s. bm_set (of_nat i) s) [0..<4096] (mid s)) (\<lambda>s. Inr (fin s)))"
    unfolding PMM_INIT_def kp by (simp add: Let_def u_def mid_def fin_def del: append.simps upt.simps upt_Suc)
  note w = bitmap_words [of m]
  have n: "unat (pmm_bitmap_size u) \<le> 32768"
    using w by (simp add: u_def word_le_nat_alt)
  have len: "length (pmm_bitmap u) = 32768" using assms by (simp add: u_def PMM_BITMAP_SIZE_def)
  obtain b where b: "foldE (\<lambda>i s. bm_put (of_nat i) 0 s) [0..<unat (pmm_bitmap_size u)] u = Inr (u\<lparr>pmm_bitmap := b\<rparr>)"
      "length b = 32768" "\<forall>j < unat (pmm_bitmap_size u). b ! j = 0"
    using clear_run [OF len n] by blast
  have "length (pmm_bitmap (mid (u\<lparr>pmm_bitmap := b\<rparr>))) = 32768" using b(2) by (simp add: mid_def)
  from reserve_run [OF this order_refl] obtain c where c: "length c = 32768"
      "foldE (\<lambda>i s. bm_set (of_nat i) s) [0..<4096] (mid (u\<lparr>pmm_bitmap := b\<rparr>)) =
        Inr (mid (u\<lparr>pmm_bitmap := b\<rparr>)\<lparr>pmm_bitmap := c\<rparr>)" (is "_ = Inr ?v")
      "\<forall>j. marked c j \<longleftrightarrow> j < 4096 \<or> marked b j"
    by (auto simp: mid_def)
  have run: "PMM_INIT m s = Inr (fin ?v)" unfolding init b(1) bindE_simps c(2) ..
  have "\<not> marked b i" if "i < unat (m div PAGE_SIZE)" for i
  proof -
    have "i div 32 < unat (pmm_bitmap_size u)" using that w(1) by (simp add: u_def)
    then show ?thesis using b(3) by (simp add: marked_def)
  qed
  then have "handed (fin ?v) = {}"
    using c(3) by (auto simp: handed_def managed_def fin_def mid_def u_def)
  then show ?thesis
    unfolding run using c(1) w(2)
    by (auto simp: fin_def mid_def u_def old_pmm_inv_def PMM_BITMAP_SIZE_def)
qed

lemma alloc_next_run:
  assumes "old_pmm_inv s" "handed s = {4096..<k}" "4096 \<le> k" "k < unat (pmm_total_pages s)"
  shows "\<exists>s'. PMM_ALLOC_PAGE s = Inr (page_at k, s') \<and> old_pmm_inv s' \<and> handed s' = {4096..<Suc k} \<and>
    pmm_total_pages s' = pmm_total_pages s \<and> ram s' = ram s \<and> cr3 s' = cr3 s"
proof -
  have k: "k \<in> managed s - handed s" using assms by (simp add: managed_def)
  from assms(1) show ?thesis
  proof (cases rule: old_alloc_run)
    case (fresh j)
    then have "j = k" using k assms(2) by (cases j k rule: linorder_cases) (auto simp: managed_def)
    then show ?thesis
      using fresh mark_inv [OF assms(1) k] handed_mark [OF assms(1), of k] k assms(2,3)
      by (auto simp: mark_effect_def)
  qed (use k in simp)
qed

lemma alloc_run_from:
  "old_pmm_inv s \<Longrightarrow> handed s = {4096..<k} \<Longrightarrow> 4096 \<le> k \<Longrightarrow> k + n \<le> unat (pmm_total_pages s) \<Longrightarrow>
   \<exists>s'. alloc_many PMM_ALLOC_PAGE n s = Inr (map page_at [k..<k + n], s') \<and> old_pmm_inv s' \<and>
     handed s' = {4096..<k + n} \<and> pmm_total_pages s' = pmm_total_pages s"
proof (induction n arbitrary: s k)
  case (Suc n)
  obtain t where t: "PMM_ALLOC_PAGE s = Inr (page_at k, t)" "old_pmm_inv t" "handed t = {4096..<Suc k}"
      "pmm_total_pages t = pmm_total_pages s"
    using alloc_next_run [OF Suc.prems(1-3)] Suc.prems(4) by auto
  obtain u where "alloc_many PMM_ALLOC_PAGE n t = Inr (map page_at [Suc k..<Suc k + n], u)" "old_pmm_inv u"
      "handed u = {4096..<Suc k + n}" "pmm_total_pages u = pmm_total_pages t"
    using Suc.IH [OF t(2,3)] Suc.prems(3,4) t(4) by auto
  then show ?case using t by (simp add: upt_conv_Cons del: upt_Suc)
qed simp

section \<open>Properties\<close>

definition sample_old_pmm :: old_pmm where
  "sample_old_pmm = \<lparr>ram = (\<lambda>_. 0), cr0 = 0x11, cr3 = 0, trace = [], pmm_bitmap = replicate 32768 0,
     pmm_total_pages = 0, pmm_used_pages = 0, pmm_bitmap_size = 0\<rparr>"

text \<open>
  C37. Booting the old allocator: after \<open>PMM_INIT\<close> the next \<open>n\<close> allocations hand out the \<open>n\<close> frames
  from 16 MiB on in ascending order, none twice, as long as there is memory; the number of free
  pages falls with them, and releasing any of them makes its frame, and no other, free again.
\<close>

theorem old_boot_alloc:
  assumes "length (pmm_bitmap s) = PMM_BITMAP_SIZE" "4096 + n \<le> unat (m div PAGE_SIZE)"
  shows "\<exists>s1 s2. PMM_INIT m s = Inr s1 \<and>
    alloc_many PMM_ALLOC_PAGE n s1 = Inr (map page_at [4096..<4096 + n], s2) \<and>
    unat (PMM_GET_FREE_PAGES s2) = unat (m div PAGE_SIZE) - 4096 - n \<and>
    (\<forall>i < n. \<exists>s3. PMM_FREE_PAGE (page_at (4096 + i)) s2 = Inr s3 \<and>
      old_owned s3 = page_at ` {4096..<4096 + n} - {page_at (4096 + i)})"
proof -
  obtain s1 where s1: "PMM_INIT m s = Inr s1" "old_pmm_inv s1" "handed s1 = {4096..<4096}"
      "pmm_total_pages s1 = m div PAGE_SIZE"
    using old_init_run [OF assms(1), of m] by auto
  obtain s2 where s2: "alloc_many PMM_ALLOC_PAGE n s1 = Inr (map page_at [4096..<4096 + n], s2)"
      "old_pmm_inv s2" "handed s2 = {4096..<4096 + n}" "pmm_total_pages s2 = m div PAGE_SIZE"
    using alloc_run_from [OF s1(2,3), of n] assms(2) s1(4) by auto
  have u: "unat (pmm_used_pages s2) = 4096 + n" using s2(2,3) by (simp add: old_pmm_inv_def)
  then have "unat (PMM_GET_FREE_PAGES s2) = unat (m div PAGE_SIZE) - 4096 - n"
    using s2(4) assms(2) by (auto simp: PMM_GET_FREE_PAGES_def word_less_nat_alt unat_sub word_le_nat_alt)
  moreover have "\<exists>s3. PMM_FREE_PAGE (page_at (4096 + i)) s2 = Inr s3 \<and>
      old_owned s3 = page_at ` {4096..<4096 + n} - {page_at (4096 + i)}" if "i < n" for i
  proof -
    have "page_at (4096 + i) \<in> old_owned s2" using that s2(3) by (simp add: old_owned_def)
    from old_frames.free_owned [OF s2(2) this] show ?thesis by (auto simp: old_owned_def s2(3))
  qed
  ultimately show ?thesis using s1(1) s2(1) by blast
qed

theorem old_boot_alloc_witness:
  "\<exists>s1 s2. PMM_INIT 0x20000000 sample_old_pmm = Inr s1 \<and>
     alloc_many PMM_ALLOC_PAGE 2 s1 = Inr ([0x1000000, 0x1001000], s2) \<and> unat (PMM_GET_FREE_PAGES s2) = 126974"
proof -
  have "length (pmm_bitmap sample_old_pmm) = PMM_BITMAP_SIZE" "4096 + 2 \<le> unat ((0x20000000 :: u32) div PAGE_SIZE)"
    by (simp_all add: sample_old_pmm_def PMM_BITMAP_SIZE_def PAGE_SIZE_def)
  from old_boot_alloc [OF this] show ?thesis
    by (simp add: page_at_def PAGE_SIZE_def upt_rec) blast
qed

end
