(* ===== verification/Old_VMM.thy ===== *)
theory Old_VMM
  imports Old_PMM VMM
begin

text \<open>
  \<open>old/Include/VMM.c\<close> and the rest of \<open>old/Include/UTILS.c\<close>: the paging setup of the old kernel,
  a page directory and one page table at fixed addresses, and the memory and printing helpers.
  The tables are read by the same page walk as those of the new kernel.
\<close>

section \<open>Helpers\<close>

definition print_hex :: "u32 \<Rightarrow> 'a cpu_scheme \<Rightarrow> 'a cpu_scheme" where
  "print_hex num s =
     fold (\<lambda>i s. let digit = drop_bit (28 - 4 * i) num AND 0xF in emit (Vga_Char (hex_digits ! unat digit)) s)
       [0..<8] (emit (Vga_Print ''0x'') s)"

text \<open>\<open>memcpy\<close> copies upwards, byte by byte.\<close>

definition memcpy :: "u32 \<Rightarrow> u32 \<Rightarrow> u32 \<Rightarrow> 'a cpu_scheme \<Rightarrow> fault + 'a cpu_scheme" where
  "memcpy dest src n s =
     foldE (\<lambda>i s. bindE (ld8 (src + of_nat i) s) (\<lambda>b. st8 (dest + of_nat i) b s)) [0..<unat n] s"

definition memset :: "u32 \<Rightarrow> u32 \<Rightarrow> u32 \<Rightarrow> 'a cpu_scheme \<Rightarrow> fault + 'a cpu_scheme" where
  "memset dest val n s = foldE (\<lambda>i s. st8 (dest + of_nat i) (ucast val) s) [0..<unat n] s"

section \<open>Paging\<close>

definition PAGE_DIRECTORY_ADDRESS :: u32 where "PAGE_DIRECTORY_ADDRESS = 0x1000000"
definition PAGE_TABLE_ADDRESS :: u32 where "PAGE_TABLE_ADDRESS = 0x1001000"
definition PAGE_PRESENT :: u32 where "PAGE_PRESENT = push_bit 0 1"
definition PAGE_WRITABLE :: u32 where "PAGE_WRITABLE = push_bit 1 1"
definition page_directory :: u32 where "page_directory = PAGE_DIRECTORY_ADDRESS"
definition first_page_table :: u32 where "first_page_table = PAGE_TABLE_ADDRESS"

definition VMM_INIT :: "'a cpu_scheme \<Rightarrow> fault + 'a cpu_scheme" where
  "VMM_INIT s =
     (let s = emit (Vga_Print (''[VMM] Step 1: Clearing page directory...'' @ [LF])) s
      in bindE (foldE (\<lambda>i s. st32 (cell page_directory (of_nat i)) (PAGE_PRESENT OR PAGE_WRITABLE) s) [0..<1024] s) (\<lambda>s.
      let s = emit (Vga_Print (''[VMM] Step 1: OK'' @ [LF])) s;
          s = emit (Vga_Print (''[VMM] Step 2: Mapping first 4MB...'' @ [LF])) s
      in bindE (foldE (\<lambda>i s. st32 (cell first_page_table (of_nat i))
          ((of_nat i * PAGE_SIZE) OR PAGE_PRESENT OR PAGE_WRITABLE) s) [0..<1024] s) (\<lambda>s.
      let s = emit (Vga_Print (''[VMM] Step 2: OK'' @ [LF])) s;
          s = emit (Vga_Print (''[VMM] Step 3: Setting page directory entry...'' @ [LF])) s
      in bindE (st32 (cell page_directory 0) (first_page_table OR PAGE_PRESENT OR PAGE_WRITABLE) s) (\<lambda>s.
      let s = emit (Vga_Print (''[VMM] Step 3: OK'' @ [LF])) s
      in Inr (emit (Vga_Print (''[VMM] Initialization complete'' @ [LF])) s)))))"

definition VMM_ENABLE_PAGING :: "'a cpu_scheme \<Rightarrow> 'a cpu_scheme" where
  "VMM_ENABLE_PAGING s =
     (let s = emit (Vga_Print (''[VMM] Step 4: Loading CR3...'' @ [LF])) s;
          s = s\<lparr>cr3 := page_directory\<rparr>;
          s = emit (Vga_Print (''[VMM] Step 4: OK - CR3 loaded'' @ [LF])) s;
          s = emit (Vga_Print (''[VMM] Step 5: Enabling paging bit...'' @ [LF])) s;
          v = cr0 s;
          s = emit (Vga_Print ''[VMM] CR0 before: 0x'') s;
          s = print_hex v s;
          s = emit (Vga_Print [LF]) s;
          v = v OR 0x80000000;
          s = s\<lparr>cr0 := v\<rparr>;
          s = emit (Vga_Print (''[VMM] Step 5: OK - Paging enabled'' @ [LF])) s;
          v = cr0 s;
          s = emit (Vga_Print ''[VMM] CR0 after: 0x'') s;
          s = print_hex v s;
          s = emit (Vga_Print [LF]) s
      in emit (Vga_Print (''[VMM] Paging successfully enabled!'' @ [LF])) s)"

lemma print_hex_fields [simp]:
  "ram (print_hex v s) = ram s" "cr0 (print_hex v s) = cr0 s" "cr3 (print_hex v s) = cr3 s"
  "cpu.more (print_hex v s) = cpu.more s"
proof -
  have "ram (fold (\<lambda>i. emit (f i)) xs s) = ram s \<and> cr0 (fold (\<lambda>i. emit (f i)) xs s) = cr0 s \<and>
    cr3 (fold (\<lambda>i. emit (f i)) xs s) = cr3 s \<and> cpu.more (fold (\<lambda>i. emit (f i)) xs s) = cpu.more s"
    for f and xs :: "nat list" and s :: "'a cpu_scheme"
    by (induction xs arbitrary: s) simp_all
  then show "ram (print_hex v s) = ram s" "cr0 (print_hex v s) = cr0 s" "cr3 (print_hex v s) = cr3 s"
    "cpu.more (print_hex v s) = cpu.more s"
    by (simp_all add: print_hex_def Let_def del: upt.simps upt_Suc)
qed

section \<open>Memory helpers\<close>

text \<open>A range of \<open>n\<close> bytes that does not wrap.\<close>

definition span :: "u32 \<Rightarrow> u32 \<Rightarrow> nat set" where
  "span a n = {unat a ..< unat a + unat n}"

lemma memcpy_run:
  assumes "\<not> paging s" "unat src + unat n \<le> 2 ^ 32" "unat dest + unat n \<le> 2 ^ 32"
    and "span src n \<inter> span dest n = {} \<or> dest \<le> src"
  shows "\<exists>m. memcpy dest src n s = Inr (s\<lparr>ram := m\<rparr>) \<and>
    (\<forall>i < unat n. m (dest + of_nat i) = ram s (src + of_nat i)) \<and>
    (\<forall>a. unat a \<notin> span dest n \<longrightarrow> m a = ram s a)"
proof -
  have u: "unat (src + of_nat i) = unat src + i" "unat (dest + of_nat i) = unat dest + i" if "i < unat n" for i
    using that assms(2,3) by (simp_all add: unat_word_ariths unat_of_nat)
  let ?I = "\<lambda>x t. \<exists>m. t = s\<lparr>ram := m\<rparr> \<and> (\<forall>i < x. m (dest + of_nat i) = ram s (src + of_nat i)) \<and>
    (\<forall>a. unat a \<notin> {unat dest ..< unat dest + x} \<longrightarrow> m a = ram s a)"
  have "?I 0 s" by (intro exI [of _ "ram s"]) simp
  moreover have "\<exists>t'. bindE (ld8 (src + of_nat x) t) (\<lambda>b. st8 (dest + of_nat x) b t) = Inr t' \<and> ?I (Suc x) t'"
    if x: "x < unat n" and I: "?I x t" for x t
  proof -
    obtain m where m: "t = s\<lparr>ram := m\<rparr>" "\<forall>i < x. m (dest + of_nat i) = ram s (src + of_nat i)"
        "\<forall>a. unat a \<notin> {unat dest ..< unat dest + x} \<longrightarrow> m a = ram s a" using I by blast
    have "unat (src + of_nat x) \<notin> {unat dest ..< unat dest + x}"
      using assms(4) x u(1) [OF x] by (auto simp: span_def word_le_nat_alt)
    then have v: "m (src + of_nat x) = ram s (src + of_nat x)" using m(3) by blast
    have ne: "dest + of_nat i \<noteq> dest + of_nat x" if "i < x" for i
      using u(2) [of i] u(2) [OF x] that x by (metis add_left_cancel less_trans nat_neq_iff)
    let ?m = "m(dest + of_nat x := m (src + of_nat x))"
    have "bindE (ld8 (src + of_nat x) t) (\<lambda>b. st8 (dest + of_nat x) b t) = Inr (s\<lparr>ram := ?m\<rparr>)"
      using assms(1) by (simp add: run_simps m(1))
    moreover have "\<forall>i < Suc x. ?m (dest + of_nat i) = ram s (src + of_nat i)"
      using m(2) v ne by (simp add: less_Suc_eq)
    moreover have "\<forall>a. unat a \<notin> {unat dest ..< unat dest + Suc x} \<longrightarrow> ?m a = ram s a"
      using m(3) u(2) [OF x] by auto
    ultimately show ?thesis by blast
  qed
  ultimately have "\<exists>s'. memcpy dest src n s = Inr s' \<and> ?I (unat n) s'"
    unfolding memcpy_def by (rule foldE_inv [OF le0])
  then show ?thesis by (auto simp: span_def)
qed

lemma memset_run:
  assumes "\<not> paging s" "unat dest + unat n \<le> 2 ^ 32"
  shows "\<exists>m. memset dest val n s = Inr (s\<lparr>ram := m\<rparr>) \<and>
    (\<forall>a. m a = (if unat a \<in> span dest n then ucast val else ram s a))"
proof -
  let ?I = "\<lambda>x t. t = s\<lparr>ram := (\<lambda>a. if unat a \<in> {unat dest ..< unat dest + x} then ucast val else ram s a)\<rparr>"
  have "?I 0 s" by simp
  moreover have "\<exists>t'. st8 (dest + of_nat x) (ucast val) t = Inr t' \<and> ?I (Suc x) t'"
    if x: "x < unat n" and I: "?I x t" for x t
  proof -
    have u: "unat (dest + of_nat x) = unat dest + x"
      using x assms(2) by (simp add: unat_word_ariths unat_of_nat)
    have "(\<lambda>a. if unat a \<in> {unat dest ..< unat dest + x} then ucast val else ram s a)(dest + of_nat x := ucast val) =
        (\<lambda>a. if unat a \<in> {unat dest ..< unat dest + Suc x} then ucast val else ram s a)"
    proof
      fix a :: u32
      have "a = dest + of_nat x \<longleftrightarrow> unat a = unat dest + x" unfolding u [symmetric] word_unat_eq_iff ..
      then show "((\<lambda>a. if unat a \<in> {unat dest ..< unat dest + x} then ucast val else ram s a)(dest + of_nat x := ucast val)) a =
        (if unat a \<in> {unat dest ..< unat dest + Suc x} then ucast val else ram s a)" by auto
    qed
    then show ?thesis using assms(1) I by (simp add: run_simps)
  qed
  ultimately have "\<exists>s'. memset dest val n s = Inr s' \<and> ?I (unat n) s'"
    unfolding memset_def by (rule foldE_inv [OF le0])
  then show ?thesis by (auto simp: span_def)
qed

section \<open>The address space\<close>

definition old_tables :: "memory \<Rightarrow> memory" where
  "old_tables m = wr32 (cell page_directory 0) (first_page_table OR 3)
     (fill_table first_page_table (\<lambda>i. (of_nat i * PAGE_SIZE) OR 3) (fill_table page_directory (\<lambda>_. 3) m))"

lemma old_frames_at [simp]: "frame_of page_directory = page_directory" "frame_of first_page_table = first_page_table"
    "page_directory \<noteq> first_page_table" "first_page_table \<noteq> page_directory"
  by (simp_all add: page_directory_def first_page_table_def PAGE_DIRECTORY_ADDRESS_def PAGE_TABLE_ADDRESS_def frame_of_def)

lemma old_flags [simp]: "PAGE_PRESENT = 1" "PAGE_WRITABLE = 2"
  by (simp_all add: PAGE_PRESENT_def PAGE_WRITABLE_def)

lemma old_init_vmm_run:
  assumes "\<not> paging s"
  shows "\<exists>t. VMM_INIT s = Inr (s\<lparr>ram := old_tables (ram s), trace := t\<rparr>)"
proof -
  have d: "foldE (\<lambda>i s. st32 (cell page_directory (of_nat i)) 3 s) [0..<1024] s' =
      Inr (s'\<lparr>ram := fill_table page_directory (\<lambda>_. 3) (ram s')\<rparr>)" if "\<not> paging s'" for s' :: "'a cpu_scheme"
    unfolding fill_direct [OF that] fill_table_def by simp
  have t: "foldE (\<lambda>i s. st32 (cell first_page_table (of_nat i)) ((of_nat i * PAGE_SIZE) OR 3) s)
      [0..<1024] s' = Inr (s'\<lparr>ram := fill_table first_page_table (\<lambda>i. (of_nat i * PAGE_SIZE) OR 3) (ram s')\<rparr>)"
    if "\<not> paging s'" for s' :: "'a cpu_scheme"
    unfolding fill_direct [OF that] fill_table_def by simp
  show ?thesis
    using assms by (simp add: VMM_INIT_def Let_def d t run_simps old_tables_def emit_def del: append.simps upt.simps upt_Suc)
      (rule exI, rule refl)
qed

lemma old_tables_read:
  assumes "j < 1024"
  shows "rd32 (old_tables m) (cell page_directory j) = (if j = 0 then first_page_table OR 3 else 3)"
    "rd32 (old_tables m) (cell first_page_table j) = j * PAGE_SIZE OR 3"
    "rd32 (old_tables m) (cell 0 j) = rd32 m (cell 0 j)"
proof -
  have z: "frame_of 0 = 0" "0 \<noteq> page_directory" "0 \<noteq> first_page_table"
    by (simp_all add: frame_of_def page_directory_def first_page_table_def PAGE_DIRECTORY_ADDRESS_def PAGE_TABLE_ADDRESS_def)
  show "rd32 (old_tables m) (cell page_directory j) = (if j = 0 then first_page_table OR 3 else 3)"
    "rd32 (old_tables m) (cell first_page_table j) = j * PAGE_SIZE OR 3"
    "rd32 (old_tables m) (cell 0 j) = rd32 m (cell 0 j)"
    using assms z by (simp_all add: old_tables_def rd32_wr32_cell fill_read)
qed

text \<open>The address space that the two steps leave, over the memory they started in.\<close>

lemma old_walk:
  "hw_walk (old_tables m) page_directory v =
    (if v < 0x400000 then Some v
     else let e = rd32 m (cell 0 (pt_index v)) in if present e then Some (frame_of e OR (v AND 0xFFF)) else None)"
proof -
  have p3: "present 3" "frame_of 3 = 0" by (simp_all add: present_def frame_of_def)
  have pd: "rd32 (old_tables m) (cell page_directory (pd_index v)) =
      (if pd_index v = 0 then first_page_table OR 3 else 3)"
    by (rule old_tables_read(1) [OF index_less(1)])
  have w: "hw_walk (old_tables m) page_directory v =
      (let pde = rd32 (old_tables m) (cell page_directory (pd_index v)) in
       if present pde then
         let pte = rd32 (old_tables m) (cell (frame_of pde) (pt_index v)) in
         if present pte then Some (frame_of pte OR (v AND 0xFFF)) else None
       else None)"
    by (simp add: hw_walk_def present_def pd_index_def pt_index_def Let_def)
  have e0: "present (first_page_table OR 3)" "frame_of (first_page_table OR 3) = first_page_table"
    using entry_flags [of first_page_table] by simp_all
  have pg: "present (pt_index v * PAGE_SIZE OR 3)" "frame_of (pt_index v * PAGE_SIZE OR 3) = pt_index v * PAGE_SIZE"
    using entry_flags [OF page_frame] by simp_all
  have "pt_index v * PAGE_SIZE OR (v AND 0xFFF) = pt_index v * PAGE_SIZE + (v AND 0xFFF)"
    using frame_plus [OF page_frame frame_low(2)] by simp
  then have z: "pt_index v * PAGE_SIZE OR (v AND 0xFFF) = v" if "pd_index v = 0"
    using slot_value(1) [OF that] by simp
  show ?thesis
  proof (cases "v < 0x400000")
    case True
    then have "pd_index v = 0" by (simp add: slot_0)
    then show ?thesis
      unfolding w pd using True z by (simp add: e0 old_tables_read(2) [OF index_less(2)] pg Let_def)
  next
    case False
    then have "pd_index v \<noteq> 0" by (simp add: slot_0)
    then show ?thesis
      unfolding w pd using False by (simp add: p3 old_tables_read(3) [OF index_less(2)] Let_def)
  qed
qed

lemma enable_fields [simp]:
  "ram (VMM_ENABLE_PAGING s) = ram s" "cr3 (VMM_ENABLE_PAGING s) = page_directory" "paging (VMM_ENABLE_PAGING s)"
proof -
  show "ram (VMM_ENABLE_PAGING s) = ram s" "cr3 (VMM_ENABLE_PAGING s) = page_directory"
    by (simp_all add: VMM_ENABLE_PAGING_def Let_def)
  have "(cr0 s OR 0x80000000) AND 0x80000000 = 0x80000000" by (simp add: bit_eq_iff bit_simps)
  then show "paging (VMM_ENABLE_PAGING s)"
    by (simp add: VMM_ENABLE_PAGING_def Let_def paging_def)
qed

section \<open>Properties\<close>

text \<open>
  C38. The address space of the old kernel: after \<open>VMM_INIT\<close> and \<open>VMM_ENABLE_PAGING\<close> the first 4 MiB
  translate to themselves, but the directory is not cleared: every other entry is present and
  points to frame 0, so each address above 4 MiB is translated by whatever lies in the first
  4 KiB of memory, as if that were a page table.
\<close>

theorem old_address_space:
  assumes "\<not> paging s"
  shows "\<exists>s1. VMM_INIT s = Inr s1 \<and> paging (VMM_ENABLE_PAGING s1) \<and>
    xlate (VMM_ENABLE_PAGING s1) v =
      (if v < 0x400000 then Some v
       else let e = rd32 (ram s) (cell 0 (pt_index v)) in
         if present e then Some (frame_of e OR (v AND 0xFFF)) else None)"
  using old_init_vmm_run [OF assms] old_walk [of "ram s" v] by (auto simp: xlate_def)

theorem old_address_space_witness:
  "\<exists>s1. VMM_INIT (sample_old_pmm\<lparr>ram := (\<lambda>_. 0xFF)\<rparr>) = Inr s1 \<and>
     xlate (VMM_ENABLE_PAGING s1) 0x80000123 = Some 0xFFFFF123"
proof -
  have "\<not> paging (sample_old_pmm\<lparr>ram := (\<lambda>_. 0xFF)\<rparr>)" by (simp add: sample_old_pmm_def paging_def)
  moreover have "rd32 (\<lambda>_. 0xFF) a = 0xFFFFFFFF" for a by (simp add: rd32_def)
  ultimately show ?thesis
    using old_address_space [of "sample_old_pmm\<lparr>ram := (\<lambda>_. 0xFF)\<rparr>" "0x80000123"]
    by (auto simp: present_def frame_of_def)
qed

text \<open>
  C39. The page tables are not reserved: booted with at least 16 MiB and two pages, the allocator's
  first two frames are the page directory and the page table that paging runs on.
\<close>

theorem old_tables_handed_out:
  assumes "length (pmm_bitmap s) = PMM_BITMAP_SIZE" "0x1002000 \<le> m" "\<not> paging s"
  shows "\<exists>s1 s2 s3 s4. PMM_INIT m s = Inr s1 \<and> VMM_INIT s1 = Inr s2 \<and>
    PMM_ALLOC_PAGE (VMM_ENABLE_PAGING s2) = Inr (page_directory, s3) \<and>
    PMM_ALLOC_PAGE s3 = Inr (first_page_table, s4) \<and> cr3 s4 = page_directory"
proof -
  obtain s1 where s1: "PMM_INIT m s = Inr s1" "old_pmm_inv s1" "handed s1 = {}"
      "pmm_total_pages s1 = m div PAGE_SIZE" "cr0 s1 = cr0 s"
    using old_init_run [OF assms(1), of m] by blast
  have "\<not> paging s1" using assms(3) s1(5) by (simp add: paging_def)
  from old_init_vmm_run [OF this] obtain t where
    t: "VMM_INIT s1 = Inr (s1\<lparr>ram := old_tables (ram s1), trace := t\<rparr>)" (is "_ = Inr ?s2") by blast
  define s2 where "s2 = VMM_ENABLE_PAGING ?s2"
  have "cpu.more s2 = cpu.more s1" by (simp add: s2_def VMM_ENABLE_PAGING_def Let_def)
  then have same: "pmm_bitmap s2 = pmm_bitmap s1" "pmm_total_pages s2 = pmm_total_pages s1"
      "pmm_used_pages s2 = pmm_used_pages s1" "pmm_bitmap_size s2 = pmm_bitmap_size s1"
    by (cases s1; cases s2; simp)+
  then have s2: "old_pmm_inv s2" "handed s2 = {4096..<4096}"
    using s1(2,3) by (simp_all add: old_pmm_inv_def handed_def managed_def)
  have "0x1002 \<le> unat (m div PAGE_SIZE)"
    using assms(2) div_le_mono [of "0x1002000" "unat m" 4096] by (simp add: unat_div PAGE_SIZE_def word_le_nat_alt)
  then have tot: "4097 < unat (pmm_total_pages s2)" using s1(4) same by simp
  then obtain s3 where s3: "PMM_ALLOC_PAGE s2 = Inr (page_at 4096, s3)" "old_pmm_inv s3" "handed s3 = {4096..<4097}"
      "pmm_total_pages s3 = pmm_total_pages s2" "cr3 s3 = cr3 s2"
    using alloc_next_run [OF s2] by auto
  obtain s4 where s4: "PMM_ALLOC_PAGE s3 = Inr (page_at 4097, s4)" "cr3 s4 = cr3 s3"
    using alloc_next_run [OF s3(2,3)] tot s3(4) by auto
  have "cr3 s4 = page_directory" using s3(5) s4(2) by (simp add: s2_def)
  moreover have "page_at 4096 = page_directory" "page_at 4097 = first_page_table"
    by (simp_all add: page_at_def PAGE_SIZE_def page_directory_def first_page_table_def
        PAGE_DIRECTORY_ADDRESS_def PAGE_TABLE_ADDRESS_def)
  ultimately have "PMM_ALLOC_PAGE (VMM_ENABLE_PAGING ?s2) = Inr (page_directory, s3)"
      "PMM_ALLOC_PAGE s3 = Inr (first_page_table, s4)" "cr3 s4 = page_directory"
    using s3(1) s4(1) by (simp_all only: s2_def)
  then show ?thesis using s1(1) t by blast
qed

theorem old_tables_handed_out_witness:
  "\<exists>s1 s2 s3. PMM_INIT 0x20000000 sample_old_pmm = Inr s1 \<and> VMM_INIT s1 = Inr s2 \<and>
     PMM_ALLOC_PAGE (VMM_ENABLE_PAGING s2) = Inr (0x1000000, s3)"
proof -
  have "length (pmm_bitmap sample_old_pmm) = PMM_BITMAP_SIZE" "(0x1002000 :: u32) \<le> 0x20000000"
      "\<not> paging sample_old_pmm"
    by (simp_all add: sample_old_pmm_def PMM_BITMAP_SIZE_def paging_def)
  from old_tables_handed_out [OF this] show ?thesis
    by (auto simp: page_directory_def PAGE_DIRECTORY_ADDRESS_def)
qed

end
