(* ===== verification/Old_HEAP.thy ===== *)
theory Old_HEAP
  imports Utils Heap_Sharing
begin

text \<open>
  \<open>old/Include/HEAP.c\<close>: the heap of the old kernel, a second provider of the contract of
  \<open>Heap_Interface\<close>.  A block is a header of 20 bytes (magic number at 0, size at 4, used byte at
  8, next at 12, prev at 16) and its payload; free blocks are linked in address order, blocks in
  use in the order they were handed out, the last one first.

  Walks along a list take a fuel argument.  Nothing checks that a block is large enough for the
  header of its rest before the rest is computed; what happens then is the last property.
\<close>

section \<open>State and operations\<close>

record old_heap = cpu +
  ofree_list :: u32
  used_list :: u32

definition HEAP_START :: u32 where "HEAP_START = 0x200000"
definition HEAP_END :: u32 where "HEAP_END = 0x400000"
definition HEAP_SIZE :: u32 where "HEAP_SIZE = HEAP_END - HEAP_START"
definition BLOCK_MAGIC :: u32 where "BLOCK_MAGIC = 0xDEADBEEF"
definition BLOCK_SIZE :: u32 where "BLOCK_SIZE = 20"
definition MIN_BLOCK_SIZE :: u32 where "MIN_BLOCK_SIZE = 16"

lemmas old_heap_consts = HEAP_START_def HEAP_END_def HEAP_SIZE_def BLOCK_MAGIC_def BLOCK_SIZE_def MIN_BLOCK_SIZE_def

definition HEAP_INIT :: "'a old_heap_scheme \<Rightarrow> fault + 'a old_heap_scheme" where
  "HEAP_INIT s =
     (let first_block = HEAP_START in
      bindE (st32 first_block BLOCK_MAGIC s) (\<lambda>s.
      bindE (st32 (first_block + 4) (HEAP_SIZE - BLOCK_SIZE) s) (\<lambda>s.
      bindE (st8 (first_block + 8) 0 s) (\<lambda>s.
      bindE (st32 (first_block + 12) 0 s) (\<lambda>s.
      bindE (st32 (first_block + 16) 0 s) (\<lambda>s.
      let s = s\<lparr>ofree_list := first_block\<rparr>;
          s = s\<lparr>used_list := 0\<rparr>
      in Inr (emit (Vga_Print (''[HEAP] Initialized with free list allocator'' @ [LF])) s)))))))"

primrec find_free_block :: "nat \<Rightarrow> u32 \<Rightarrow> u32 \<Rightarrow> 'a old_heap_scheme \<Rightarrow> fault + u32" where
  "find_free_block 0 current sz s = Inl No_Return"
| "find_free_block (Suc fuel) current sz s =
     (if current = 0 then Inr 0
      else bindE (ld32 (current + 4) s) (\<lambda>bsz.
        bindE (if bsz \<ge> sz then bindE (ld8 (current + 8) s) (\<lambda>u. Inr (u = 0)) else Inr False) (\<lambda>fits.
        if fits then Inr current
        else bindE (ld32 (current + 12) s) (\<lambda>nx. find_free_block fuel nx sz s))))"

text \<open>The steps of \<open>KMALLOC\<close> on the block it found: cut it, take it off the free list, put it on the
  used list.\<close>

definition cut_block :: "u32 \<Rightarrow> u32 \<Rightarrow> 'a old_heap_scheme \<Rightarrow> fault + 'a old_heap_scheme" where
  "cut_block block sz s =
     bindE (ld32 (block + 4) s) (\<lambda>bsz.
     let remaining = bsz - sz - BLOCK_SIZE in
     if remaining \<ge> MIN_BLOCK_SIZE + 16
     then let new_block = block + BLOCK_SIZE + sz in
       bindE (st32 new_block BLOCK_MAGIC s) (\<lambda>s.
       bindE (ld32 (block + 4) s) (\<lambda>bsz.
       bindE (st32 (new_block + 4) (bsz - sz - BLOCK_SIZE) s) (\<lambda>s.
       bindE (st8 (new_block + 8) 0 s) (\<lambda>s.
       bindE (ld32 (block + 12) s) (\<lambda>nx.
       bindE (st32 (new_block + 12) nx s) (\<lambda>s.
       bindE (st32 (new_block + 16) block s) (\<lambda>s.
       bindE (ld32 (block + 12) s) (\<lambda>nx.
       bindE (if nx \<noteq> 0 then st32 (nx + 16) new_block s else Inr s) (\<lambda>s.
       bindE (st32 (block + 12) new_block s) (\<lambda>s.
       st32 (block + 4) sz s))))))))))
     else Inr s)"

definition take_off :: "u32 \<Rightarrow> 'a old_heap_scheme \<Rightarrow> fault + 'a old_heap_scheme" where
  "take_off block s =
     bindE (ld32 (block + 16) s) (\<lambda>pv.
     bindE (ld32 (block + 12) s) (\<lambda>nx.
     bindE (if pv \<noteq> 0 then st32 (pv + 12) nx s else Inr (s\<lparr>ofree_list := nx\<rparr>)) (\<lambda>s.
     bindE (ld32 (block + 12) s) (\<lambda>nx.
     if nx \<noteq> 0
     then bindE (ld32 (block + 16) s) (\<lambda>pv. st32 (nx + 16) pv s) else Inr s))))"

definition put_used :: "u32 \<Rightarrow> 'a old_heap_scheme \<Rightarrow> fault + 'a old_heap_scheme" where
  "put_used block s =
     bindE (st32 (block + 16) 0 s) (\<lambda>s.
     bindE (st32 (block + 12) (used_list s) s) (\<lambda>s.
     bindE (if used_list s \<noteq> 0 then st32 (used_list s + 16) block s else Inr s) (\<lambda>s.
     Inr (s\<lparr>used_list := block\<rparr>))))"

definition round16 :: "u32 \<Rightarrow> u32" where
  "round16 req = (req + 15) AND NOT 15"

definition KMALLOC :: "nat \<Rightarrow> u32 \<Rightarrow> 'a old_heap_scheme \<Rightarrow> fault + u32 \<times> 'a old_heap_scheme" where
  "KMALLOC fuel req s =
     (if req = 0 then Inr (0, s)
      else let sz = round16 req in
        bindE (find_free_block fuel (ofree_list s) sz s) (\<lambda>block.
        if block = 0
        then let s = emit (Vga_Print ''[HEAP] OUT OF MEMORY! Requested: '') s;
                 s = emit (Vga_Print (int_to_str sz)) s
          in Inr (0, emit (Vga_Print ('' bytes'' @ [LF])) s)
        else bindE (cut_block block sz s) (\<lambda>s.
          bindE (st8 (block + 8) 1 s) (\<lambda>s.
          bindE (take_off block s) (\<lambda>s.
          bindE (put_used block s) (\<lambda>s.
          Inr (block + BLOCK_SIZE, s)))))))"

primrec insert_walk :: "nat \<Rightarrow> u32 \<Rightarrow> u32 \<Rightarrow> u32 \<Rightarrow> 'a old_heap_scheme \<Rightarrow> fault + u32 \<times> u32" where
  "insert_walk 0 prev cur block s = Inl No_Return"
| "insert_walk (Suc fuel) prev cur block s =
     (if cur \<noteq> 0 \<and> cur < block
      then bindE (ld32 (cur + 12) s) (\<lambda>nx. insert_walk fuel cur nx block s)
      else Inr (prev, cur))"

definition insert_free_block :: "nat \<Rightarrow> u32 \<Rightarrow> 'a old_heap_scheme \<Rightarrow> fault + 'a old_heap_scheme" where
  "insert_free_block fuel block s =
     bindE (insert_walk fuel 0 (ofree_list s) block s) (\<lambda>(prev, cur).
     bindE (st32 (block + 16) prev s) (\<lambda>s.
     bindE (st32 (block + 12) cur s) (\<lambda>s.
     bindE (if cur \<noteq> 0 then st32 (cur + 16) block s else Inr s) (\<lambda>s.
     if prev \<noteq> 0 then st32 (prev + 12) block s else Inr (s\<lparr>ofree_list := block\<rparr>)))))"

definition take_unused :: "u32 \<Rightarrow> 'a old_heap_scheme \<Rightarrow> fault + 'a old_heap_scheme" where
  "take_unused block s =
     bindE (ld32 (block + 16) s) (\<lambda>pv.
     bindE (ld32 (block + 12) s) (\<lambda>nx.
     bindE (if pv \<noteq> 0 then st32 (pv + 12) nx s else Inr (s\<lparr>used_list := nx\<rparr>)) (\<lambda>s.
     bindE (ld32 (block + 12) s) (\<lambda>nx.
     bindE (if nx \<noteq> 0 then bindE (ld32 (block + 16) s) (\<lambda>pv. st32 (nx + 16) pv s) else Inr s) (\<lambda>s.
     bindE (st32 (block + 16) 0 s) (\<lambda>s.
     st32 (block + 12) 0 s))))))"

definition merge_next :: "u32 \<Rightarrow> 'a old_heap_scheme \<Rightarrow> fault + 'a old_heap_scheme" where
  "merge_next block s =
     bindE (ld32 (block + 12) s) (\<lambda>nx.
     bindE (if nx \<noteq> 0 then bindE (ld32 (block + 4) s) (\<lambda>sz. Inr (block + BLOCK_SIZE + sz = nx)) else Inr False) (\<lambda>adjacent.
     if adjacent
     then bindE (ld32 (block + 4) s) (\<lambda>sz.
       bindE (ld32 (nx + 4) s) (\<lambda>nsz.
       bindE (st32 (block + 4) (sz + (BLOCK_SIZE + nsz)) s) (\<lambda>s.
       bindE (ld32 (nx + 12) s) (\<lambda>nnx.
       bindE (st32 (block + 12) nnx s) (\<lambda>s.
       if nnx \<noteq> 0 then st32 (nnx + 16) block s else Inr s)))))
     else Inr s))"

definition merge_prev :: "u32 \<Rightarrow> 'a old_heap_scheme \<Rightarrow> fault + 'a old_heap_scheme" where
  "merge_prev block s =
     bindE (ld32 (block + 16) s) (\<lambda>pv.
     bindE (if pv \<noteq> 0 then bindE (ld32 (pv + 4) s) (\<lambda>sz. Inr (pv + BLOCK_SIZE + sz = block)) else Inr False) (\<lambda>adjacent.
     if adjacent
     then bindE (ld32 (pv + 4) s) (\<lambda>psz.
       bindE (ld32 (block + 4) s) (\<lambda>sz.
       bindE (st32 (pv + 4) (psz + (BLOCK_SIZE + sz)) s) (\<lambda>s.
       bindE (ld32 (block + 16) s) (\<lambda>pv.
       bindE (ld32 (block + 12) s) (\<lambda>nx.
       bindE (st32 (pv + 12) nx s) (\<lambda>s.
       bindE (ld32 (block + 12) s) (\<lambda>nx.
       if nx \<noteq> 0 then bindE (ld32 (block + 16) s) (\<lambda>pv. st32 (nx + 16) pv s) else Inr s)))))))
     else Inr s))"

definition KFREE :: "nat \<Rightarrow> u32 \<Rightarrow> 'a old_heap_scheme \<Rightarrow> fault + 'a old_heap_scheme" where
  "KFREE fuel ptr s =
     (if ptr = 0 then Inr s
      else let block = ptr - BLOCK_SIZE in
        bindE (ld32 block s) (\<lambda>magic.
        if magic \<noteq> BLOCK_MAGIC
        then Inr (emit (Vga_Print (''[HEAP] ERROR: Invalid pointer in KFREE!'' @ [LF])) s)
        else bindE (ld8 (block + 8) s) (\<lambda>u.
        if u = 0
        then Inr (emit (Vga_Print (''[HEAP] ERROR: Double free detected!'' @ [LF])) s)
        else bindE (st8 (block + 8) 0 s) (\<lambda>s.
          bindE (take_unused block s) (\<lambda>s.
          bindE (insert_free_block fuel block s) (\<lambda>s.
          bindE (merge_next block s) (\<lambda>s.
          merge_prev block s)))))))"

definition HEAP_RESET :: "'a old_heap_scheme \<Rightarrow> fault + 'a old_heap_scheme" where
  "HEAP_RESET s = HEAP_INIT (emit (Vga_Print (''[HEAP] Resetting heap...'' @ [LF])) s)"

text \<open>The walks of the status functions: bytes and blocks of a list, its largest block, its dump.\<close>

primrec list_totals :: "nat \<Rightarrow> u32 \<Rightarrow> u32 \<Rightarrow> u32 \<Rightarrow> 'a old_heap_scheme \<Rightarrow> fault + u32 \<times> u32" where
  "list_totals 0 current acc cnt s = Inl No_Return"
| "list_totals (Suc fuel) current acc cnt s =
     (if current = 0 then Inr (acc, cnt)
      else bindE (ld32 (current + 4) s) (\<lambda>sz.
        bindE (ld32 (current + 12) s) (\<lambda>nx. list_totals fuel nx (acc + sz) (cnt + 1) s)))"

primrec largest_block :: "nat \<Rightarrow> u32 \<Rightarrow> u32 \<Rightarrow> 'a old_heap_scheme \<Rightarrow> fault + u32" where
  "largest_block 0 current largest s = Inl No_Return"
| "largest_block (Suc fuel) current largest s =
     (if current = 0 then Inr largest
      else bindE (ld32 (current + 4) s) (\<lambda>sz.
        bindE (ld32 (current + 12) s) (\<lambda>nx. largest_block fuel nx (if sz > largest then sz else largest) s)))"

primrec dump_list :: "nat \<Rightarrow> u32 \<Rightarrow> 'a old_heap_scheme \<Rightarrow> fault + 'a old_heap_scheme" where
  "dump_list 0 current s = Inl No_Return"
| "dump_list (Suc fuel) current s =
     (if current = 0 then Inr s
      else let s = emit (Vga_Print ''  Block at 0x'') s;
               s = emit (Vga_Print (old_hex_to_str current)) s;
               s = emit (Vga_Print '', size: '') s
        in bindE (ld32 (current + 4) s) (\<lambda>sz.
           let s = emit (Vga_Print (int_to_str sz)) s;
               s = emit (Vga_Print [LF]) s
           in bindE (ld32 (current + 12) s) (\<lambda>nx. dump_list fuel nx s)))"

definition hex_buf :: "u32 \<Rightarrow> string" where
  "hex_buf temp =
     snd (fold (\<lambda>i (temp, buf). (drop_bit 4 temp, buf[7 - i := hex_digits ! unat (temp AND 0xF)]))
       [0..<8] (temp, replicate 8 (CHR 0x00)))"

definition HEAP_PRINT_STATUS :: "nat \<Rightarrow> 'a old_heap_scheme \<Rightarrow> fault + 'a old_heap_scheme" where
  "HEAP_PRINT_STATUS fuel s =
     bindE (list_totals fuel (used_list s) 0 0 s) (\<lambda>(used_bytes, used_blocks).
     bindE (list_totals fuel (ofree_list s) 0 0 s) (\<lambda>(free_bytes, free_blocks).
     Inr (fold (\<lambda>m. emit (Vga_Print m))
       [[LF] @ ''[HEAP] STATUS'' @ [LF], ''[HEAP] Start: (0x'', hex_buf HEAP_START, '')'' @ [LF],
        ''[HEAP] End: (0x'', hex_buf HEAP_END, '')'' @ [LF],
        ''[HEAP] Used: '', int_to_str used_bytes, '' bytes ('', int_to_str used_blocks, '' blocks)'' @ [LF],
        ''[HEAP] Free: '', int_to_str free_bytes, '' bytes ('', int_to_str free_blocks, '' blocks)'' @ [LF]] s)))"

definition HEAP_DEBUG_DUMP :: "nat \<Rightarrow> 'a old_heap_scheme \<Rightarrow> fault + 'a old_heap_scheme" where
  "HEAP_DEBUG_DUMP fuel s =
     (let s = emit (Vga_Print ([LF] @ ''[HEAP] DEBUG DUMP:'' @ [LF])) s;
          s = emit (Vga_Print (''Used list:'' @ [LF])) s
      in bindE (dump_list fuel (used_list s) s) (\<lambda>s.
      let s = emit (Vga_Print (''Free list:'' @ [LF])) s in dump_list fuel (ofree_list s) s))"

definition HEAP_PRINT_DETAILED :: "nat \<Rightarrow> 'a old_heap_scheme \<Rightarrow> fault + 'a old_heap_scheme" where
  "HEAP_PRINT_DETAILED fuel s =
     bindE (list_totals fuel (used_list s) 0 0 s) (\<lambda>(total_used, used_count).
     bindE (list_totals fuel (ofree_list s) 0 0 s) (\<lambda>(total_free, free_count).
     let s = fold (\<lambda>m. emit (Vga_Print m))
       [[LF] @ ''[HEAP DETAILED]'' @ [LF],
        ''Used: '', int_to_str total_used, '' bytes in '', int_to_str used_count, '' blocks'' @ [LF],
        ''Free: '', int_to_str total_free, '' bytes in '', int_to_str free_count, '' blocks'' @ [LF]] s
     in bindE (largest_block fuel (ofree_list s) 0 s) (\<lambda>largest_free.
        Inr (fold (\<lambda>m. emit (Vga_Print m)) [''Largest free block: '', int_to_str largest_free, '' bytes'' @ [LF]] s))))"

lemma emit_old_heap [simp]:
  "ofree_list (emit e s) = ofree_list s" "used_list (emit e s) = used_list s"
  "old_heap.more (emit e s) = old_heap.more s"
  by (simp_all add: emit_def)

lemma paging_old_heap [simp]:
  "paging (s\<lparr>ofree_list := b\<rparr>) = paging s" "paging (s\<lparr>used_list := b\<rparr>) = paging s"
  by (simp_all add: paging_def)

section \<open>The heap represents a list of free and a list of used blocks\<close>

definition used_rel :: "'a old_heap_scheme \<Rightarrow> blocks \<Rightarrow> bool" where
  "used_rel s us \<longleftrightarrow> (\<exists>l. dlu 1 4 (ram s) 0 (used_list s) us 0 l) \<and> blocks_apart 4 us"

definition old_rel :: "'a old_heap_scheme \<Rightarrow> blocks \<Rightarrow> bool" where
  "old_rel s bs \<longleftrightarrow> \<not> paging s \<and> blocks_ok 4 bs \<and> (\<exists>l. dll 4 (ram s) 0 (ofree_list s) bs 0 l) \<and>
     (\<exists>us. used_rel s us \<and> bytes 4 us \<inter> bytes 4 bs = {})"

definition old_held :: "'a old_heap_scheme \<Rightarrow> u32 \<times> u32 \<Rightarrow> bool" where
  "old_held s b \<longleftrightarrow> (\<exists>us. used_rel s us \<and> b \<in> set us)"

definition old_rest :: "u32 \<Rightarrow> u32 \<Rightarrow> u32 option" where
  "old_rest sz n = (if 32 \<le> n - sz - 20 then Some (n - sz - 20) else None)"

text \<open>The block a request finds, if it finds one, has room for the header of its rest.\<close>

definition can_cut :: "u32 \<Rightarrow> blocks \<Rightarrow> bool" where
  "can_cut sz bs \<longleftrightarrow> (\<forall>b. find (\<lambda>b. sz \<le> snd b) bs = Some b \<longrightarrow> unat sz + 20 \<le> unat (snd b))"

text \<open>It has when every block that is large enough does.\<close>

lemma can_cut_all: "(\<And>b. b \<in> set bs \<Longrightarrow> sz \<le> snd b \<Longrightarrow> unat sz + 20 \<le> unat (snd b)) \<Longrightarrow> can_cut sz bs"
  unfolding can_cut_def find_Some_iff by (metis nth_mem)

lemma hlen_4 [simp]: "hlen 4 = 20"
  by (simp add: hlen_def)

lemma hdr_4: "hdr 4 m a n u nx pv \<longleftrightarrow>
  rd32 m (a + 4) = n \<and> m (a + 8) = u \<and> rd32 m (a + 12) = nx \<and> rd32 m (a + 16) = pv \<and> rd32 m a = 0xDEADBEEF"
  by (simp add: hdr_def block_tag_def add.assoc)

lemma set_4: "set_next 4 l r m = (if l = 0 then m else wr32 (l + 12) r m)"
  "set_prev 4 r l m = (if r = 0 then m else wr32 (r + 16) l m)"
  by (simp_all add: set_next_def set_prev_def add.assoc)

lemma used_unique: "used_rel s us \<Longrightarrow> used_rel s us' \<Longrightarrow> us = us'"
  using dlu_unique [of 1 4 "ram s" 0 "used_list s" us _ us'] by (fastforce simp: used_rel_def blocks_apart_def)

lemma held_iff: "used_rel s us \<Longrightarrow> old_held s b \<longleftrightarrow> b \<in> set us"
  using used_unique by (auto simp: old_held_def)

text \<open>Changes inside the free bytes leave the used list alone, and the other way round.\<close>

lemma used_keep:
  assumes "used_rel s us" "agree S (ram s) (ram s')" "bytes 4 us \<inter> S = {}" "used_list s' = used_list s"
  shows "used_rel s' us"
proof -
  have a: "blocks_apart 4 us" using assms(1) by (simp add: used_rel_def)
  have "heads 4 us \<inter> S = {}" using heads_bytes [of 4 us] assms(3) by blast
  from dlu_keep [OF assms(2) this a] assms(1,4) show ?thesis by (simp add: used_rel_def)
qed

lemma find_free_run:
  "\<not> paging s \<Longrightarrow> dll 4 (ram s) pv p bs 0 l \<Longrightarrow> \<forall>b \<in> set bs. fst b \<noteq> 0 \<Longrightarrow> length bs < fuel \<Longrightarrow>
   find_free_block fuel p sz s = Inr (case find (\<lambda>b. sz \<le> snd b) bs of None \<Rightarrow> 0 | Some b \<Rightarrow> fst b)"
proof (induction bs arbitrary: pv p fuel)
  case Nil
  then show ?case by (cases fuel) auto
next
  case (Cons b bs)
  then show ?case by (cases fuel; cases b) (auto simp: run_simps hdr_4)
qed

lemma take_off_run:
  assumes "\<not> paging s" "hdr 4 (ram s) a n u nx pv" "hdr 4 (set_next 4 pv nx (ram s)) a n u nx pv"
  shows "take_off a s = Inr (s\<lparr>ram := set_prev 4 nx pv (set_next 4 pv nx (ram s)),
    ofree_list := (if pv = 0 then nx else ofree_list s)\<rparr>)"
  using assms unfolding hdr_4 set_4
  by (cases "pv = 0"; cases "nx = 0"; simp add: take_off_def run_simps; cases s; simp)

lemma put_used_run:
  assumes "\<not> paging s"
  shows "put_used a s = Inr (s\<lparr>ram := set_prev 4 (used_list s) a (wr32 (a + 12) (used_list s) (wr32 (a + 16) 0 (ram s))),
    used_list := a\<rparr>)"
  using assms unfolding set_4 by (simp add: put_used_def run_simps)

lemma take_unused_run:
  assumes "\<not> paging s" "hdr 4 (ram s) a n u nx pv" "hdr 4 (set_next 4 pv nx (ram s)) a n u nx pv"
  shows "take_unused a s = Inr (s\<lparr>ram := wr32 (a + 12) 0 (wr32 (a + 16) 0 (set_prev 4 nx pv (set_next 4 pv nx (ram s)))),
    used_list := (if pv = 0 then nx else used_list s)\<rparr>)"
  using assms unfolding hdr_4 set_4
  by (cases "pv = 0"; cases "nx = 0"; simp add: take_unused_def run_simps; cases s; simp)

section \<open>Cutting a block\<close>

lemma header_writes:
  assumes "unat b + 20 \<le> 2 ^ 32"
  shows "agree (hrange 4 b) m (wr32 b v m)" "agree (hrange 4 b) m (wr32 (b + 4) v m)" "agree (hrange 4 b) m (m(b + 8 := x))"
    "agree (hrange 4 b) m (wr32 (b + 12) v m)" "agree (hrange 4 b) m (wr32 (b + 16) v m)"
proof -
  have "{unat b..<unat b + 4} \<subseteq> hrange 4 b" by (auto simp: hrange_def)
  then show "agree (hrange 4 b) m (wr32 b v m)" using assms by (intro agree_wr32) auto
  show "agree (hrange 4 b) m (wr32 (b + 4) v m)" "agree (hrange 4 b) m (m(b + 8 := x))"
    "agree (hrange 4 b) m (wr32 (b + 12) v m)" "agree (hrange 4 b) m (wr32 (b + 16) v m)"
    using agree_write [of b 4 "hrange 4 b"] assms by (simp_all add: add.assoc)
qed

text \<open>The header of the rest, and the memory \<open>cut_block\<close> leaves.\<close>

definition new_header :: "u32 \<Rightarrow> u32 \<Rightarrow> u32 \<Rightarrow> u32 \<Rightarrow> memory \<Rightarrow> memory" where
  "new_header b r nx a m =
     wr32 (b + 16) a (wr32 (b + 12) nx ((wr32 (b + 4) r (wr32 b BLOCK_MAGIC m))(b + 8 := 0)))"

lemma new_header_props:
  assumes "unat b + 20 \<le> 2 ^ 32"
  shows "agree (hrange 4 b) m (new_header b r nx a m)" "hdr 4 (new_header b r nx a m) b r 0 nx a"
proof -
  note w = header_writes [OF assms]
  show "agree (hrange 4 b) m (new_header b r nx a m)"
    unfolding new_header_def by (intro agree_trans [OF agree_trans [OF agree_trans [OF agree_trans [OF w(1) w(2)] w(3)] w(4)] w(5)])
  have "hdr 4 (wr32 b BLOCK_MAGIC m) b (rd32 (wr32 b BLOCK_MAGIC m) (b + 4)) (wr32 b BLOCK_MAGIC m (b + 8))
      (rd32 (wr32 b BLOCK_MAGIC m) (b + 12)) (rd32 (wr32 b BLOCK_MAGIC m) (b + 16))"
    by (simp add: hdr_4 mem_simps BLOCK_MAGIC_def)
  from hdr_write(4) [OF hdr_write(3) [OF hdr_write(2) [OF hdr_write(1) [OF this, of r], of 0], of nx], of a]
  show "hdr 4 (new_header b r nx a m) b r 0 nx a" by (simp add: new_header_def add.assoc)
qed

lemma cut_block_run:
  assumes np: "\<not> paging s" and h: "\<And>m'. agree (hrange 4 (a + 20 + sz)) (ram s) m' \<Longrightarrow> hdr 4 m' a n u nx pv"
    and e: "unat (a + 20 + sz) + 20 \<le> 2 ^ 32" and r: "32 \<le> n - sz - 20"
  shows "cut_block a sz s = Inr (s\<lparr>ram := wr32 (a + 4) sz (wr32 (a + 12) (a + 20 + sz)
    (set_prev 4 nx (a + 20 + sz) (new_header (a + 20 + sz) (n - sz - 20) nx a (ram s))))\<rparr>)"
proof -
  define b where "b = a + 20 + sz"
  note w = header_writes [OF e [folded b_def]]
  define m1 where "m1 = wr32 b BLOCK_MAGIC (ram s)"
  define m2 where "m2 = (wr32 (b + 4) (n - sz - 20) m1)(b + 8 := 0)"
  define m3 where "m3 = wr32 (b + 16) a (wr32 (b + 12) nx m2)"
  have 1: "agree (hrange 4 b) (ram s) m1" unfolding m1_def by (rule w(1))
  have 2: "agree (hrange 4 b) (ram s) m2" unfolding m2_def by (rule agree_trans [OF agree_trans [OF 1 w(2)] w(3)])
  have 3: "agree (hrange 4 b) (ram s) m3" unfolding m3_def by (rule agree_trans [OF agree_trans [OF 2 w(4)] w(5)])
  have f: "rd32 (ram s) (a + 4) = n" "rd32 m1 (a + 4) = n" "rd32 m2 (a + 12) = nx" "rd32 m3 (a + 12) = nx"
    using h [OF agree_refl] h [folded b_def, OF 1] h [folded b_def, OF 2] h [folded b_def, OF 3]
    unfolding hdr_4 by blast+
  have c: "MIN_BLOCK_SIZE + 16 \<le> n - sz - 20" using r by (simp add: MIN_BLOCK_SIZE_def)
  have "cut_block a sz s =
     bindE (if nx \<noteq> 0 then st32 (nx + 16) b (s\<lparr>ram := m3\<rparr>) else Inr (s\<lparr>ram := m3\<rparr>)) (\<lambda>s.
       bindE (st32 (a + 12) b s) (\<lambda>s. st32 (a + 4) sz s))"
    unfolding cut_block_def using np c
    by (simp only: run_simps ram_run [OF np] f bindE_simps Let_def b_def [symmetric] BLOCK_SIZE_def
      m1_def [symmetric] m2_def [symmetric] m3_def [symmetric] if_True simp_thms not_False_eq_True)
  moreover have "new_header b (n - sz - 20) nx a (ram s) = m3"
    by (simp add: new_header_def m3_def m2_def m1_def)
  ultimately show ?thesis
    using np unfolding b_def [symmetric] by (simp add: run_simps set_4)
qed

text \<open>The free part of the relation, and cutting as a step on it.\<close>

definition free_rel :: "'a old_heap_scheme \<Rightarrow> blocks \<Rightarrow> bool" where
  "free_rel s bs \<longleftrightarrow> \<not> paging s \<and> blocks_ok 4 bs \<and> (\<exists>l. dll 4 (ram s) 0 (ofree_list s) bs 0 l)"

lemma cut_step:
  assumes rel: "free_rel s (xs @ (a, n) # ys)" and fit: "unat sz + 20 \<le> unat n" and r: "32 \<le> n - sz - 20"
  shows "\<exists>s'. cut_block a sz s = Inr s' \<and> free_rel s' (xs @ (a, sz) # (a + 20 + sz, n - sz - 20) # ys) \<and>
    agree (bytes 4 (xs @ (a, n) # ys)) (ram s) (ram s') \<and> used_list s' = used_list s"
proof -
  obtain t l nx where np: "\<not> paging s" and ok: "blocks_ok 4 (xs @ (a, n) # ys)"
    and x: "dll 4 (ram s) 0 (ofree_list s) xs a l" and h: "hdr 4 (ram s) a n 0 nx l"
    and y: "dll 4 (ram s) a nx ys 0 t"
    using rel by (auto simp: free_rel_def dll_append)
  define b r where "b = a + 20 + sz" and "r = n - sz - 20"
  have k: "b = a + (16 + 4) + sz" "r = n - sz - (16 + 4)" by (simp_all add: b_def r_def)
  have fit': "unat sz + hlen 4 \<le> unat n" using fit by simp
  note c = cut_ok [OF ok fit' k]
  have be: "block_end 4 (a, n) \<le> 2 ^ 32" "a \<noteq> 0" using ok by (auto simp: blocks_ok_append blocks_ok_Cons)
  have bb: "unat b + 20 \<le> 2 ^ 32" using c(6) be(1) by (simp add: block_end_def)
  have ba: "unat a + 20 \<le> 2 ^ 32" using be(1) by (simp add: block_end_def)
  have bh: "hrange 4 a \<inter> hrange 4 b = {}"
    using c(3) hrange_extent [of 4 "(a, sz)"] hrange_extent [of 4 "(b, r)"] by auto
  have hk: "hdr 4 m' a n 0 nx l" if "agree (hrange 4 b) (ram s) m'" for m'
    using hdr_agree [OF that bh] ba h by simp
  define mh where "mh = new_header b r nx a (ram s)"
  note mh = new_header_props [OF bb, where m = "ram s" and a = a and nx = nx and r = r, folded mh_def]
  define m3 where "m3 = wr32 (a + 4) sz (wr32 (a + 12) b (set_prev 4 nx b mh))"
  have run: "cut_block a sz s = Inr (s\<lparr>ram := m3\<rparr>)"
    using cut_block_run [OF np hk [unfolded b_def] bb [unfolded b_def] assms(3)]
    by (simp add: m3_def mh_def b_def r_def)
  note wa = header_writes [OF ba]
  have a3: "agree (hrange 4 a) (set_prev 4 nx b mh) m3"
    unfolding m3_def by (rule agree_trans [OF wa(4) wa(2)])
  have "heads 4 ys \<inter> hrange 4 b = {}"
    using extent_apart [OF ok] c(2) heads_bytes [of 4 ys] hrange_extent [of 4 "(b, r)"] by auto
  then have y2: "dll 4 mh a nx ys 0 t"
    using dll_keep [OF mh(1)] y ok by (simp add: blocks_ok_append blocks_ok_Cons)
  have g: "agree (hrange 4 b \<union> heads 4 ys) (ram s) (set_prev 4 nx b mh)"
    using ok by (intro agree_trans [OF agree_mono [OF mh(1)] agree_mono [OF agree_prev [OF y2]]])
      (auto simp: blocks_ok_append blocks_ok_Cons)
  have "hrange 4 a \<inter> (hrange 4 b \<union> heads 4 ys) = {}"
    using bh extent_apart [OF ok] heads_bytes [of 4 ys] hrange_extent [of 4 "(a, n)"] by auto
  from hdr_agree [OF g this] have h2: "hdr 4 (set_prev 4 nx b mh) a n 0 nx l" using ba h by simp
  have h3: "hdr 4 m3 a sz 0 b l"
    using hdr_write(1) [OF hdr_write(3) [OF h2, of b], of sz] by (simp add: m3_def add.assoc)
  note cs = cut_segments [OF x h y ok fit' k mh a3 h3]
  obtain t' where t': "dll 4 m3 a b ((b, r) # ys) 0 t'" using cs(2) by blast
  have "before 4 (a, sz) z" if "z \<in> set ((b, r) # ys)" for z
    using that c(1,5) be(1) by (auto simp: blocks_ok_append blocks_ok_Cons before_def block_end_def)
  moreover have "block_end 4 (a, sz) \<le> 2 ^ 32" using c(5) bb by (simp add: block_end_def)
  ultimately have "blocks_ok 4 (xs @ (a, sz) # (b, r) # ys)"
    using c(1) ok by (auto simp: blocks_ok_append blocks_ok_Cons before_def)
  moreover have "\<exists>l. dll 4 m3 0 (ofree_list s) (xs @ (a, sz) # (b, r) # ys) 0 l"
  proof -
    have "rd32 m3 (a + 4 + 8) = b" using h3 by (rule hdr_next)
    then have "dll 4 m3 l a ((a, sz) # (b, r) # ys) 0 t'" using h3 t' by simp
    then show ?thesis using cs(1) unfolding dll_append by blast
  qed
  ultimately show ?thesis
    using run cs(3) np unfolding b_def [symmetric] r_def [symmetric] by (auto simp: free_rel_def)
qed

section \<open>Allocation\<close>

text \<open>Marking a block of the free list, taking it off, and putting it on the used list.\<close>

lemma take_off_step:
  assumes rel: "free_rel s (xs @ (a, n) # ys)"
  shows "\<exists>s'. bindE (st8 (a + 8) 1 s) (take_off a) = Inr s' \<and> free_rel s' (xs @ ys) \<and> used_list s' = used_list s \<and>
    (\<exists>nx pv. hdr 4 (ram s') a n 1 nx pv) \<and> agree (hrange 4 a \<union> heads 4 (xs @ ys)) (ram s) (ram s')"
proof -
  obtain t l nx where np: "\<not> paging s" and ok: "blocks_ok 4 (xs @ (a, n) # ys)"
    and x: "dll 4 (ram s) 0 (ofree_list s) xs a l" and h: "hdr 4 (ram s) a n 0 nx l"
    and y: "dll 4 (ram s) a nx ys 0 t"
    using rel by (auto simp: free_rel_def dll_append)
  have oks: "blocks_ok 4 xs" "blocks_ok 4 ys" "block_end 4 (a, n) \<le> 2 ^ 32" "blocks_ok 4 (xs @ ys)"
    using ok blocks_ok_remove [OF ok] by (auto simp: blocks_ok_append blocks_ok_Cons)
  have e: "extent 4 (a, n) \<inter> bytes 4 (xs @ ys) = {}" by (rule extent_apart [OF ok])
  have ba: "unat a + 20 \<le> 2 ^ 32" using oks(3) by (simp add: block_end_def)
  note w = header_writes [OF ba]
  let ?m = "(ram s)(a + 8 := 1)"
  have rd: "heads 4 xs \<inter> hrange 4 a = {}" "heads 4 ys \<inter> hrange 4 a = {}"
    using e hrange_extent [of 4 "(a, n)"] heads_bytes [of 4 xs] heads_bytes [of 4 ys] by auto
  have hm: "hdr 4 ?m a n 1 nx l" using hdr_write(2) [OF h, of 1] by (simp add: add.assoc)
  have xm: "dll 4 ?m 0 (ofree_list s) xs a l" using dll_keep [OF w(3) rd(1) oks(1)] x by simp
  have ym: "dll 4 ?m a nx ys 0 t" using dll_keep [OF w(3) rd(2) oks(2)] y by simp
  note l = link_segments [OF xm ym oks(4)]
  let ?m2 = "set_prev 4 nx l (set_next 4 l nx ?m)"
  have h2: "hdr 4 (set_next 4 l nx ?m) a n 1 nx l" and h3: "hdr 4 ?m2 a n 1 nx l"
    using hdr_keep [OF l(3) e oks(3)] hdr_keep [OF l(2) e oks(3)] hm by simp_all
  define s2 where "s2 = s\<lparr>ram := ?m2, ofree_list := (if l = 0 then nx else ofree_list s)\<rparr>"
  have "bindE (st8 (a + 8) 1 s) (take_off a) = Inr s2"
    using take_off_run [of "s\<lparr>ram := ?m\<rparr>" a n 1 nx l] np hm h2 by (simp add: run_simps s2_def)
  moreover have "l = 0 \<longleftrightarrow> xs = []" by (rule dll_end_nil [OF xm oks(1)])
  then have "free_rel s2 (xs @ ys)" using l(1) np oks(4) by (auto simp: free_rel_def s2_def)
  moreover have "agree (hrange 4 a \<union> heads 4 (xs @ ys)) (ram s) ?m2"
    by (rule agree_trans [OF agree_mono [OF w(3)] agree_mono [OF l(2)]]) auto
  ultimately show ?thesis using h3 by (intro exI [of _ s2]) (auto simp: s2_def)
qed

lemma put_used_step:
  assumes np: "\<not> paging s" and us: "used_rel s us" and h: "hdr 4 (ram s) a n 1 nx pv"
    and b: "a \<noteq> 0" "block_end 4 (a, n) \<le> 2 ^ 32" "extent 4 (a, n) \<inter> bytes 4 us = {}"
  shows "\<exists>s'. put_used a s = Inr s' \<and> \<not> paging s' \<and> used_rel s' ((a, n) # us) \<and> ofree_list s' = ofree_list s \<and>
    agree (hrange 4 a \<union> heads 4 us) (ram s) (ram s')"
proof -
  obtain lu where u: "dlu 1 4 (ram s) 0 (used_list s) us 0 lu" and au: "blocks_apart 4 us"
    using us by (auto simp: used_rel_def)
  have ba: "unat a + 20 \<le> 2 ^ 32" using b(2) by (simp add: block_end_def)
  note w = header_writes [OF ba]
  let ?m3 = "wr32 (a + 12) (used_list s) (wr32 (a + 16) 0 (ram s))"
  let ?m4 = "set_prev 4 (used_list s) a ?m3"
  define s3 where "s3 = s\<lparr>ram := ?m4, used_list := a\<rparr>"
  have put: "put_used a s = Inr s3"
    using put_used_run [of s a] np by (simp add: s3_def)
  have h4: "hdr 4 ?m3 a n 1 (used_list s) 0"
    using hdr_write(3) [OF hdr_write(4) [OF h, of 0], of "used_list s"] by (simp add: add.assoc)
  have a3: "agree (hrange 4 a) (ram s) ?m3" by (rule agree_trans [OF w(5) w(4)])
  have d: "hrange 4 a \<inter> heads 4 us = {}" "heads 4 us \<inter> hrange 4 a = {}"
    using b(3) hrange_extent [of 4 "(a, n)"] heads_bytes [of 4 us] by auto
  have u3: "dlu 1 4 ?m3 0 (used_list s) us 0 lu" using dlu_keep [OF a3 d(2) au] u by simp
  note u4 = dlu_set_prev [OF u3 au, of a]
  have a4: "agree (heads 4 us) ?m3 ?m4" by (rule dlu_agree_prev [OF u3 au])
  have h5: "hdr 4 ?m4 a n 1 (used_list s) 0" using hdr_agree [OF a4 d(1)] ba h4 by simp
  have "rd32 ?m4 (a + 4 + 8) = used_list s" using h5 by (rule hdr_next)
  then have "dlu 1 4 ?m4 0 a ((a, n) # us) 0 (if us = [] then a else lu)"
    using b(1) h5 u4 by simp
  moreover have "blocks_apart 4 ((a, n) # us)" using b by (intro apart_new au) auto
  ultimately have "used_rel s3 ((a, n) # us)" by (auto simp: used_rel_def s3_def)
  moreover have "agree (hrange 4 a \<union> heads 4 us) (ram s) ?m4"
    by (rule agree_trans [OF agree_mono [OF a3] agree_mono [OF a4]]) auto
  ultimately show ?thesis using put np by (intro exI [of _ s3]) (simp add: s3_def)
qed

lemma take_step:
  assumes rel: "free_rel s (xs @ (a, n) # ys)" and us: "used_rel s us" and ap: "bytes 4 us \<inter> bytes 4 (xs @ (a, n) # ys) = {}"
  shows "\<exists>s'. bindE (st8 (a + 8) 1 s) (\<lambda>s. bindE (take_off a s) (put_used a)) = Inr s' \<and>
    free_rel s' (xs @ ys) \<and> used_rel s' ((a, n) # us) \<and>
    agree (bytes 4 (xs @ (a, n) # ys) \<union> heads 4 us) (ram s) (ram s')"
proof -
  let ?B = "bytes 4 (xs @ (a, n) # ys)"
  have ok: "blocks_ok 4 (xs @ (a, n) # ys)" using rel by (simp add: free_rel_def)
  then have b: "a \<noteq> 0" "block_end 4 (a, n) \<le> 2 ^ 32" "extent 4 (a, n) \<inter> bytes 4 us = {}"
    using ap by (auto simp: blocks_ok_append blocks_ok_Cons)
  have hB: "hrange 4 a \<union> heads 4 (xs @ ys) \<subseteq> ?B"
    using hrange_extent [of 4 "(a, n)"] heads_bytes [of 4 xs] heads_bytes [of 4 ys] by auto
  obtain s2 nx pv where s2: "bindE (st8 (a + 8) 1 s) (take_off a) = Inr s2" "free_rel s2 (xs @ ys)"
      "used_list s2 = used_list s" "hdr 4 (ram s2) a n 1 nx pv" "agree (hrange 4 a \<union> heads 4 (xs @ ys)) (ram s) (ram s2)"
    using take_off_step [OF rel] by blast
  note a2 = agree_mono [OF s2(5) hB]
  have np2: "\<not> paging s2" using s2(2) by (simp add: free_rel_def)
  have "used_rel s2 us" using used_keep [OF us a2 _ s2(3)] ap by simp
  from put_used_step [OF np2 this s2(4) b]
  obtain s3 where s3: "put_used a s2 = Inr s3" "\<not> paging s3" "used_rel s3 ((a, n) # us)" "ofree_list s3 = ofree_list s2"
      "agree (hrange 4 a \<union> heads 4 us) (ram s2) (ram s3)"
    by blast
  have "heads 4 (xs @ ys) \<inter> (hrange 4 a \<union> heads 4 us) = {}"
    using extent_apart [OF ok] ap hrange_extent [of 4 "(a, n)"] heads_bytes [of 4 us] heads_bytes [of 4 xs] heads_bytes [of 4 ys]
    by auto
  then have "free_rel s3 (xs @ ys)" using s2(2) s3(2,4) dll_keep [OF s3(5)] by (auto simp: free_rel_def)
  moreover have "agree (?B \<union> heads 4 us) (ram s) (ram s3)"
    by (rule agree_trans [OF agree_mono [OF a2] agree_mono [OF s3(5)]]) (use hB in auto)
  moreover have "bindE (st8 (a + 8) 1 s) (\<lambda>s. bindE (take_off a s) (put_used a)) = Inr s3"
    using s2(1) s3(1) by (simp flip: bindE_assoc)
  ultimately show ?thesis using s3(3) by blast
qed

lemma fit_find:
  assumes "take_fit k rest sz bs = Some (b, bs')"
  obtains xs a n ys where "bs = xs @ (a, n) # ys" "sz \<le> n" "find (\<lambda>b. sz \<le> snd b) bs = Some (a, n)"
    "b = (a, cut_size rest sz n)" "bs' = xs @ after_cut k rest sz a n @ ys"
  using take_fit_split [OF assms] by metis

text \<open>\<open>KMALLOC\<close> takes the first block that is large enough, and puts it on the used list.\<close>

lemma old_rel_free: "old_rel s bs \<longleftrightarrow> free_rel s bs \<and> (\<exists>us. used_rel s us \<and> bytes 4 us \<inter> bytes 4 bs = {})"
  by (auto simp: old_rel_def free_rel_def)

text \<open>The cut, when there is one.\<close>

lemma cut_if_step:
  assumes f: "free_rel s (xs @ (a, n) # ys)" and us: "used_rel s us" "bytes 4 us \<inter> bytes 4 (xs @ (a, n) # ys) = {}"
    and fit: "unat sz + 20 \<le> unat n"
  shows "\<exists>s' zs. cut_block a sz s = Inr s' \<and> free_rel s' (xs @ (a, cut_size (old_rest sz) sz n) # zs) \<and> used_rel s' us \<and>
    after_cut 4 (old_rest sz) sz a n @ ys = zs \<and>
    bytes 4 (xs @ (a, cut_size (old_rest sz) sz n) # zs) \<subseteq> bytes 4 (xs @ (a, n) # ys) \<and>
    agree (bytes 4 (xs @ (a, n) # ys)) (ram s) (ram s')"
proof (cases "32 \<le> n - sz - 20")
  case True
  have ok: "blocks_ok 4 (xs @ (a, n) # ys)" using f by (simp add: free_rel_def)
  obtain s1 where s1: "cut_block a sz s = Inr s1" "free_rel s1 (xs @ (a, sz) # (a + 20 + sz, n - sz - 20) # ys)"
      "agree (bytes 4 (xs @ (a, n) # ys)) (ram s) (ram s1)" "used_list s1 = used_list s"
    using cut_step [OF f fit True] by blast
  have "used_rel s1 us" using used_keep [OF us(1) s1(3) us(2) s1(4)] .
  moreover have "extent 4 (a, sz) \<union> extent 4 (a + 20 + sz, n - sz - 20) = extent 4 (a, n)"
    using cut_ok(4) [OF ok, of sz "a + 20 + sz" "n - sz - 20"] fit by simp
  ultimately show ?thesis using s1(1-3) True by (auto simp: after_cut_def cut_size_def old_rest_def)
next
  case False
  obtain nx pv where "\<not> paging s" "hdr 4 (ram s) a n 0 nx pv" using f by (auto simp: free_rel_def dll_append)
  then have "cut_block a sz s = Inr s"
    using False by (simp add: cut_block_def run_simps hdr_4 old_heap_consts Let_def)
  then show ?thesis using False f us(1) by (auto simp: after_cut_def cut_size_def old_rest_def)
qed

lemma KMALLOC_fit:
  assumes rel: "old_rel s bs" and q: "req \<noteq> 0" and fuel: "Suc (length bs) < fuel"
    and cut: "can_cut (round16 req) bs"
    and t: "take_fit 4 (old_rest (round16 req)) (round16 req) bs = Some ((a, m), bs')"
  shows "\<exists>s'. KMALLOC fuel req s = Inr (a + 20, s') \<and> old_rel s' bs' \<and> old_held s' (a, m) \<and>
    (\<forall>c. old_held s c \<and> extent 4 c \<inter> bytes 4 bs = {} \<longrightarrow> old_held s' c) \<and>
    (\<forall>us. used_rel s us \<longrightarrow> used_rel s' ((a, m) # us) \<and>
      agree (heads 4 us \<union> bytes 4 bs) (ram s) (ram s'))"
proof -
  let ?sz = "round16 req"
  obtain xs n ys where bs: "bs = xs @ (a, n) # ys" "?sz \<le> n" "find (\<lambda>b. ?sz \<le> snd b) bs = Some (a, n)"
      "m = cut_size (old_rest ?sz) ?sz n" "bs' = xs @ after_cut 4 (old_rest ?sz) ?sz a n @ ys"
    using fit_find [OF t] by (metis prod.inject)
  obtain us l where f: "free_rel s bs" and us: "used_rel s us" "bytes 4 us \<inter> bytes 4 bs = {}"
    and np: "\<not> paging s" and d: "dll 4 (ram s) 0 (ofree_list s) bs 0 l" and ok: "blocks_ok 4 bs"
    using rel by (auto simp: old_rel_def free_rel_def)
  have nz: "\<forall>b \<in> set bs. fst b \<noteq> 0" using ok by (simp add: blocks_ok_def)
  then have a0: "a \<noteq> 0" using bs(1) by auto
  have fit: "unat ?sz + 20 \<le> unat n" using cut bs(3) by (auto simp: can_cut_def)
  have find: "find_free_block fuel (ofree_list s) ?sz s = Inr a"
    using find_free_run [OF np d nz] fuel bs(3) by simp
  have run: "KMALLOC fuel req s = bindE (bindE (cut_block a ?sz s) (\<lambda>s.
      bindE (st8 (a + 8) 1 s) (\<lambda>s. bindE (take_off a s) (put_used a)))) (\<lambda>s. Inr (a + 20, s))"
    using q a0 find by (simp add: KMALLOC_def Let_def BLOCK_SIZE_def bindE_assoc)
  obtain s1 zs where s1: "cut_block a ?sz s = Inr s1" "free_rel s1 (xs @ (a, m) # zs)" "used_rel s1 us"
      "bs' = xs @ zs" "bytes 4 (xs @ (a, m) # zs) \<subseteq> bytes 4 bs" "agree (bytes 4 bs) (ram s) (ram s1)"
    using cut_if_step [OF f [unfolded bs(1)] us [unfolded bs(1)] fit] bs(1,4,5) by auto
  have ap: "bytes 4 us \<inter> bytes 4 (xs @ (a, m) # zs) = {}" using us(2) s1(5) by blast
  obtain s2 where s2: "bindE (st8 (a + 8) 1 s1) (\<lambda>s. bindE (take_off a s) (put_used a)) = Inr s2"
      "free_rel s2 (xs @ zs)" "used_rel s2 ((a, m) # us)"
      "agree (bytes 4 (xs @ (a, m) # zs) \<union> heads 4 us) (ram s1) (ram s2)"
    using take_step [OF s1(2,3) ap] by blast
  have "extent 4 (a, m) \<inter> bytes 4 (xs @ zs) = {}"
    using extent_apart s1(2) by (auto simp: free_rel_def)
  then have "bytes 4 ((a, m) # us) \<inter> bytes 4 bs' = {}" using ap s1(4) by auto
  then have "old_rel s2 bs'" unfolding old_rel_free using s2(2,3) s1(4) by blast
  moreover have "KMALLOC fuel req s = Inr (a + 20, s2)" unfolding run s1(1) bindE_simps s2(1) ..
  moreover have "old_held s2 c" if "old_held s c \<or> c = (a, m)" for c
    using that held_iff [OF us(1)] held_iff [OF s2(3)] by auto
  moreover have "used_rel s2 ((a, m) # vs) \<and> agree (heads 4 vs \<union> bytes 4 bs) (ram s) (ram s2)" if "used_rel s vs" for vs
  proof -
    have "agree (heads 4 us \<union> bytes 4 bs) (ram s) (ram s2)"
      by (rule agree_trans [OF agree_mono [OF s1(6)] agree_mono [OF s2(4)]]) (use s1(5) in auto)
    then show ?thesis using used_unique [OF us(1) that] s2(3) by simp
  qed
  ultimately show ?thesis by blast
qed

section \<open>Release\<close>

text \<open>\<open>KFREE\<close> marks the block free and takes it off the used list, wherever it is on it.\<close>

lemma unuse_step:
  assumes np: "\<not> paging s" and rel: "used_rel s (us @ (a, m) # vs)"
  shows "\<exists>s'. bindE (st8 (a + 8) 0 s) (take_unused a) = Inr s' \<and> \<not> paging s' \<and> used_rel s' (us @ vs) \<and>
    hdr 4 (ram s') a m 0 0 0 \<and> agree (heads 4 (us @ (a, m) # vs)) (ram s) (ram s') \<and> ofree_list s' = ofree_list s"
proof -
  obtain l t nx where ap: "blocks_apart 4 (us @ (a, m) # vs)" and x: "dlu 1 4 (ram s) 0 (used_list s) us a l"
    and h: "hdr 4 (ram s) a m 1 nx l" and y: "dlu 1 4 (ram s) a nx vs 0 t"
    using rel by (auto simp: used_rel_def dlu_append)
  note r = apart_remove [OF ap]
  have oks: "blocks_apart 4 us" "blocks_apart 4 vs" using r(1) by (simp_all add: blocks_apart_append)
  have ra: "hrange 4 a \<subseteq> extent 4 (a, m)" using hrange_extent [of 4 "(a, m)"] by simp
  have ba: "unat a + 20 \<le> 2 ^ 32" using r(4) by (simp add: block_end_def)
  note w = header_writes [OF ba]
  let ?m = "(ram s)(a + 8 := 0)"
  have rd: "heads 4 us \<inter> hrange 4 a = {}" "heads 4 vs \<inter> hrange 4 a = {}"
    using r(2) ra heads_bytes [of 4 us] heads_bytes [of 4 vs] by auto
  have hm: "hdr 4 ?m a m 0 nx l" using hdr_write(2) [OF h, of 0] by (simp add: add.assoc)
  have xm: "dlu 1 4 ?m 0 (used_list s) us a l" using dlu_keep [OF w(3) rd(1) oks(1)] x by simp
  have ym: "dlu 1 4 ?m a nx vs 0 t" using dlu_keep [OF w(3) rd(2) oks(2)] y by simp
  note l = dlu_link [OF xm ym r(1)]
  let ?m2 = "set_prev 4 nx l (set_next 4 l nx ?m)"
  have h2: "hdr 4 (set_next 4 l nx ?m) a m 0 nx l" and h3: "hdr 4 ?m2 a m 0 nx l"
    using hdr_keep [OF l(3) r(2,4)] hdr_keep [OF l(2) r(2,4)] hm by simp_all
  let ?m3 = "wr32 (a + 12) 0 (wr32 (a + 16) 0 ?m2)"
  define s' where "s' = s\<lparr>ram := ?m3, used_list := (if l = 0 then nx else used_list s)\<rparr>"
  have run: "bindE (st8 (a + 8) 0 s) (take_unused a) = Inr s'"
    using take_unused_run [of "s\<lparr>ram := ?m\<rparr>" a m 0 nx l] np hm h2 by (simp add: run_simps s'_def)
  have h4: "hdr 4 ?m3 a m 0 0 0"
    using hdr_write(3) [OF hdr_write(4) [OF h3, of 0], of 0] by (simp add: add.assoc)
  have a3: "agree (hrange 4 a) ?m2 ?m3" by (rule agree_trans [OF w(5) w(4)])
  have "l = 0 \<longleftrightarrow> us = []" by (rule dlu_end_nil [OF xm oks(1)])
  then have "dlu 1 4 ?m2 0 (used_list s') (us @ vs) 0 (if vs = [] then l else t)"
    using l(1) by (simp add: s'_def)
  moreover have "heads 4 (us @ vs) \<inter> hrange 4 a = {}" using rd by auto
  ultimately have "dlu 1 4 ?m3 0 (used_list s') (us @ vs) 0 (if vs = [] then l else t)"
    using dlu_keep [OF a3 _ r(1)] by blast
  then have "used_rel s' (us @ vs)" using r(1) by (auto simp: used_rel_def s'_def)
  moreover have "agree (heads 4 (us @ (a, m) # vs)) (ram s) ?m3"
    by (intro agree_trans [OF agree_mono [OF w(3)] agree_trans [OF agree_mono [OF l(2)] agree_mono [OF a3]]]) auto
  ultimately show ?thesis using run np h4 by (intro exI [of _ s']) (simp add: s'_def)
qed

lemma insert_walk_run:
  "\<not> paging s \<Longrightarrow> dll 4 (ram s) pv p bs 0 l \<Longrightarrow> \<forall>b \<in> set bs. fst b \<noteq> 0 \<Longrightarrow> length bs < fuel \<Longrightarrow>
   insert_walk fuel pv p a s = Inr
     (case rev (takeWhile (\<lambda>c. fst c < a) bs) of [] \<Rightarrow> pv | b # _ \<Rightarrow> fst b,
      case dropWhile (\<lambda>c. fst c < a) bs of [] \<Rightarrow> 0 | b # _ \<Rightarrow> fst b)"
proof (induction bs arbitrary: pv p fuel)
  case Nil
  then show ?case by (cases fuel) auto
next
  case (Cons b bs)
  obtain f where f: "fuel = Suc f" using Cons.prems(4) by (cases fuel) auto
  obtain c n where b: "b = (c, n)" by force
  have p: "p = c" "c \<noteq> 0" and d: "dll 4 (ram s) c (rd32 (ram s) (c + 12)) bs 0 l"
    using Cons.prems(2,3) by (auto simp: b add.assoc)
  show ?case
  proof (cases "c < a")
    case True
    have "insert_walk fuel pv p a s = insert_walk f c (rd32 (ram s) (c + 12)) a s"
      using True p Cons.prems(1) by (simp add: f run_simps)
    then show ?thesis
      using Cons.IH [OF Cons.prems(1) d, of f] Cons.prems(3,4) True
      by (simp add: f b split: list.splits)
  next
    case False
    then show ?thesis using p by (simp add: f b)
  qed
qed

lemma wr32_commute:
  assumes "\<forall>i \<in> {0, 1, 2, 3}. \<forall>j \<in> {0, 1, 2, 3}. x + i \<noteq> y + j"
  shows "wr32 x v (wr32 y w m) = wr32 y w (wr32 x v m)"
proof -
  have wr: "wr32 x v m z = (if z = x + 0 then ucast v else if z = x + 1 then ucast (drop_bit 8 v)
      else if z = x + 2 then ucast (drop_bit 16 v) else if z = x + 3 then ucast (drop_bit 24 v) else m z)"
    for x v z and m :: memory
    by (simp add: wr32_def)
  show ?thesis
  proof
    fix z
    show "wr32 x v (wr32 y w m) z = wr32 y w (wr32 x v m) z"
    proof (cases "\<exists>i \<in> {0, 1, 2, 3}. z = x + i")
      case True
      then obtain i where i: "i \<in> {0, 1, 2, 3}" "z = x + i" by blast
      have "z \<noteq> y + j" if "j \<in> {0, 1, 2, 3}" for j unfolding i(2) using assms that i(1) by blast
      from this [of 0] this [of 1] this [of 2] this [of 3] show ?thesis by (simp only: wr) simp
    next
      case False
      then have "z \<noteq> x + 0" "z \<noteq> x + 1" "z \<noteq> x + 2" "z \<noteq> x + 3" by blast+
      then show ?thesis by (simp only: wr if_False)
    qed
  qed
qed

text \<open>The two links to a block that is put between two others are at different places.\<close>

lemma links_commute:
  assumes x: "dll 4 m 0 q xs r t" and y: "dll 4 m t r ys 0 l" and ok: "blocks_ok 4 (xs @ ys)" and rt: "r \<noteq> 0" "t \<noteq> 0"
  shows "wr32 (t + 12) a (wr32 (r + 16) a n) = wr32 (r + 16) a (wr32 (t + 12) a n)"
proof (rule wr32_commute, intro ballI notI)
  fix i j :: u32 assume ij: "i \<in> {0, 1, 2, 3}" "j \<in> {0, 1, 2, 3}" and eq: "t + 12 + i = r + 16 + j"
  obtain b where b: "b \<in> set xs" "t = fst b" using dlu_ends(1) [OF x] rt by blast
  obtain c where c: "c \<in> set ys" "r = fst c" using dlu_start(1) [OF y] rt by blast
  have "before 4 b c" using ok b(1) c(1) by (auto simp: blocks_ok_append)
  moreover have "unat (fst c) + 20 \<le> 2 ^ 32" using ok_bound [OF _ c(1), of 4] ok by (simp add: blocks_ok_append)
  ultimately have bc: "block_end 4 b \<le> unat r" "unat r + 20 \<le> 2 ^ 32"
    unfolding c(2) by (simp_all add: before_def)
  have small: "unat i < 4" "unat j < 4" using ij by auto
  have "unat (t + 12 + i) = unat t + (12 + unat i)" "unat (r + 16 + j) = unat r + (16 + unat j)"
    using bc b(2) small by (auto simp: unat_word_ariths block_end_def)
  then have "unat t + (12 + unat i) = unat r + (16 + unat j)" unfolding eq by linarith
  then show False using bc(1) b(2) small by (simp add: block_end_def)
qed

lemma insert_step:
  assumes rel: "free_rel s bs" and h: "hdr 4 (ram s) a m 0 0 0" and ok: "blocks_ok 4 (insert_block (a, m) bs)"
    and fuel: "length bs < fuel"
  shows "\<exists>s'. insert_free_block fuel a s = Inr s' \<and> free_rel s' (insert_block (a, m) bs) \<and>
    agree (bytes 4 (insert_block (a, m) bs)) (ram s) (ram s') \<and> used_list s' = used_list s"
proof -
  let ?P = "\<lambda>c :: u32 \<times> u32. fst c < a"
  define xs where "xs = takeWhile ?P bs"
  define ys where "ys = dropWhile ?P bs"
  have bs: "bs = xs @ ys" "insert_block (a, m) bs = xs @ (a, m) # ys"
    by (simp_all add: xs_def ys_def insert_block_split)
  obtain l where np: "\<not> paging s" and d: "dll 4 (ram s) 0 (ofree_list s) bs 0 l" and okb: "blocks_ok 4 bs"
    using rel by (auto simp: free_rel_def)
  obtain r t where x: "dll 4 (ram s) 0 (ofree_list s) xs r t" and y: "dll 4 (ram s) t r ys 0 l"
    using d by (auto simp: bs(1) dll_append)
  have ok': "blocks_ok 4 (xs @ (a, m) # ys)" using ok by (simp add: bs(2))
  have oks: "blocks_ok 4 xs" "blocks_ok 4 ys" "a \<noteq> 0" "block_end 4 (a, m) \<le> 2 ^ 32"
    using ok' by (auto simp: blocks_ok_append blocks_ok_Cons)
  have ba: "unat a + 20 \<le> 2 ^ 32" using oks(4) by (simp add: block_end_def)
  have tl: "t = (case rev xs of [] \<Rightarrow> 0 | b # _ \<Rightarrow> fst b)"
    using dlu_last [OF x] by (cases xs rule: rev_cases) auto
  have rl: "r = (case ys of [] \<Rightarrow> 0 | b # _ \<Rightarrow> fst b)"
    using dlu_first [OF y] by (cases ys) auto
  have "\<forall>b \<in> set bs. fst b \<noteq> 0" using okb by (simp add: blocks_ok_def)
  from insert_walk_run [OF np d this fuel] have walk: "insert_walk fuel 0 (ofree_list s) a s = Inr (t, r)"
    unfolding tl rl xs_def ys_def .
  note w = header_writes [OF ba]
  let ?m3 = "wr32 (a + 12) r (wr32 (a + 16) t (ram s))"
  have a3: "agree (hrange 4 a) (ram s) ?m3" by (rule agree_trans [OF w(5) w(4)])
  have h3: "hdr 4 ?m3 a m 0 r t"
    using hdr_write(3) [OF hdr_write(4) [OF h, of t], of r] by (simp add: add.assoc)
  note ins = insert_segments [OF x y ok' a3 h3]
  have neq: "t = 0 \<longleftrightarrow> xs = []" by (rule dll_end_nil [OF x oks(1)])
  have comm: "wr32 (t + 12) a (wr32 (r + 16) a n) = wr32 (r + 16) a (wr32 (t + 12) a n)" if "r \<noteq> 0" "t \<noteq> 0" for n
    by (rule links_commute [OF x y _ that]) (use okb bs(1) in simp)
  define s' where "s' = s\<lparr>ram := set_prev 4 r a (set_next 4 t a ?m3),
    ofree_list := (if xs = [] then a else ofree_list s)\<rparr>"
  have run: "insert_free_block fuel a s = Inr s'"
    using np walk neq comm unfolding s'_def set_4
    by (cases "r = 0"; cases "t = 0"; simp add: insert_free_block_def run_simps; cases s; simp)
  have "free_rel s' (insert_block (a, m) bs)"
    using ins(1) np ok' by (simp add: free_rel_def s'_def bs(2))
  moreover have "agree (bytes 4 (insert_block (a, m) bs)) (ram s) (ram s')"
    unfolding s'_def bs(2) using ins(2) heads_bytes [of 4 xs] heads_bytes [of 4 ys] hrange_extent [of 4 "(a, m)"]
    by (auto elim!: agree_mono)
  ultimately show ?thesis using run by (auto simp: s'_def)
qed

text \<open>The merge with the next block, and the merge with the one before, on the relation.\<close>

lemma merge_next_run:
  assumes rel: "free_rel s (xs @ (a, n) # ys)"
  shows "\<exists>s' n' ys'. merge_next a s = Inr s' \<and> free_rel s' (xs @ (a, n') # ys') \<and>
    bytes 4 (xs @ (a, n') # ys') = bytes 4 (xs @ (a, n) # ys) \<and> length ys' \<le> length ys \<and>
    agree (bytes 4 (xs @ (a, n) # ys)) (ram s) (ram s') \<and> used_list s' = used_list s \<and>
    ((\<forall>b \<in> set ys. block_end 4 b \<notin> bytes 4 (xs @ (a, n) # ys)) \<longrightarrow>
      (\<forall>b \<in> set ((a, n') # ys'). block_end 4 b \<notin> bytes 4 (xs @ (a, n) # ys)))"
proof -
  obtain t l nx where np: "\<not> paging s" and ok: "blocks_ok 4 (xs @ (a, n) # ys)"
    and d: "dll 4 (ram s) 0 (ofree_list s) (xs @ (a, n) # ys) 0 t" and h: "hdr 4 (ram s) a n 0 nx l"
    and y: "dll 4 (ram s) a nx ys 0 t"
    using rel by (auto simp: free_rel_def dll_append)
  note f = h [unfolded hdr_4]
  show ?thesis
  proof (cases "nx \<noteq> 0 \<and> a + 20 + n = nx")
    case False
    then have "merge_next a s = Inr s"
      using np f by (auto simp: merge_next_def run_simps BLOCK_SIZE_def)
    moreover have "block_end 4 (a, n) \<notin> bytes 4 (xs @ (a, n) # ys)"
    proof (rule ends_free [OF ok])
      fix b j zs assume "ys = (b, j) # zs"
      moreover from this have "b = nx" "b \<noteq> 0" using y ok by (auto simp: blocks_ok_append blocks_ok_Cons)
      ultimately show "b \<noteq> a + (16 + 4) + n" using False by auto
    qed
    ultimately show ?thesis using rel by (intro exI [of _ s] exI [of _ n] exI [of _ ys]) simp
  next
    case True
    then obtain j zs where ys: "ys = (nx, j) # zs" using y by (cases ys) auto
    have adj: "nx = a + (16 + 4) + n" "hlen 4 < 2 ^ 32" using True by simp_all
    note g = absorb_segments [OF d [unfolded ys] ok [unfolded ys] adj] absorb_ok [OF ok [unfolded ys] adj]
    define nnx n' where "nnx = rd32 (ram s) (nx + 12)" and "n' = n + (20 + j)"
    define m1 where "m1 = wr32 (a + 4) n' (ram s)"
    define m3 where "m3 = set_prev 4 nnx a (wr32 (a + 12) nnx m1)"
    have ab: "\<exists>l'. dll 4 m3 0 (ofree_list s) (xs @ (a, n') # zs) 0 l'" "agree (heads 4 ((a, n) # zs)) (ram s) m3"
      "rd32 m1 (nx + 12) = nnx" "blocks_ok 4 (xs @ (a, n') # zs)"
      "extent 4 (a, n') = extent 4 (a, n) \<union> extent 4 (nx, j)" "rd32 (ram s) (nx + 4) = j"
      using g y by (simp_all add: m1_def m3_def nnx_def n'_def add.assoc ys hdr_4)
    have e: "wr32 (a + 4) (n + (20 + j)) (ram s) = m1" "(nx = 0) = False" "(a + 20 + n = nx) = True"
      using True by (simp_all add: m1_def n'_def)
    have "merge_next a s = Inr (s\<lparr>ram := m3\<rparr>)"
      unfolding m3_def set_4
      by (cases "nnx = 0"; simp add: merge_next_def run_simps BLOCK_SIZE_def np e f ab(3,6) del: Inr_inject)
    moreover have "agree (bytes 4 (xs @ (a, n) # ys)) (ram s) m3"
      using heads_bytes [of 4 zs] hrange_extent [of 4 "(a, n)"] by (intro agree_mono [OF ab(2)]) (auto simp: ys)
    moreover have "block_end 4 (a, n') = block_end 4 (nx, j)"
      using absorb_end [OF ok [unfolded ys] adj] by (simp add: n'_def)
    ultimately show ?thesis
      using ab(1,4,5) np by (intro exI [of _ "s\<lparr>ram := m3\<rparr>"] exI [of _ n'] exI [of _ zs])
        (auto simp: free_rel_def ys)
  qed
qed

text \<open>The block before absorbs the one at \<open>a\<close>.\<close>

lemma absorb_prev_run:
  assumes rel: "free_rel s (us @ (pv, j) # (a, n) # ys)" and adj: "a = pv + (16 + 4) + j"
  shows "\<exists>s'. merge_prev a s = Inr s' \<and> free_rel s' (us @ (pv, j + (20 + n)) # ys) \<and>
    agree (heads 4 ((pv, j) # ys)) (ram s) (ram s') \<and> used_list s' = used_list s \<and> (\<exists>nx pv. hdr 4 (ram s') a n 0 nx pv)"
proof -
  obtain t nx where np: "\<not> paging s" and okk: "blocks_ok 4 (us @ (pv, j) # (a, n) # ys)"
    and dd: "dll 4 (ram s) 0 (ofree_list s) (us @ (pv, j) # (a, n) # ys) 0 t" and h: "hdr 4 (ram s) a n 0 nx pv"
    using rel by (auto simp: free_rel_def dll_append)
  have j: "rd32 (ram s) (pv + 4) = j" and p0: "pv \<noteq> 0"
    using dd okk by (auto simp: dll_append hdr_4 blocks_ok_append blocks_ok_Cons)
  note f = h [unfolded hdr_4]
  have hl: "hlen 4 < 2 ^ 32" by simp
  note g = absorb_segments [OF dd okk adj hl] absorb_ok [OF okk adj hl]
  have bpv: "unat pv + hlen 4 \<le> 2 ^ 32" and ba: "unat a + hlen 4 \<le> 2 ^ 32"
    and dis: "hrange 4 a \<inter> hrange 4 pv = {}"
    using okk before_disjoint(2) [of 4 "(pv, j)" "(a, n)"]
    by (auto simp: blocks_ok_append blocks_ok_Cons block_end_def)
  define m1 where "m1 = wr32 (pv + 4) (j + (20 + n)) (ram s)"
  define m2 where "m2 = wr32 (pv + 12) nx m1"
  define m3 where "m3 = set_prev 4 nx pv m2"
  have 1: "agree (hrange 4 pv) (ram s) m1" and 2: "agree (hrange 4 pv) m1 m2"
    unfolding m1_def m2_def using header_writes bpv by simp_all
  have h1: "hdr 4 m1 a n 0 nx pv" using hdr_agree [OF 1 dis ba] h by blast
  have h2: "hdr 4 m2 a n 0 nx pv" using hdr_agree [OF 2 dis ba] h1 by blast
  note f1 = h1 [unfolded hdr_4] and f2 = h2 [unfolded hdr_4]
  have nnx: "rd32 (ram s) (a + 12) = nx" using f by simp
  have ab: "\<exists>l'. dll 4 m3 0 (ofree_list s) (us @ (pv, j + (20 + n)) # ys) 0 l'" "agree (heads 4 ((pv, j) # ys)) (ram s) m3"
    "blocks_ok 4 (us @ (pv, j + (20 + n)) # ys)"
    using g nnx by (simp_all add: m1_def m2_def m3_def add.assoc)
  have q: "wr32 (pv + 4) (j + (20 + n)) (ram s) = m1" "wr32 (pv + 12) nx m1 = m2"
    "(pv = 0) = False" "(pv + 20 + j = a) = True"
    using p0 adj by (simp_all add: m1_def m2_def)
  have "merge_prev a s = Inr (s\<lparr>ram := m3\<rparr>)"
    unfolding m3_def set_4 using q(2) f2
    by (cases "nx = 0"; simp add: merge_prev_def run_simps BLOCK_SIZE_def np q f f1 f2 j del: Inr_inject)
  moreover have "hrange 4 a \<inter> heads 4 ((pv, j) # ys) = {}"
    using extent_apart [of 4 "us @ [(pv, j)]" "(a, n)" ys] okk dis hrange_extent [of 4 "(a, n)"] heads_bytes [of 4 ys] by auto
  then have "hdr 4 m3 a n 0 nx pv" using hdr_agree [OF ab(2) _ ba] h by blast
  ultimately show ?thesis using ab np by (intro exI [of _ "s\<lparr>ram := m3\<rparr>"]) (auto simp: free_rel_def)
qed

lemma absorb_coalesced:
  assumes ok: "blocks_ok 4 (us @ (pv, j) # (a, n) # ys)" and adj: "a = pv + (16 + 4) + j"
    and e: "\<forall>b \<in> set ((a, n) # ys). block_end 4 b \<notin> S" "\<forall>b \<in> set us. block_end 4 b = unat a \<or> block_end 4 b \<notin> S"
    and S: "bytes 4 (us @ (pv, j + (20 + n)) # ys) = S"
  shows "coalesced 4 (us @ (pv, j + (20 + n)) # ys)"
proof -
  have "block_end 4 b \<noteq> unat a" if "b \<in> set us" for b
  proof -
    have "before 4 b (pv, j)" "before 4 (pv, j) (a, n)" using ok that by (auto simp: blocks_ok_append blocks_ok_Cons)
    then show ?thesis by (auto simp: before_def block_end_def)
  qed
  moreover have "block_end 4 (pv, j + (20 + n)) = block_end 4 (a, n)" using absorb_end [OF ok adj] by simp
  ultimately show ?thesis using e unfolding coalesced_def S by auto
qed

lemma merge_prev_run:
  assumes rel: "free_rel s (xs @ (a, n) # ys)"
  shows "\<exists>s' bs'. merge_prev a s = Inr s' \<and> free_rel s' bs' \<and> bytes 4 bs' = bytes 4 (xs @ (a, n) # ys) \<and>
    length bs' \<le> length (xs @ (a, n) # ys) \<and>
    agree (bytes 4 (xs @ (a, n) # ys)) (ram s) (ram s') \<and> used_list s' = used_list s \<and>
    (\<exists>nx pv. hdr 4 (ram s') a n 0 nx pv) \<and>
    ((\<forall>b \<in> set ((a, n) # ys). block_end 4 b \<notin> bytes 4 (xs @ (a, n) # ys)) \<and>
      (\<forall>b \<in> set xs. block_end 4 b = unat a \<or> block_end 4 b \<notin> bytes 4 (xs @ (a, n) # ys)) \<longrightarrow> coalesced 4 bs')"
proof -
  obtain t pv nx where np: "\<not> paging s" and ok: "blocks_ok 4 (xs @ (a, n) # ys)"
    and d: "dll 4 (ram s) 0 (ofree_list s) (xs @ (a, n) # ys) 0 t" and h: "hdr 4 (ram s) a n 0 nx pv"
    and x: "dll 4 (ram s) 0 (ofree_list s) xs a pv"
    using rel by (auto simp: free_rel_def dll_append)
  note f = h [unfolded hdr_4]
  show ?thesis
  proof (cases "pv \<noteq> 0 \<and> pv + 20 + rd32 (ram s) (pv + 4) = a")
    case False
    then have "merge_prev a s = Inr s"
      using np f by (auto simp: merge_prev_def run_simps BLOCK_SIZE_def)
    moreover have "block_end 4 b \<noteq> unat a" if "b \<in> set xs" for b
    proof (rule touches_last [OF ok _ that])
      fix us p j assume xs: "xs = us @ [(p, j)]"
      then have "p = pv" "rd32 (ram s) (pv + 4) = j" "p \<noteq> 0"
        using x ok by (auto simp: dll_append hdr_4 blocks_ok_append blocks_ok_Cons)
      then show "a \<noteq> p + (16 + 4) + j" using False by auto
    qed
    ultimately show ?thesis using rel h unfolding coalesced_def
      by (intro exI [of _ s] exI [of _ "xs @ (a, n) # ys"]) auto
  next
    case True
    have "xs \<noteq> []" using True x by auto
    then obtain us b where xs: "xs = us @ [b]" by (metis rev_exhaust)
    obtain p j where b: "b = (p, j)" by force
    have p: "p = pv" "rd32 (ram s) (pv + 4) = j"
      using x by (auto simp: xs b dll_append hdr_4)
    have rel': "free_rel s (us @ (pv, j) # (a, n) # ys)" and okk: "blocks_ok 4 (us @ (pv, j) # (a, n) # ys)"
      using rel ok by (simp_all add: xs b p)
    have adj: "a = pv + (16 + 4) + j" "hlen 4 < 2 ^ 32" using True p by simp_all
    obtain s' where s': "merge_prev a s = Inr s'" "free_rel s' (us @ (pv, j + (20 + n)) # ys)"
        "agree (heads 4 ((pv, j) # ys)) (ram s) (ram s')" "used_list s' = used_list s" "\<exists>nx pv. hdr 4 (ram s') a n 0 nx pv"
      using absorb_prev_run [OF rel' adj(1)] by blast
    have B: "bytes 4 (us @ (pv, j + (20 + n)) # ys) = bytes 4 (xs @ (a, n) # ys)"
      using absorb_ok [OF okk adj] by (auto simp: xs b p)
    have "agree (bytes 4 (xs @ (a, n) # ys)) (ram s) (ram s')"
      using heads_bytes [of 4 ys] hrange_extent [of 4 "(pv, j)"] by (intro agree_mono [OF s'(3)]) (auto simp: xs b p)
    moreover have "coalesced 4 (us @ (pv, j + (20 + n)) # ys)"
      if "\<forall>b \<in> set ((a, n) # ys). block_end 4 b \<notin> bytes 4 (xs @ (a, n) # ys)"
        "\<forall>b \<in> set xs. block_end 4 b = unat a \<or> block_end 4 b \<notin> bytes 4 (xs @ (a, n) # ys)"
      using absorb_coalesced [OF okk adj(1) that(1) _ B] that(2) by (simp add: xs)
    ultimately show ?thesis
      using s' B by (intro exI [of _ s'] exI [of _ "us @ (pv, j + (20 + n)) # ys"]) (auto simp: xs)
  qed
qed

lemma apart_distinct: "blocks_apart 4 us \<Longrightarrow> distinct us"
proof (induction us)
  case (Cons b us)
  have "b \<notin> set us"
  proof
    assume "b \<in> set us"
    then have "extent 4 b \<inter> extent 4 b = {}" using Cons.prems by (auto simp: blocks_apart_Cons apart_def)
    then show False by (simp add: extent_def)
  qed
  with Cons show ?case by (simp add: blocks_apart_Cons)
qed simp

text \<open>\<open>KFREE\<close> of a block in use.\<close>

lemma free_agree:
  assumes "free_rel s bs" "agree S (ram s) (ram s')" "bytes 4 bs \<inter> S = {}" "\<not> paging s'" "ofree_list s' = ofree_list s"
  shows "free_rel s' bs"
proof -
  have ok: "blocks_ok 4 bs" using assms(1) by (simp add: free_rel_def)
  have "heads 4 bs \<inter> S = {}" using heads_bytes [of 4 bs] assms(3) by blast
  from dll_keep [OF assms(2) this ok] assms(1,4,5) show ?thesis by (simp add: free_rel_def)
qed

text \<open>Both merges together, after an insertion into a list without touching blocks.\<close>

lemma insert_ends:
  assumes ok: "blocks_ok k (xs @ (a, m) # ys)" and c: "coalesced k (xs @ ys)"
  shows "\<forall>b \<in> set ys. block_end k b \<notin> bytes k (xs @ (a, m) # ys)"
    "\<forall>b \<in> set xs. block_end k b = unat a \<or> block_end k b \<notin> bytes k (xs @ (a, m) # ys)"
proof -
  have "block_end k b \<notin> extent k (a, m)" if "b \<in> set ys" for b
  proof -
    have "before k (a, m) b" using ok that by (auto simp: blocks_ok_append blocks_ok_Cons)
    then show ?thesis by (auto simp: before_def extent_ends block_end_def)
  qed
  moreover have "block_end k b = unat a \<or> block_end k b \<notin> extent k (a, m)" if "b \<in> set xs" for b
  proof -
    have "before k b (a, m)" using ok that by (auto simp: blocks_ok_append)
    then show ?thesis by (auto simp: before_def extent_ends)
  qed
  ultimately show "\<forall>b \<in> set ys. block_end k b \<notin> bytes k (xs @ (a, m) # ys)"
    "\<forall>b \<in> set xs. block_end k b = unat a \<or> block_end k b \<notin> bytes k (xs @ (a, m) # ys)"
    using c by (auto simp: coalesced_def)
qed

lemma merge_both_run:
  assumes rel: "free_rel s (insert_block (a, m) bs)"
  shows "\<exists>s' bs'. bindE (merge_next a s) (merge_prev a) = Inr s' \<and> free_rel s' bs' \<and>
    bytes 4 bs' = bytes 4 (insert_block (a, m) bs) \<and> length bs' \<le> Suc (length bs) \<and>
    agree (bytes 4 (insert_block (a, m) bs)) (ram s) (ram s') \<and> used_list s' = used_list s \<and>
    (\<exists>n nx pv. hdr 4 (ram s') a n 0 nx pv) \<and>
    (coalesced 4 bs \<longrightarrow> bs' = merge_adjacent 4 (insert_block (a, m) bs))"
proof -
  let ?I = "insert_block (a, m) bs"
  obtain xs ys where I: "?I = xs @ (a, m) # ys" and bs: "bs = xs @ ys"
    by (metis insert_block_split fst_conv takeWhile_dropWhile_id)
  have ok: "blocks_ok 4 ?I" using rel by (simp add: free_rel_def)
  obtain s3 n' ys' where s3: "merge_next a s = Inr s3" "free_rel s3 (xs @ (a, n') # ys')"
      "bytes 4 (xs @ (a, n') # ys') = bytes 4 ?I" "length ys' \<le> length ys"
      "agree (bytes 4 ?I) (ram s) (ram s3)" "used_list s3 = used_list s"
      "(\<forall>b \<in> set ys. block_end 4 b \<notin> bytes 4 ?I) \<longrightarrow> (\<forall>b \<in> set ((a, n') # ys'). block_end 4 b \<notin> bytes 4 ?I)"
    using merge_next_run [OF rel [unfolded I]] unfolding I by blast
  obtain s4 bs' where s4: "merge_prev a s3 = Inr s4" "free_rel s4 bs'" "bytes 4 bs' = bytes 4 ?I"
      "length bs' \<le> length (xs @ (a, n') # ys')" "agree (bytes 4 ?I) (ram s3) (ram s4)" "used_list s4 = used_list s3"
      "\<exists>nx pv. hdr 4 (ram s4) a n' 0 nx pv"
      "(\<forall>b \<in> set ((a, n') # ys'). block_end 4 b \<notin> bytes 4 ?I) \<and>
        (\<forall>b \<in> set xs. block_end 4 b = unat a \<or> block_end 4 b \<notin> bytes 4 ?I) \<longrightarrow> coalesced 4 bs'"
    using merge_prev_run [OF s3(2)] unfolding s3(3) by blast
  have merged: "bs' = merge_adjacent 4 ?I" if "coalesced 4 bs"
  proof -
    note ends = insert_ends [OF ok [unfolded I] that [unfolded bs], folded I]
    have "coalesced 4 bs'" using s3(7) s4(8) ends by blast
    moreover have "blocks_ok 4 bs'" using s4(2) by (simp add: free_rel_def)
    moreover have "blocks_ok 4 (merge_adjacent 4 ?I)" "bytes 4 (merge_adjacent 4 ?I) = bytes 4 ?I"
      using merge_ok [of 4 "[]" ?I] ok by simp_all
    ultimately show ?thesis
      using coalesced_unique [of 4 bs' "merge_adjacent 4 ?I"] merge_coalesced [OF ok] s4(3) by simp
  qed
  have "length bs' \<le> Suc (length bs)" using s3(4) s4(4) by (simp add: bs)
  moreover have "agree (bytes 4 ?I) (ram s) (ram s4)" by (rule agree_trans [OF s3(5) s4(5)])
  ultimately show ?thesis using s3(1,6) s4(1-3,6,7) merged by (intro exI [of _ s4] exI [of _ bs']) auto
qed

lemma KFREE_held:
  assumes rel: "old_rel s bs" and held: "old_held s (a, m)" and ok: "blocks_ok 4 (insert_block (a, m) bs)"
    and fuel: "Suc (length bs) < fuel" and nz: "a + 20 \<noteq> 0"
  shows "\<exists>s' bs'. KFREE fuel (a + 20) s = Inr s' \<and> old_rel s' bs' \<and>
    bytes 4 bs' = bytes 4 bs \<union> extent 4 (a, m) \<and> length bs' \<le> Suc (length bs) \<and>
    (\<forall>c. old_held s c \<and> extent 4 c \<inter> (bytes 4 bs \<union> extent 4 (a, m)) = {} \<longrightarrow> old_held s' c) \<and>
    (\<exists>n nx pv. hdr 4 (ram s') a n 0 nx pv) \<and>
    (coalesced 4 bs \<longrightarrow> bs' = merge_adjacent 4 (insert_block (a, m) bs)) \<and>
    (\<forall>us vs. used_rel s (us @ (a, m) # vs) \<longrightarrow> used_rel s' (us @ vs) \<and>
      agree (heads 4 us \<union> heads 4 vs \<union> extent 4 (a, m) \<union> bytes 4 bs) (ram s) (ram s'))"
proof -
  let ?I = "insert_block (a, m) bs"
  obtain us where f: "free_rel s bs" and u: "used_rel s us" and apart: "bytes 4 us \<inter> bytes 4 bs = {}"
    using rel by (auto simp: old_rel_free)
  have np: "\<not> paging s" using f by (simp add: free_rel_def)
  have "(a, m) \<in> set us" using held held_iff [OF u] by simp
  then obtain us1 vs where us: "us = us1 @ (a, m) # vs" by (metis split_list)
  note u' = u [unfolded us]
  have r: "extent 4 (a, m) \<inter> bytes 4 (us1 @ vs) = {}"
    using apart_remove(2) u' unfolding used_rel_def by blast
  obtain nx pv where h: "hdr 4 (ram s) a m 1 nx pv" using u' by (auto simp: used_rel_def dlu_append)
  obtain s1 where s1: "bindE (st8 (a + 8) 0 s) (take_unused a) = Inr s1" "\<not> paging s1" "used_rel s1 (us1 @ vs)"
      "hdr 4 (ram s1) a m 0 0 0" "agree (heads 4 us) (ram s) (ram s1)" "ofree_list s1 = ofree_list s"
    using unuse_step [OF np u'] unfolding us by blast
  have f1: "free_rel s1 bs" using free_agree [OF f s1(5) _ s1(2,6)] apart heads_bytes [of 4 us] by blast
  obtain s2 where s2: "insert_free_block fuel a s1 = Inr s2" "free_rel s2 ?I"
      "agree (bytes 4 ?I) (ram s1) (ram s2)" "used_list s2 = used_list s1"
    using insert_step [OF f1 s1(4) ok Suc_lessD [OF fuel]] by blast
  obtain s4 bs' where s4: "bindE (merge_next a s2) (merge_prev a) = Inr s4" "free_rel s4 bs'" "bytes 4 bs' = bytes 4 ?I"
      "length bs' \<le> Suc (length bs)" "agree (bytes 4 ?I) (ram s2) (ram s4)" "used_list s4 = used_list s2"
      "\<exists>n nx pv. hdr 4 (ram s4) a n 0 nx pv" "coalesced 4 bs \<longrightarrow> bs' = merge_adjacent 4 ?I"
    using merge_both_run [OF s2(2)] by blast
  have a14: "agree (bytes 4 ?I) (ram s1) (ram s4)"
    by (rule agree_trans [OF s2(3) s4(5)])
  note a14
  moreover have d: "bytes 4 (us1 @ vs) \<inter> bytes 4 ?I = {}"
    using apart r by (auto simp: insert_block_facts us)
  moreover have "used_list s4 = used_list s1" using s2(4) s4(6) by simp
  ultimately have u4: "used_rel s4 (us1 @ vs)" using used_keep [OF s1(3)] by blast
  have run: "KFREE fuel (a + 20) s = Inr s4"
  proof -
    have "KFREE fuel (a + 20) s = bindE (bindE (st8 (a + 8) 0 s) (take_unused a))
        (\<lambda>s. bindE (insert_free_block fuel a s) (\<lambda>s. bindE (merge_next a s) (merge_prev a)))"
      using h np nz by (simp add: KFREE_def BLOCK_SIZE_def BLOCK_MAGIC_def run_simps hdr_4 bindE_assoc)
    then show ?thesis by (simp add: s1(1) s2(1) s4(1))
  qed
  have "old_rel s4 bs'" unfolding old_rel_free s4(3) using s4(2) u4 d by blast
  moreover have "old_held s4 c" if "old_held s c" "extent 4 c \<inter> (bytes 4 bs \<union> extent 4 (a, m)) = {}" for c
  proof -
    have "unat a \<in> extent 4 (a, m)" by (simp add: extent_def block_end_def)
    then have "c \<noteq> (a, m)" using that(2) by blast
    then show ?thesis using that(1) held_iff [OF u] held_iff [OF u4] by (auto simp: us)
  qed
  moreover have "used_rel s4 (xs @ zs) \<and> agree (heads 4 xs \<union> heads 4 zs \<union> extent 4 (a, m) \<union> bytes 4 bs) (ram s) (ram s4)" if "used_rel s (xs @ (a, m) # zs)" for xs zs
  proof -
    have e: "us1 @ (a, m) # vs = xs @ (a, m) # zs" using used_unique [OF u' that] .
    have "distinct (us1 @ (a, m) # vs)" using u' apart_distinct unfolding used_rel_def by blast
    then have "(a, m) \<notin> set us1" "(a, m) \<notin> set vs" by simp_all
    then have "us1 = xs \<and> vs = zs" by (rule append_Cons_eq_iff [THEN iffD1, OF _ _ e])
    moreover have "agree (heads 4 us \<union> bytes 4 ?I) (ram s) (ram s4)"
      by (rule agree_trans [OF agree_mono [OF s1(5)] agree_mono [OF a14]]) auto
    then have "agree (heads 4 us1 \<union> heads 4 vs \<union> extent 4 (a, m) \<union> bytes 4 bs) (ram s) (ram s4)"
      by (rule agree_mono) (use hrange_extent [of 4 "(a, m)"] in \<open>auto simp: us insert_block_facts\<close>)
    ultimately show ?thesis using u4 by simp
  qed
  ultimately show ?thesis using run s4(3,4,7,8) by (intro exI [of _ s4] exI [of _ bs']) (auto simp: insert_block_facts)
qed

section \<open>The contract\<close>

interpretation old_heap: block_heap 4 old_rel old_held round16 old_rest can_cut KMALLOC KFREE
proof
  show "old_rel s bs \<Longrightarrow> blocks_ok 4 bs" for s :: "'a old_heap_scheme" and bs by (simp add: old_rel_def)
  show "can_cut sz bs \<Longrightarrow> find (\<lambda>b. sz \<le> snd b) bs = Some b \<Longrightarrow> old_rest sz (snd b) = Some r \<Longrightarrow>
      unat sz + hlen 4 \<le> unat (snd b) \<and> r = snd b - sz - (16 + 4)" for sz bs r and b :: "u32 \<times> u32"
    by (auto simp: can_cut_def old_rest_def split: if_splits)
  fix fuel req a m bs bs' and s :: "'a old_heap_scheme"
  assume rel: "old_rel s bs" and fuel: "Suc (length bs) < fuel"
  show "\<exists>s'. KMALLOC fuel req s = Inr (a + (16 + 4), s') \<and> old_rel s' bs' \<and> old_held s' (a, m) \<and>
      (\<forall>c. old_held s c \<and> extent 4 c \<inter> bytes 4 bs = {} \<longrightarrow> old_held s' c)"
    if "req \<noteq> 0" "can_cut (round16 req) bs"
      "take_fit 4 (old_rest (round16 req)) (round16 req) bs = Some ((a, m), bs')"
    using KMALLOC_fit [OF rel that(1) fuel that(2,3)] by fastforce
  show "\<exists>s' bs'. KFREE fuel (a + (16 + 4)) s = Inr s' \<and> old_rel s' bs' \<and>
      bytes 4 bs' = bytes 4 bs \<union> extent 4 (a, m) \<and> length bs' \<le> Suc (length bs) \<and>
      (\<forall>c. old_held s c \<and> extent 4 c \<inter> (bytes 4 bs \<union> extent 4 (a, m)) = {} \<longrightarrow> old_held s' c)"
    if "old_held s (a, m)" "blocks_ok 4 (insert_block (a, m) bs)" "a + (16 + 4) \<noteq> 0"
    using KFREE_held [OF rel that(1,2) fuel] that(3) by fastforce
qed

interpretation old_merging: merging_heap 4 old_rel old_held round16 old_rest can_cut KMALLOC KFREE
proof
  fix fuel a m bs and s :: "'a old_heap_scheme"
  assume "old_rel s bs" "old_held s (a, m)" "blocks_ok 4 (insert_block (a, m) bs)" "coalesced 4 bs"
    "Suc (length bs) < fuel" "a + (16 + 4) \<noteq> 0"
  then show "\<exists>s'. KFREE fuel (a + (16 + 4)) s = Inr s' \<and> old_rel s' (merge_adjacent 4 (insert_block (a, m) bs))"
    using KFREE_held [of s bs a m fuel] by fastforce
qed

section \<open>The heap after \<open>HEAP_INIT\<close>\<close>

lemma HEAP_INIT_run:
  assumes "\<not> paging s"
  shows "\<exists>s'. HEAP_INIT s = Inr s' \<and> old_rel s' [(0x200000, 0x1FFFEC)] \<and> ofree_list s' = 0x200000 \<and> used_list s' = 0"
proof -
  let ?m = "wr32 0x200010 0 (wr32 0x20000C 0 ((wr32 0x200004 0x1FFFEC (wr32 0x200000 BLOCK_MAGIC (ram s)))(0x200008 := 0)))"
  define s'' where "s'' = emit (Vga_Print (''[HEAP] Initialized with free list allocator'' @ [LF]))
    (s\<lparr>ram := ?m, ofree_list := 0x200000, used_list := 0\<rparr>)"
  have "HEAP_INIT s = Inr s''"
    using assms by (simp add: HEAP_INIT_def old_heap_consts run_simps s''_def)
  moreover have m: "?m = new_header 0x200000 0x1FFFEC 0 0 (ram s)" by (simp add: new_header_def)
  have h: "hdr 4 (ram s'') 0x200000 0x1FFFEC 0 0 0"
    using new_header_props(2) [of "0x200000"] by (simp add: s''_def m)
  then have "dll 4 (ram s'') 0 (ofree_list s'') [(0x200000, 0x1FFFEC)] 0 0x200000"
    using h [unfolded hdr_4] by (simp add: s''_def)
  moreover have "used_rel s'' []" by (simp add: used_rel_def s''_def blocks_apart_def)
  ultimately show ?thesis
    using assms by (intro exI [of _ s'']) (auto simp: old_rel_def s''_def blocks_ok_Cons block_end_def)
qed

section \<open>Properties\<close>

definition sample_old_heap :: "unit old_heap_scheme" where
  "sample_old_heap = \<lparr>ram = (\<lambda>_. 0), cr0 = 0, cr3 = 0, trace = [], ofree_list = 0, used_list = 0\<rparr>"

lemma sample_np: "\<not> paging sample_old_heap"
  by (simp add: sample_old_heap_def paging_def)

lemma round16_100: "round16 100 = 112"
  by (simp add: round16_def)

lemma sample_old_fit:
  "can_cut (round16 100) [(0x200000, 0x1FFFEC)]"
  "take_fit 4 (old_rest (round16 100)) (round16 100) [(0x200000, 0x1FFFEC)] =
     Some ((0x200000, 112), [(0x200084, 0x1FFF68)])"
  unfolding round16_100 by (simp_all add: can_cut_def old_rest_def)

text \<open>
  Allocating from the old heap and releasing the block again: \<open>KMALLOC\<close> hands out the payload of
  the first block that is large enough for the size rounded up to 16, \<open>KFREE\<close> of that pointer
  returns, both keep the two linked lists well formed, and when no two free blocks touch the free
  list is the one of before.  The old heap merges what is released, and this is a law of heaps that do.
\<close>

lemma old_malloc_free:
  assumes "old_rel s bs" "coalesced 4 bs" "Suc (length bs) < fuel" "q \<noteq> 0" "can_cut (round16 q) bs"
    and "take_fit 4 (old_rest (round16 q)) (round16 q) bs = Some ((a, m), bs1)" "a + 20 \<noteq> 0"
  shows "\<exists>s1 s2. KMALLOC fuel q s = Inr (a + 20, s1) \<and> KFREE fuel (a + 20) s1 = Inr s2 \<and> old_rel s2 bs"
  using old_merging.alloc_free_same [OF assms(1-6)] assms(7) by simp

text \<open>
  C35. Releasing a block in use twice: the first \<open>KFREE\<close> adds the bytes of the block to the free ones
  and keeps the lists well formed; the second one, right after it, changes nothing but the screen,
  whether or not the block was merged into a neighbour, and reports a double free.
\<close>

theorem old_double_free:
  assumes "old_rel s bs" "old_held s (a, m)" "blocks_ok 4 (insert_block (a, m) bs)"
    and "Suc (length bs) < fuel" "a + 20 \<noteq> 0"
  shows "\<exists>s1 bs1. KFREE fuel (a + 20) s = Inr s1 \<and> old_rel s1 bs1 \<and>
    bytes 4 bs1 = bytes 4 bs \<union> extent 4 (a, m) \<and>
    KFREE fuel (a + 20) s1 = Inr (emit (Vga_Print (''[HEAP] ERROR: Double free detected!'' @ [LF])) s1)"
proof -
  obtain s1 bs1 n nx pv where s1: "KFREE fuel (a + 20) s = Inr s1" "old_rel s1 bs1"
      "bytes 4 bs1 = bytes 4 bs \<union> extent 4 (a, m)" "hdr 4 (ram s1) a n 0 nx pv"
    using KFREE_held [OF assms] by blast
  have "KFREE fuel (a + 20) s1 = Inr (emit (Vga_Print (''[HEAP] ERROR: Double free detected!'' @ [LF])) s1)"
    using s1(2,4) assms(5) by (simp add: KFREE_def BLOCK_SIZE_def BLOCK_MAGIC_def run_simps hdr_4 old_rel_def)
  with s1 show ?thesis by blast
qed

theorem old_double_free_witness:
  "\<exists>s1 s2 s3 bs. HEAP_INIT sample_old_heap = Inr s1 \<and> KMALLOC 3 100 s1 = Inr (0x200014, s2) \<and>
     KFREE 3 0x200014 s2 = Inr s3 \<and> old_rel s3 bs \<and>
     KFREE 3 0x200014 s3 = Inr (emit (Vga_Print (''[HEAP] ERROR: Double free detected!'' @ [LF])) s3)"
proof -
  obtain s1 where s1: "HEAP_INIT sample_old_heap = Inr s1" "old_rel s1 [(0x200000, 0x1FFFEC)]"
    using HEAP_INIT_run [OF sample_np] by blast
  obtain s2 where s2: "KMALLOC 3 100 s1 = Inr (0x200014, s2)" "old_rel s2 [(0x200084, 0x1FFF68)]"
      "old_held s2 (0x200000, 112)"
    using KMALLOC_fit [OF s1(2) _ _ sample_old_fit, of 3] by auto
  have "blocks_ok 4 (insert_block (0x200000, 112) [(0x200084, 0x1FFF68)])"
    by (simp add: blocks_ok_Cons before_def block_end_def blocks_ok_def)
  from old_double_free [OF s2(2,3) this, of 3] s1(1) s2(1) show ?thesis by auto
qed

text \<open>With paging off every step of \<open>KMALLOC\<close> on the block it found returns, whatever the block holds.\<close>

lemma cut_block_returns: "\<not> paging s \<Longrightarrow> \<exists>s'. cut_block a sz s = Inr s' \<and> \<not> paging s'"
  by (simp add: cut_block_def run_simps Let_def)

lemma take_off_returns: "\<not> paging s \<Longrightarrow> \<exists>s'. take_off a s = Inr s' \<and> \<not> paging s'"
  by (simp add: take_off_def run_simps)

lemma put_used_returns: "\<not> paging s \<Longrightarrow> \<exists>s'. put_used a s = Inr s' \<and> \<not> paging s'"
  by (simp add: put_used_def run_simps)

lemma KMALLOC_returns:
  assumes "\<not> paging s" "req \<noteq> 0" "find_free_block fuel (ofree_list s) (round16 req) s = Inr a" "a \<noteq> 0"
  shows "\<exists>s'. KMALLOC fuel req s = Inr (a + 20, s')"
proof -
  obtain s1 where s1: "cut_block a (round16 req) s = Inr s1" "\<not> paging s1"
    using cut_block_returns [OF assms(1)] by blast
  obtain s2 where s2: "take_off a (s1\<lparr>ram := (ram s1)(a + 8 := 1)\<rparr>) = Inr s2" "\<not> paging s2"
    using take_off_returns [of "s1\<lparr>ram := (ram s1)(a + 8 := 1)\<rparr>" a] s1(2) by auto
  obtain s3 where s3: "put_used a s2 = Inr s3" using put_used_returns [OF s2(2)] by blast
  show ?thesis using assms s1 s2 s3 by (simp add: KMALLOC_def Let_def run_simps BLOCK_SIZE_def)
qed

lemma round16_last:
  assumes "0x1FFFD0 < req" "req \<le> 0x1FFFE0"
  shows "round16 req = 0x1FFFE0"
proof -
  define d where "d = req - 0x1FFFD1"
  have r: "req + 15 = 0x1FFFE0 + d" by (simp add: d_def)
  have "unat d = unat req - 0x1FFFD1" using assms unfolding d_def
    by (subst unat_sub) (auto simp: word_le_nat_alt word_less_nat_alt)
  then have "unat d < 16" using assms by (simp add: word_le_nat_alt word_less_nat_alt)
  then have "take_bit 4 (unat d) = unat d" by (simp add: take_bit_nat_eq_self)
  then have "take_bit 4 d = d" by (simp only: word_unat_eq_iff unsigned_take_bit_eq)
  then have low: "n < 4" if "bit d n" for n using that by (metis bit_take_bit_iff)
  have m: "(15 :: u32) = mask 4" by (simp add: mask_eq_exp_minus_1)
  have "(0x1FFFE0 :: u32) = 0x1FFFE0 AND NOT (mask 4)" by (simp add: mask_eq_exp_minus_1)
  then have high: "\<not> n < 4" if "bit (0x1FFFE0 :: u32) n" for n using that by (metis bit_and_iff bit_not_iff bit_mask_iff possible_bit_word)
  have "0x1FFFE0 AND d = 0" by (rule bit_word_eqI) (use low high in \<open>auto simp: bit_and_iff\<close>)
  then have "0x1FFFE0 + d = 0x1FFFE0 OR d" by (rule disjunctive_add_eq_or)
  moreover have "(0x1FFFE0 OR d) AND NOT (mask 4) = 0x1FFFE0"
    by (rule bit_word_eqI) (use low high in \<open>auto simp: bit_and_iff bit_or_iff bit_not_iff bit_mask_iff\<close>)
  ultimately show ?thesis unfolding round16_def r unfolding m by (simp only:)
qed

text \<open>A request for the last 16 bytes of the fresh heap: the cut leaves a block of size minus 8 past its end.\<close>

lemma cut_past_the_end:
  assumes np: "\<not> paging s1" and rel: "old_rel s1 [(0x200000, 0x1FFFEC)]"
    and s1: "ofree_list s1 = 0x200000" "used_list s1 = 0" and req: "0x1FFFD0 < req" "req \<le> 0x1FFFE0"
  obtains s2 where "KMALLOC (Suc (Suc fuel)) req s1 = Inr (0x200014, s2)" "\<not> paging s2"
    "ofree_list s2 = 0x3FFFF4" "hdr 4 (ram s2) 0x3FFFF4 0xFFFFFFF8 0 0 0"
proof -
  have h: "hdr 4 (ram s1) 0x200000 0x1FFFEC 0 0 0" using rel s1(1) by (auto simp: old_rel_def hdr_4)
  have sz: "round16 req = 0x1FFFE0" by (rule round16_last [OF req])
  have nz: "req \<noteq> 0" using req by auto
  have find: "find_free_block (Suc (Suc fuel)) 0x200000 0x1FFFE0 s1 = Inr 0x200000"
    using h np by (simp add: hdr_4 run_simps)
  define mh where "mh = new_header 0x3FFFF4 0xFFFFFFF8 0 0x200000 (ram s1)"
  note mh = new_header_props [of "0x3FFFF4", where m = "ram s1" and r = "0xFFFFFFF8" and nx = 0 and a = "0x200000", folded mh_def]
  have dis: "hrange 4 0x200000 \<inter> hrange 4 0x3FFFF4 = {}" by (auto simp: hrange_def)
  define m2 where "m2 = wr32 0x200004 0x1FFFE0 (wr32 0x20000C 0x3FFFF4 mh)"
  have m8: "(- 8 :: u32) = 0xFFFFFFF8" by simp
  have "hdr 4 m' 0x200000 0x1FFFEC 0 0 0" if "agree (hrange 4 (0x200000 + 20 + 0x1FFFE0)) (ram s1) m'" for m'
    using hdr_agree [of "hrange 4 0x3FFFF4" _ m' 4 "0x200000"] that dis h by simp
  from cut_block_run [where a = "0x200000" and sz = "0x1FFFE0", OF np this] have cut: "cut_block 0x200000 0x1FFFE0 s1 = Inr (s1\<lparr>ram := m2\<rparr>)"
    by (simp add: set_4 m2_def mh_def m8)
  define m3 where "m3 = m2(0x200008 := 1)"
  note w = header_writes [of "0x200000", simplified]
  have a2: "agree (hrange 4 0x200000) mh m3"
    unfolding m3_def m2_def by (rule agree_trans [OF w(4) agree_trans [OF w(2) w(3)]])
  have hb: "hdr 4 m3 0x3FFFF4 0xFFFFFFF8 0 0 0x200000"
    using hdr_agree [OF a2, of 4 "0x3FFFF4"] mh(2) dis by (simp add: Int_commute)
  have "hdr 4 mh 0x200000 0x1FFFEC 0 0 0" using hdr_agree [OF mh(1), of 4 "0x200000"] dis h by simp
  from hdr_write(2) [OF hdr_write(1) [OF hdr_write(3) [OF this, of "0x3FFFF4"], of "0x1FFFE0"], of 1]
  have ha: "hdr 4 m3 0x200000 0x1FFFE0 1 0x3FFFF4 0" by (simp add: m3_def m2_def)
  define m4 where "m4 = wr32 0x400004 0 m3"
  have off: "take_off 0x200000 (s1\<lparr>ram := m3\<rparr>) = Inr (s1\<lparr>ram := m4, ofree_list := 0x3FFFF4\<rparr>)"
    using take_off_run [of "s1\<lparr>ram := m3\<rparr>" "0x200000" "0x1FFFE0" 1 "0x3FFFF4" 0] np ha by (simp add: set_4 m4_def)
  define m5 where "m5 = wr32 0x20000C 0 (wr32 0x200010 0 m4)"
  define s2 where "s2 = s1\<lparr>ram := m5, ofree_list := 0x3FFFF4, used_list := 0x200000\<rparr>"
  have put: "put_used 0x200000 (s1\<lparr>ram := m4, ofree_list := 0x3FFFF4\<rparr>) = Inr s2"
    using put_used_run [of "s1\<lparr>ram := m4, ofree_list := 0x3FFFF4\<rparr>" "0x200000"] np s1(2)
    by (simp add: set_4 m5_def s2_def)
  have run: "KMALLOC (Suc (Suc fuel)) req s1 = Inr (0x200014, s2)"
    using nz sz find cut off put s1(1) np
    by (simp add: KMALLOC_def Let_def st8_direct BLOCK_SIZE_def m3_def [symmetric])
  have "hdr 4 m4 0x3FFFF4 0xFFFFFFF8 0 0 0"
    using hdr_write(4) [OF hb, of 0] by (simp add: m4_def)
  moreover have "agree (hrange 4 0x200000) m4 m5" unfolding m5_def by (rule agree_trans [OF w(5) w(4)])
  ultimately have h5: "hdr 4 (ram s2) 0x3FFFF4 0xFFFFFFF8 0 0 0"
    using hdr_agree [of "hrange 4 0x200000" m4 m5 4 "0x3FFFF4"] dis by (simp add: Int_commute s2_def)
  show thesis by (rule that [OF run _ _ h5]) (use np in \<open>simp_all add: s2_def\<close>)
qed

text \<open>
  C36. The size of the rest of a cut block wraps.  On the heap \<open>HEAP_INIT\<close> builds, a request of
  \<open>0x1FFFD1\<close> to \<open>0x1FFFE0\<close> bytes fits its only block with 12 bytes left, less than a header; the
  subtraction gives \<open>0xFFFFFFF8\<close>, so a free block of that size is made at \<open>0x3FFFF4\<close>, its header
  across the end of the heap, and any request after it, of any size, is answered with the address
  8 bytes past \<open>HEAP_END\<close>.
\<close>

theorem old_kmalloc_underflow:
  assumes "\<not> paging s" "0x1FFFD0 < req" "req \<le> 0x1FFFE0" "req' \<noteq> 0"
  shows "\<exists>s1 s2 s3. HEAP_INIT s = Inr s1 \<and> KMALLOC (Suc (Suc fuel)) req s1 = Inr (0x200014, s2) \<and>
    ofree_list s2 = 0x3FFFF4 \<and> rd32 (ram s2) (0x3FFFF4 + 4) = 0xFFFFFFF8 \<and>
    KMALLOC (Suc (Suc fuel)) req' s2 = Inr (HEAP_END + 8, s3)"
proof -
  obtain s1 where s1: "HEAP_INIT s = Inr s1" "old_rel s1 [(0x200000, 0x1FFFEC)]" "ofree_list s1 = 0x200000"
      "used_list s1 = 0"
    using HEAP_INIT_run [OF assms(1)] by blast
  have np: "\<not> paging s1" using s1(2) by (simp add: old_rel_def)
  obtain s2 where s2: "KMALLOC (Suc (Suc fuel)) req s1 = Inr (0x200014, s2)" "\<not> paging s2"
      "ofree_list s2 = 0x3FFFF4" "hdr 4 (ram s2) 0x3FFFF4 0xFFFFFFF8 0 0 0"
    by (rule cut_past_the_end [OF np s1(2-4) assms(2,3)])
  have "round16 req' \<le> NOT 15" unfolding round16_def by (rule word_and_le1)
  then have "round16 req' \<le> 0xFFFFFFF8" by (rule order_trans) simp
  then have find: "find_free_block (Suc (Suc fuel)) (ofree_list s2) (round16 req') s2 = Inr 0x3FFFF4"
    using s2(2-4) by (simp add: hdr_4 run_simps)
  have "(0x3FFFF4 :: u32) \<noteq> 0" by simp
  from KMALLOC_returns [OF s2(2) assms(4) find this]
  obtain s3 where "KMALLOC (Suc (Suc fuel)) req' s2 = Inr (0x400008, s3)" by auto
  then show ?thesis
    using s1(1) s2 by (simp add: HEAP_END_def hdr_4)
qed

theorem old_kmalloc_underflow_witness:
  "\<exists>s1 s2 s3. HEAP_INIT sample_old_heap = Inr s1 \<and> KMALLOC 2 0x1FFFD8 s1 = Inr (0x200014, s2) \<and>
     KMALLOC 2 1000000 s2 = Inr (0x400008, s3)"
proof -
  have "Suc (Suc 0) = 2" by simp
  with old_kmalloc_underflow [OF sample_np, of "0x1FFFD8" 1000000 0] show ?thesis
    by (auto simp: HEAP_END_def)
qed

end
