(* ===== verification/Old_Heap_Run.thy ===== *)
theory Old_Heap_Run
  imports Old_HEAP
begin

text \<open>
  The old heap over whole runs.  \<open>old_run s us\<close> says that \<open>s\<close> is reached from \<open>HEAP_INIT\<close> by calls of
  \<open>KMALLOC\<close> and \<open>KFREE\<close>, stores into the payload of blocks in use, and screen output, with \<open>us\<close> the
  blocks in use.  A request of such a run finds no block, or one with \<open>room\<close> for a second header after
  the request; \<open>old_kmalloc_underflow\<close> shows that the heap is broken by a request that finds a block
  without.  On every state of such a run free and used blocks share out the 2 MiB of the heap, and no
  two free blocks touch; so when nothing is in use the heap is one block again.

  \<open>HEAP_FUEL\<close> is enough for every walk: the blocks do not overlap and each has a header of 20 bytes.
\<close>

section \<open>The invariant\<close>

definition HEAP_FUEL :: nat where "HEAP_FUEL = 104860"

definition whole_heap :: blocks where "whole_heap = [(0x200000, 0x1FFFEC)]"

definition heap_inv :: "'a old_heap_scheme \<Rightarrow> blocks \<Rightarrow> blocks \<Rightarrow> bool" where
  "heap_inv s bs us \<longleftrightarrow> free_rel s bs \<and> used_rel s us \<and> coalesced 4 bs \<and> shares 4 {0x200000 ..< 0x400000} bs us"

lemma heap_inv_old: "heap_inv s bs us \<Longrightarrow> old_rel s bs"
  by (auto simp: heap_inv_def shares_def old_rel_free)

lemma heap_inv_held: "heap_inv s bs us \<Longrightarrow> old_held s b \<longleftrightarrow> b \<in> set us"
  by (rule held_iff) (simp add: heap_inv_def)

lemma heap_inv_cong:
  assumes "heap_inv s bs us" "ram s' = ram s" "paging s' = paging s" "ofree_list s' = ofree_list s" "used_list s' = used_list s"
  shows "heap_inv s' bs us"
  using assms by (simp add: heap_inv_def free_rel_def used_rel_def)

lemma heap_inv_emit [simp]: "heap_inv (emit e s) bs us = heap_inv s bs us"
  by (simp add: heap_inv_def free_rel_def used_rel_def)

lemma heap_fuel:
  assumes "heap_inv s bs us"
  shows "Suc (length bs) < HEAP_FUEL" "Suc (length us) < HEAP_FUEL"
proof -
  have "bytes 4 bs \<subseteq> {0x200000 ..< 0x400000}" "bytes 4 us \<subseteq> {0x200000 ..< 0x400000}"
    using assms by (auto simp: heap_inv_def shares_def)
  then have c: "card (bytes 4 bs) \<le> 0x200000" "card (bytes 4 us) \<le> 0x200000"
    using card_mono [of "{0x200000 ..< 0x400000 :: nat}"] by fastforce+
  have "blocks_apart 4 bs" "blocks_apart 4 us"
    using assms blocks_ok_apart by (auto simp: heap_inv_def free_rel_def used_rel_def)
  from this [THEN apart_length] c show "Suc (length bs) < HEAP_FUEL" "Suc (length us) < HEAP_FUEL"
    by (simp_all add: HEAP_FUEL_def)
qed

lemma used_nonzero:
  assumes "heap_inv s bs us" "(a, m) \<in> set us"
  shows "a + 20 \<noteq> 0" "unat (a + 20) = unat a + 20" "0x200000 \<le> unat a" "block_end 4 (a, m) \<le> 0x400000"
proof -
  have "extent 4 (a, m) \<subseteq> {0x200000 ..< 0x400000}" using assms apart_bytes [OF assms(2), of 4] by (auto simp: heap_inv_def shares_def)
  moreover have "unat a \<in> extent 4 (a, m)" "block_end 4 (a, m) - 1 \<in> extent 4 (a, m)"
    by (simp_all add: extent_ends block_end_def)
  ultimately have b: "unat a \<in> {0x200000 ..< 0x400000}" "block_end 4 (a, m) - 1 \<in> {0x200000 ..< 0x400000}" by blast+
  then show e: "unat (a + 20) = unat a + 20" by (subst unat_add_lem [THEN iffD1]) auto
  show "a + 20 \<noteq> 0" using e by auto
  show "0x200000 \<le> unat a" "block_end 4 (a, m) \<le> 0x400000" using b by auto
qed

section \<open>What the operations leave alone\<close>

text \<open>Nothing is printed, and paging is as before.\<close>

definition quiet :: "'a cpu_scheme \<Rightarrow> 'a cpu_scheme \<Rightarrow> bool" where
  "quiet s s' \<longleftrightarrow> trace s' = trace s \<and> cr0 s' = cr0 s \<and> cr3 s' = cr3 s"

lemma quiet_refl [simp]: "quiet s s"
  by (simp add: quiet_def)

lemma quiet_trans: "quiet s t \<Longrightarrow> quiet t u \<Longrightarrow> quiet s u"
  by (simp add: quiet_def)

lemma st8_quiet: "st8 a v s = Inr s' \<Longrightarrow> quiet s s'"
  by (auto simp: st8_def quiet_def split: option.splits)

lemma st32_quiet: "st32 a v s = Inr s' \<Longrightarrow> quiet s s'"
  unfolding st32_def by (auto simp: bindE_eq_Inr quiet_def dest!: st8_quiet [unfolded quiet_def])

lemma quiet_lists [simp]:
  "quiet s (t\<lparr>ofree_list := p\<rparr>) = quiet s t" "quiet s (t\<lparr>used_list := p\<rparr>) = quiet s t"
  "quiet (s\<lparr>ofree_list := p\<rparr>) t = quiet s t" "quiet (s\<lparr>used_list := p\<rparr>) t = quiet s t"
  by (simp_all add: quiet_def)

lemmas quiet_rules = st8_quiet [unfolded quiet_def] st32_quiet [unfolded quiet_def]

lemma step_quiet:
  "cut_block a sz s = Inr s' \<Longrightarrow> quiet s s'"
  "take_off a s = Inr s' \<Longrightarrow> quiet s s'"
  "put_used a s = Inr s' \<Longrightarrow> quiet s s'"
  "take_unused a s = Inr s' \<Longrightarrow> quiet s s'"
  "insert_free_block fuel a s = Inr s' \<Longrightarrow> quiet s s'"
  "merge_next a s = Inr s' \<Longrightarrow> quiet s s'"
  "merge_prev a s = Inr s' \<Longrightarrow> quiet s s'"
  unfolding cut_block_def take_off_def put_used_def take_unused_def insert_free_block_def merge_next_def merge_prev_def
  by (auto simp: bindE_eq_Inr Let_def quiet_def split: if_splits dest!: quiet_rules)

lemma KMALLOC_quiet:
  assumes "KMALLOC fuel req s = Inr (p, s')" "p \<noteq> 0"
  shows "quiet s s'"
  using assms
  by (auto simp: KMALLOC_def bindE_eq_Inr Let_def quiet_def split: if_splits
    dest!: quiet_rules step_quiet(1-3) [unfolded quiet_def])

lemma KFREE_quiet:
  assumes "KFREE fuel (a + 20) s = Inr s'" "hdr 4 (ram s) a m 1 nx pv" "\<not> paging s" "a + 20 \<noteq> 0"
  shows "quiet s s'"
  using assms
  by (auto simp: KFREE_def BLOCK_SIZE_def BLOCK_MAGIC_def run_simps hdr_4 bindE_eq_Inr Let_def quiet_def split: if_splits
    dest!: quiet_rules step_quiet(4-7) [unfolded quiet_def])

section \<open>The operations on it\<close>

lemma HEAP_INIT_inv:
  assumes "\<not> paging s"
  shows "\<exists>s'. HEAP_INIT s = Inr s' \<and> heap_inv s' whole_heap []"
proof -
  obtain s' where s': "HEAP_INIT s = Inr s'" "old_rel s' whole_heap" "used_list s' = 0"
    using HEAP_INIT_run [OF assms] by (auto simp: whole_heap_def)
  have "used_rel s' []" using s'(3) by (simp add: used_rel_def blocks_apart_def)
  moreover have "bytes 4 whole_heap = {0x200000 ..< 0x400000}" by (simp add: whole_heap_def extent_def)
  moreover have "coalesced 4 whole_heap" by (simp add: coalesced_def whole_heap_def extent_ends)
  ultimately show ?thesis using s'(1,2) shares_start [of 4 whole_heap] by (auto simp: heap_inv_def old_rel_free)
qed

text \<open>An allocation that finds a block, and one that does not.\<close>

lemma KMALLOC_inv:
  assumes inv: "heap_inv s bs us" and q: "req \<noteq> 0" and fuel: "HEAP_FUEL \<le> fuel" and cut: "can_cut (round16 req) bs"
    and t: "take_fit 4 (old_rest (round16 req)) (round16 req) bs = Some ((a, m), bs')"
  shows "\<exists>s'. KMALLOC fuel req s = Inr (a + 20, s') \<and> heap_inv s' bs' ((a, m) # us) \<and> quiet s s' \<and>
    agree (heads 4 us \<union> bytes 4 bs) (ram s) (ram s')"
proof -
  note rel = heap_inv_old [OF inv]
  have "Suc (length bs) < fuel" using heap_fuel(1) [OF inv] fuel by simp
  from KMALLOC_fit [OF rel q this cut t] inv
  obtain s' where s': "KMALLOC fuel req s = Inr (a + 20, s')" "old_rel s' bs'" "used_rel s' ((a, m) # us)"
      "agree (heads 4 us \<union> bytes 4 bs) (ram s) (ram s')"
    by (auto simp: heap_inv_def)
  have inv': "heap_inv s' bs' ((a, m) # us)"
    using s' old_heap.take_coalesced [OF rel cut t] old_heap.shares_take [OF rel cut t] inv
    by (auto simp: heap_inv_def old_rel_free)
  then have "quiet s s'" using KMALLOC_quiet [OF s'(1)] used_nonzero(1) [of s' bs' "(a, m) # us" a m] by simp
  then show ?thesis using s' inv' by blast
qed

definition oom_message :: "u32 \<Rightarrow> 'a cpu_scheme \<Rightarrow> 'a cpu_scheme" where
  "oom_message sz s = emit (Vga_Print ('' bytes'' @ [LF])) (emit (Vga_Print (int_to_str sz))
     (emit (Vga_Print ''[HEAP] OUT OF MEMORY! Requested: '') s))"

lemma KMALLOC_none:
  assumes inv: "heap_inv s bs us" and q: "req \<noteq> 0" and fuel: "HEAP_FUEL \<le> fuel"
    and t: "take_fit 4 (old_rest (round16 req)) (round16 req) bs = None"
  shows "KMALLOC fuel req s = Inr (0, oom_message (round16 req) s)" "heap_inv (oom_message (round16 req) s) bs us"
proof -
  obtain l where np: "\<not> paging s" and d: "dll 4 (ram s) 0 (ofree_list s) bs 0 l" and ok: "blocks_ok 4 bs"
    using inv by (auto simp: heap_inv_def free_rel_def)
  have "length bs < fuel" using heap_fuel(1) [OF inv] fuel by simp
  moreover have "\<forall>b \<in> set bs. fst b \<noteq> 0" using ok by (simp add: blocks_ok_def)
  ultimately have "find_free_block fuel (ofree_list s) (round16 req) s = Inr 0"
    using find_free_run [OF np d] t by (simp add: take_fit_None)
  then show "KMALLOC fuel req s = Inr (0, oom_message (round16 req) s)"
    using q by (simp add: KMALLOC_def Let_def oom_message_def)
  show "heap_inv (oom_message (round16 req) s) bs us" using inv by (simp add: oom_message_def)
qed

lemma KFREE_inv:
  assumes inv: "heap_inv s bs (us @ (a, m) # vs)" and fuel: "HEAP_FUEL \<le> fuel"
  shows "\<exists>s'. KFREE fuel (a + 20) s = Inr s' \<and>
    heap_inv s' (merge_adjacent 4 (insert_block (a, m) bs)) (us @ vs) \<and> quiet s s' \<and>
    agree (heads 4 us \<union> heads 4 vs \<union> extent 4 (a, m) \<union> bytes 4 bs) (ram s) (ram s')"
proof -
  note rel = heap_inv_old [OF inv]
  have held: "old_held s (a, m)" using heap_inv_held [OF inv] by simp
  have sh: "shares 4 {0x200000 ..< 0x400000} bs (us @ (a, m) # vs)" "blocks_ok 4 bs"
    using inv by (simp_all add: heap_inv_def free_rel_def)
  note f = shares_free [OF sh]
  have nz: "a + 20 \<noteq> 0" using used_nonzero(1) [OF inv, of a m] by simp
  have "Suc (length bs) < fuel" using heap_fuel(1) [OF inv] fuel by simp
  from KFREE_held [OF rel held f(1) this nz] inv
  obtain s' where s': "KFREE fuel (a + 20) s = Inr s'" "old_rel s' (merge_adjacent 4 (insert_block (a, m) bs))"
      "used_rel s' (us @ vs)" "agree (heads 4 us \<union> heads 4 vs \<union> extent 4 (a, m) \<union> bytes 4 bs) (ram s) (ram s')"
    by (auto simp: heap_inv_def)
  obtain nx pv where "hdr 4 (ram s) a m 1 nx pv" "\<not> paging s"
    using inv by (auto simp: heap_inv_def used_rel_def free_rel_def dlu_append)
  then have q: "quiet s s'" using KFREE_quiet [OF s'(1)] nz by blast
  with s' f(3,4) show ?thesis by (auto simp: heap_inv_def old_rel_free)
qed

text \<open>Stores into the payload of a block in use.\<close>

lemma store_inv:
  assumes inv: "heap_inv s bs us" and b: "b \<in> set us" and a: "agree (payload 4 b) (ram s) m'"
  shows "heap_inv (s\<lparr>ram := m'\<rparr>) bs us"
proof -
  obtain vs ws where us: "us = vs @ b # ws" using b by (metis split_list)
  have ap: "blocks_apart 4 (vs @ b # ws)" using inv by (simp add: heap_inv_def used_rel_def us)
  have p: "payload 4 b \<subseteq> extent 4 b" by (auto simp: payload_def extent_ends)
  have "bytes 4 bs \<inter> payload 4 b = {}" using inv p by (auto simp: heap_inv_def shares_def us)
  moreover have "heads 4 us \<inter> payload 4 b = {}"
  proof -
    have "hrange 4 (fst b) \<inter> payload 4 b = {}" by (auto simp: hrange_def payload_def)
    moreover have "heads 4 (vs @ ws) \<inter> payload 4 b = {}"
      using apart_remove(2) [OF ap] heads_bytes [of 4 "vs @ ws"] p by blast
    ultimately show ?thesis by (auto simp: us heads_def)
  qed
  ultimately show ?thesis
    using inv free_agree [of s bs "payload 4 b" "s\<lparr>ram := m'\<rparr>"] a
      dlu_keep [of "payload 4 b" "ram s" m' 4 us, OF a _ ap [folded us]]
    by (auto simp: heap_inv_def shares_def used_rel_def free_rel_def)
qed

text \<open>A block borrowed and given back: the heap is what it was.\<close>

lemma heap_refill:
  assumes inv: "heap_inv s bs us" and cut: "can_cut sz bs" and t: "take_fit 4 (old_rest sz) sz bs = Some (b, bs1)"
  shows "merge_adjacent 4 (insert_block b bs1) = bs"
  using old_heap.take_refill [OF heap_inv_old [OF inv] cut t] inv by (simp add: heap_inv_def)

lemma borrow:
  assumes inv: "heap_inv s bs us" and q: "req \<noteq> 0" and fuel: "HEAP_FUEL \<le> fuel" and cut: "can_cut (round16 req) bs"
    and fit: "\<exists>b \<in> set bs. round16 req \<le> snd b"
  obtains a m bs1 s1 where "KMALLOC fuel req s = Inr (a + 20, s1)" "heap_inv s1 bs1 ((a, m) # us)" "quiet s s1"
    "a + 20 \<noteq> 0" "round16 req \<le> m"
    "\<And>s2. heap_inv s2 bs1 ((a, m) # us) \<Longrightarrow> \<exists>s3. KFREE fuel (a + 20) s2 = Inr s3 \<and> heap_inv s3 bs us \<and> quiet s2 s3"
proof -
  have "take_fit 4 (old_rest (round16 req)) (round16 req) bs \<noteq> None"
    using fit unfolding take_fit_None find_None_iff by blast
  then obtain a m bs1 where t: "take_fit 4 (old_rest (round16 req)) (round16 req) bs = Some ((a, m), bs1)" by auto
  obtain s1 where s1: "KMALLOC fuel req s = Inr (a + 20, s1)" "heap_inv s1 bs1 ((a, m) # us)" "quiet s s1"
    using KMALLOC_inv [OF inv q fuel cut t] by blast
  have "round16 req \<le> m" using old_heap.take_facts(5) [OF heap_inv_old [OF inv] cut t] by simp
  moreover have "a + 20 \<noteq> 0" using used_nonzero(1) [OF s1(2), of a m] by simp
  moreover have "\<exists>s3. KFREE fuel (a + 20) s2 = Inr s3 \<and> heap_inv s3 bs us \<and> quiet s2 s3"
    if "heap_inv s2 bs1 ((a, m) # us)" for s2
    using KFREE_inv [of s2 bs1 "[]" a m us, OF _ fuel] that heap_refill [OF inv cut t] by auto
  ultimately show thesis using that s1 by blast
qed

text \<open>The status functions only print.\<close>

lemma list_totals_run:
  "\<not> paging s \<Longrightarrow> dlu u 4 (ram s) pv p bs 0 l \<Longrightarrow> \<forall>b \<in> set bs. fst b \<noteq> 0 \<Longrightarrow> length bs < fuel \<Longrightarrow>
   list_totals fuel p acc cnt s = Inr (acc + sum_list (map snd bs), cnt + of_nat (length bs))"
proof (induction bs arbitrary: pv p fuel acc cnt)
  case Nil
  then show ?case by (cases fuel) auto
next
  case (Cons b bs)
  obtain f where f: "fuel = Suc f" using Cons.prems(4) by (cases fuel) auto
  obtain c n where b: "b = (c, n)" by force
  have p: "p = c" "c \<noteq> 0" "rd32 (ram s) (c + 4) = n" and d: "dlu u 4 (ram s) c (rd32 (ram s) (c + 12)) bs 0 l"
    using Cons.prems(2,3) by (auto simp: b hdr_4)
  show ?case
    using Cons.IH [OF Cons.prems(1) d, of f] Cons.prems p by (simp add: f b run_simps)
qed

lemma dump_list_run:
  "\<not> paging s \<Longrightarrow> dlu u 4 (ram s) pv p bs 0 l \<Longrightarrow> \<forall>b \<in> set bs. fst b \<noteq> 0 \<Longrightarrow> length bs < fuel \<Longrightarrow>
   \<exists>t. dump_list fuel p s = Inr (s\<lparr>trace := trace s @ t\<rparr>)"
proof (induction bs arbitrary: pv p fuel s)
  case Nil
  then show ?case by (cases fuel) (auto intro: exI [of _ "[]"])
next
  case (Cons b bs)
  obtain f where f: "fuel = Suc f" using Cons.prems(4) by (cases fuel) auto
  obtain c n where b: "b = (c, n)" by force
  have p: "p = c" "c \<noteq> 0" "rd32 (ram s) (c + 4) = n" and d: "dlu u 4 (ram s) c (rd32 (ram s) (c + 12)) bs 0 l"
    using Cons.prems(2,3) by (auto simp: b hdr_4)
  define s1 where "s1 = emit (Vga_Print [LF]) (emit (Vga_Print (int_to_str n))
    (emit (Vga_Print '', size: '') (emit (Vga_Print (old_hex_to_str c)) (emit (Vga_Print ''  Block at 0x'') s))))"
  have run: "dump_list fuel p s = dump_list f (rd32 (ram s) (c + 12)) s1"
    using Cons.prems(1) p by (simp add: f run_simps Let_def s1_def)
  obtain t where t: "s1 = s\<lparr>trace := trace s @ t\<rparr>"
    by (rule that) (simp add: s1_def emit_def)
  have "\<exists>t'. dump_list f (rd32 (ram s) (c + 12)) s1 = Inr (s1\<lparr>trace := trace s1 @ t'\<rparr>)"
    using Cons.IH [of s1 c "rd32 (ram s) (c + 12)" f] Cons.prems d by (simp add: t f)
  then show ?case by (auto simp: run t)
qed

lemma lists_of_inv:
  assumes "heap_inv s bs us" "HEAP_FUEL \<le> fuel"
  obtains l l' where "\<not> paging s" "dlu 0 4 (ram s) 0 (ofree_list s) bs 0 l" "dlu 1 4 (ram s) 0 (used_list s) us 0 l'"
    "\<forall>b \<in> set bs. fst b \<noteq> 0" "\<forall>b \<in> set us. fst b \<noteq> 0" "length bs < fuel" "length us < fuel"
  using assms heap_fuel [OF assms(1)]
  by (auto simp: heap_inv_def free_rel_def used_rel_def blocks_ok_def blocks_apart_def)

lemma status_run:
  assumes inv: "heap_inv s bs us" and fuel: "HEAP_FUEL \<le> fuel"
  shows "\<exists>t. HEAP_PRINT_STATUS fuel s = Inr (s\<lparr>trace := trace s @ t\<rparr>)"
    "\<exists>t. HEAP_DEBUG_DUMP fuel s = Inr (s\<lparr>trace := trace s @ t\<rparr>)"
proof -
  obtain l l' where l: "\<not> paging s" "dlu 0 4 (ram s) 0 (ofree_list s) bs 0 l" "dlu 1 4 (ram s) 0 (used_list s) us 0 l'"
      "\<forall>b \<in> set bs. fst b \<noteq> 0" "\<forall>b \<in> set us. fst b \<noteq> 0" "length bs < fuel" "length us < fuel"
    using lists_of_inv [OF assms] by blast
  have f: "\<exists>t. fold (\<lambda>m. emit (Vga_Print m)) ms s' = s'\<lparr>trace := trace s' @ t\<rparr>" for ms and s' :: "'a old_heap_scheme"
  proof (induction ms arbitrary: s')
    case (Cons m ms)
    show ?case using Cons [of "emit (Vga_Print m) s'"] by (auto simp: emit_def)
  next
    case Nil
    show ?case by (rule exI [of _ "[]"]) simp
  qed
  show "\<exists>t. HEAP_PRINT_STATUS fuel s = Inr (s\<lparr>trace := trace s @ t\<rparr>)"
    unfolding HEAP_PRINT_STATUS_def list_totals_run [OF l(1,2,4,6)] list_totals_run [OF l(1,3,5,7)] bindE_simps prod.case
      sum.inject by (rule f)
  define s1 where "s1 = emit (Vga_Print (''Used list:'' @ [LF])) (emit (Vga_Print ([LF] @ ''[HEAP] DEBUG DUMP:'' @ [LF])) s)"
  have s1: "\<not> paging s1" "ram s1 = ram s" "used_list s1 = used_list s" "ofree_list s1 = ofree_list s"
    using l(1) by (simp_all add: s1_def)
  obtain t1 where t1: "dump_list fuel (used_list s1) s1 = Inr (s1\<lparr>trace := trace s1 @ t1\<rparr>)"
    using dump_list_run [OF s1(1), of 1 0 "used_list s1" us l' fuel] l s1 by auto
  define s2 where "s2 = emit (Vga_Print (''Free list:'' @ [LF])) (s1\<lparr>trace := trace s1 @ t1\<rparr>)"
  have s2: "\<not> paging s2" "ram s2 = ram s" "ofree_list s2 = ofree_list s" using s1 by (simp_all add: s2_def)
  obtain t2 where t2: "dump_list fuel (ofree_list s2) s2 = Inr (s2\<lparr>trace := trace s2 @ t2\<rparr>)"
    using dump_list_run [OF s2(1), of 0 0 "ofree_list s2" bs l fuel] l s2 by auto
  have "HEAP_DEBUG_DUMP fuel s = Inr (s2\<lparr>trace := trace s2 @ t2\<rparr>)"
    unfolding HEAP_DEBUG_DUMP_def Let_def s1_def [symmetric] t1 bindE_simps s2_def [symmetric] by (rule t2)
  moreover have "s2\<lparr>trace := trace s2 @ t2\<rparr> = s\<lparr>trace := trace s @ (drop (length (trace s)) (trace s2) @ t2)\<rparr>"
    by (simp add: s2_def s1_def emit_def)
  ultimately show "\<exists>t. HEAP_DEBUG_DUMP fuel s = Inr (s\<lparr>trace := trace s @ t\<rparr>)" by metis
qed

section \<open>Runs\<close>

text \<open>
  The header of a block in use holds its size.  \<open>room\<close> excludes the requests of
  \<open>old_kmalloc_underflow\<close>: the block the request finds, if any, is at least one header (20 bytes) larger
  than the request, so that \<open>remaining\<close> does not wrap.
\<close>

definition room :: "'a old_heap_scheme \<Rightarrow> u32 \<Rightarrow> bool" where
  "room s req \<longleftrightarrow> (\<exists>bs. free_rel s bs \<and> can_cut (round16 req) bs)"

inductive old_run :: "'a old_heap_scheme \<Rightarrow> blocks \<Rightarrow> bool" where
  start: "\<not> paging s \<Longrightarrow> HEAP_INIT s = Inr s' \<Longrightarrow> old_run s' []"
| alloc: "old_run s us \<Longrightarrow> HEAP_FUEL \<le> fuel \<Longrightarrow> req \<noteq> 0 \<Longrightarrow> room s req \<Longrightarrow> KMALLOC fuel req s = Inr (p, s') \<Longrightarrow>
    old_run s' (if p = 0 then us else (p - 20, rd32 (ram s') (p - 16)) # us)"
| release: "old_run s (us @ (a, m) # vs) \<Longrightarrow> HEAP_FUEL \<le> fuel \<Longrightarrow> KFREE fuel (a + 20) s = Inr s' \<Longrightarrow>
    old_run s' (us @ vs)"
| store: "old_run s us \<Longrightarrow> b \<in> set us \<Longrightarrow> agree (payload 4 b) (ram s) m' \<Longrightarrow> old_run (s\<lparr>ram := m'\<rparr>) us"
| shown: "old_run s us \<Longrightarrow> old_run (emit e s) us"

lemma free_rel_unique: "free_rel s bs \<Longrightarrow> free_rel s bs' \<Longrightarrow> bs = bs'"
  using dlu_unique [of 0 4 "ram s" 0 "ofree_list s" bs _ bs'] by (fastforce simp: free_rel_def blocks_ok_def)

lemma used_header:
  assumes "heap_inv s bs ((a, m) # us)"
  shows "rd32 (ram s) (a + 4) = m"
  using assms by (auto simp: heap_inv_def used_rel_def hdr_4)

lemma old_run_inv: "old_run s us \<Longrightarrow> \<exists>bs. heap_inv s bs us"
proof (induction rule: old_run.induct)
  case (start s s')
  then show ?case using HEAP_INIT_inv by fastforce
next
  case (alloc s us fuel req p s')
  then obtain bs where inv: "heap_inv s bs us" by blast
  have "can_cut (round16 req) bs"
    using alloc.hyps(4) inv free_rel_unique by (auto simp: room_def heap_inv_def)
  note step = KMALLOC_inv [OF inv alloc.hyps(3,2) this]
  show ?case
  proof (cases "take_fit 4 (old_rest (round16 req)) (round16 req) bs")
    case None
    then show ?thesis using KMALLOC_none [OF inv alloc.hyps(3,2)] alloc.hyps(5) by auto
  next
    case (Some x)
    obtain a m bs' where x: "x = ((a, m), bs')" by (metis surj_pair)
    from step [OF Some [unfolded x]] alloc.hyps(5)
    have p: "p = a + 20" and inv': "heap_inv s' bs' ((a, m) # us)" by auto
    moreover have "p - 16 = a + 4" using p by simp
    ultimately show ?thesis using used_header [OF inv'] used_nonzero(1) [OF inv', of a m] by (auto simp: add.commute)
  qed
next
  case (release s us a m vs fuel s')
  then show ?case using KFREE_inv by fastforce
next
  case (store s us b m')
  then show ?case using store_inv by blast
qed auto

text \<open>A heap with nothing in use is the one free block of \<open>HEAP_INIT\<close>.\<close>

lemma all_free:
  assumes inv: "heap_inv s bs []"
  shows "bs = whole_heap"
proof (rule coalesced_unique [of 4])
  show "bytes 4 bs = bytes 4 whole_heap"
    using inv by (simp add: heap_inv_def shares_def whole_heap_def extent_def)
qed (use inv in \<open>auto simp: heap_inv_def free_rel_def whole_heap_def coalesced_def blocks_ok_Cons block_end_def extent_ends\<close>)

text \<open>A run: one allocation after \<open>HEAP_INIT\<close>.\<close>

lemma sample_run:
  "\<exists>s1 s2. HEAP_INIT sample_old_heap = Inr s1 \<and> KMALLOC HEAP_FUEL 100 s1 = Inr (0x200014, s2) \<and>
     old_run s2 [(0x200000, 112)] \<and> heap_inv s2 [(0x200084, 0x1FFF68)] [(0x200000, 112)]"
proof -
  obtain s1 where s1: "HEAP_INIT sample_old_heap = Inr s1" "heap_inv s1 whole_heap []"
    using HEAP_INIT_inv [OF sample_np] by blast
  have r1: "old_run s1 []" using old_run.start [OF sample_np s1(1)] .
  have c: "can_cut (round16 100) whole_heap" "(100 :: u32) \<noteq> 0"
    using sample_old_fit(1) by (simp_all add: whole_heap_def)
  obtain s2 where s2: "KMALLOC HEAP_FUEL 100 s1 = Inr (0x200014, s2)" "heap_inv s2 [(0x200084, 0x1FFF68)] [(0x200000, 112)]"
    using KMALLOC_inv [OF s1(2) c(2) order_refl c(1) sample_old_fit(2) [folded whole_heap_def]] by auto
  have "room s1 100" using c(1) s1(2) by (auto simp: room_def heap_inv_def)
  from old_run.alloc [OF r1 order_refl c(2) this s2(1)] used_header [OF s2(2)] s1(1) s2
  show ?thesis by auto
qed

text \<open>
  C8. The old heap loses no byte as long as no request finds a block with less than a header (20 bytes)
  to spare.  In every state reached from \<open>HEAP_INIT\<close> by releases, stores into blocks in use and
  allocations of which each finds no block or one with \<open>room\<close> for a second header, the free blocks and the
  blocks in use do not overlap and together are the 2 MiB of the heap, and no two free blocks touch;
  so when everything has been released there is one free block again, the one \<open>HEAP_INIT\<close> made.  (A
  request without that room breaks the heap, see \<open>old_kmalloc_underflow\<close>.)
\<close>

theorem old_heap_shared_out:
  assumes "old_run s us"
  shows "\<exists>bs. old_rel s bs \<and> (\<forall>b. old_held s b \<longleftrightarrow> b \<in> set us) \<and> blocks_apart 4 us \<and> coalesced 4 bs \<and>
    bytes 4 us \<inter> bytes 4 bs = {} \<and> bytes 4 bs \<union> bytes 4 us = {0x200000 ..< 0x400000} \<and>
    (us = [] \<longrightarrow> bs = [(0x200000, 0x1FFFEC)])"
proof -
  obtain bs where inv: "heap_inv s bs us" using old_run_inv [OF assms] by blast
  have "bs = whole_heap" if "us = []" using all_free inv that by blast
  then show ?thesis
    using inv heap_inv_old [OF inv] heap_inv_held [OF inv] by (auto simp: heap_inv_def shares_def used_rel_def whole_heap_def)
qed

theorem old_heap_shared_out_witness:
  "\<exists>s1 s2 s3. HEAP_INIT sample_old_heap = Inr s1 \<and> KMALLOC HEAP_FUEL 100 s1 = Inr (0x200014, s2) \<and>
     KFREE HEAP_FUEL 0x200014 s2 = Inr s3 \<and> old_rel s3 [(0x200000, 0x1FFFEC)]"
proof -
  obtain s1 s2 where s: "HEAP_INIT sample_old_heap = Inr s1" "KMALLOC HEAP_FUEL 100 s1 = Inr (0x200014, s2)"
      "old_run s2 [(0x200000, 112)]" "heap_inv s2 [(0x200084, 0x1FFF68)] [(0x200000, 112)]"
    using sample_run by blast
  obtain s3 where s3: "KFREE HEAP_FUEL 0x200014 s2 = Inr s3"
    using KFREE_inv [of s2 _ "[]" "0x200000" 112 "[]" HEAP_FUEL] s(4) by auto
  then have "old_run s3 []" using old_run.release [of s2 "[]" "0x200000" 112 "[]" HEAP_FUEL s3] s(3) by simp
  from old_heap_shared_out [OF this] s(1,2) s3 show ?thesis by auto
qed

section \<open>Contents\<close>

lemma payload_apart:
  assumes "heap_inv s bs us" "b \<in> set us"
  shows "payload 4 b \<inter> (heads 4 us \<union> bytes 4 bs) = {}"
  using payload_heads [OF _ assms(2)] assms(1) by (fastforce simp: heap_inv_def shares_def used_rel_def)

lemma payload_release:
  assumes inv: "heap_inv s bs (us @ c # vs)" and b: "b \<in> set (us @ vs)"
  shows "payload 4 b \<inter> (heads 4 us \<union> heads 4 vs \<union> extent 4 c \<union> bytes 4 bs) = {}"
proof -
  have ap: "blocks_apart 4 (us @ c # vs)" using inv by (simp add: heap_inv_def shares_def used_rel_def)
  note r = apart_remove [OF ap]
  have "payload 4 b \<inter> heads 4 (us @ vs) = {}" "payload 4 b \<subseteq> bytes 4 (us @ vs)"
    using payload_heads [OF r(1) b] .
  then show ?thesis using r(2) inv by (auto simp: heap_inv_def shares_def)
qed

text \<open>
  C34. Contents are kept, under the same restriction.  In every state reached by a run whose requests
  each found no block or one with \<open>room\<close> for a second header, no byte of the payload of a block in use
  is changed by a further \<open>KMALLOC\<close> that has this room or finds no block, or by the \<open>KFREE\<close> of another
  block in use.
\<close>

theorem old_payload_kept:
  assumes run: "old_run s us" and b: "b \<in> set us" and x: "unat x \<in> payload 4 b" and fuel: "HEAP_FUEL \<le> fuel"
  shows "(req \<noteq> 0 \<and> room s req \<and> KMALLOC fuel req s = Inr (p, s') \<longrightarrow> ram s' x = ram s x) \<and>
    ((a, m) \<in> set us \<and> (a, m) \<noteq> b \<and> KFREE fuel (a + 20) s = Inr s'' \<longrightarrow> ram s'' x = ram s x)"
proof
  obtain bs where inv: "heap_inv s bs us" using old_run_inv [OF run] by blast
  show "req \<noteq> 0 \<and> room s req \<and> KMALLOC fuel req s = Inr (p, s') \<longrightarrow> ram s' x = ram s x"
  proof
    assume A: "req \<noteq> 0 \<and> room s req \<and> KMALLOC fuel req s = Inr (p, s')"
    then have cut: "can_cut (round16 req) bs"
      using inv free_rel_unique by (auto simp: room_def heap_inv_def)
    show "ram s' x = ram s x"
    proof (cases "take_fit 4 (old_rest (round16 req)) (round16 req) bs")
      case None
      then show ?thesis using KMALLOC_none(1) [OF inv _ fuel] A by (auto simp: oom_message_def)
    next
      case (Some y)
      obtain a m bs' where y: "y = ((a, m), bs')" by (metis surj_pair)
      have "agree (heads 4 us \<union> bytes 4 bs) (ram s) (ram s')"
        using KMALLOC_inv [OF inv _ fuel cut Some [unfolded y]] A by auto
      from agree_at [OF this x payload_apart [OF inv b]] show ?thesis .
    qed
  qed
  show "(a, m) \<in> set us \<and> (a, m) \<noteq> b \<and> KFREE fuel (a + 20) s = Inr s'' \<longrightarrow> ram s'' x = ram s x"
  proof
    assume A: "(a, m) \<in> set us \<and> (a, m) \<noteq> b \<and> KFREE fuel (a + 20) s = Inr s''"
    then obtain vs ws where us: "us = vs @ (a, m) # ws" by (metis split_list)
    have inv': "heap_inv s bs (vs @ (a, m) # ws)" using inv by (simp only: us)
    from KFREE_inv [OF inv' fuel] A
    have "agree (heads 4 vs \<union> heads 4 ws \<union> extent 4 (a, m) \<union> bytes 4 bs) (ram s) (ram s'')" by auto
    from agree_at [OF this x payload_release [OF inv']] b A show "ram s'' x = ram s x" by (auto simp: us)
  qed
qed

theorem old_payload_kept_witness:
  "\<exists>s1 s2 p s3. HEAP_INIT sample_old_heap = Inr s1 \<and> KMALLOC HEAP_FUEL 100 s1 = Inr (0x200014, s2) \<and>
     KMALLOC HEAP_FUEL 50 s2 = Inr (p, s3) \<and> ram s3 0x200014 = ram s2 0x200014"
proof -
  obtain s1 s2 where s: "HEAP_INIT sample_old_heap = Inr s1" "KMALLOC HEAP_FUEL 100 s1 = Inr (0x200014, s2)"
      "old_run s2 [(0x200000, 112)]" "heap_inv s2 [(0x200084, 0x1FFF68)] [(0x200000, 112)]"
    using sample_run by blast
  have r: "round16 50 = 64" by (simp add: round16_def)
  have c: "can_cut (round16 50) [(0x200084, 0x1FFF68)]" by (simp add: r can_cut_def)
  then obtain p s3 where "KMALLOC HEAP_FUEL 50 s2 = Inr (p, s3)"
    using KMALLOC_inv [OF s(4) _ order_refl c] by (auto simp: r old_rest_def)
  moreover have "room s2 50" using c s(4) by (auto simp: room_def heap_inv_def)
  moreover have "unat (0x200014 :: u32) \<in> payload 4 (0x200000, 112)" by (simp add: payload_def block_end_def)
  ultimately show ?thesis using s old_payload_kept [OF s(3), of "(0x200000, 112)" "0x200014" HEAP_FUEL 50 p s3] by auto
qed

end
