(* ===== verification/Fifo.thy ===== *)
theory Fifo
  imports Prelude
begin

text \<open>
  The contract of a bounded queue between an interrupt handler that puts entries and a reader that
  gets them: entries leave in the order they came, and an entry that finds the queue full is
  dropped.
\<close>

primrec put_all :: "('a \<Rightarrow> 's \<Rightarrow> 'e + 's) \<Rightarrow> 'a list \<Rightarrow> 's \<Rightarrow> 'e + 's" where
  "put_all put [] s = Inr s"
| "put_all put (x # xs) s = bindE (put x s) (put_all put xs)"

primrec get_many :: "('s \<Rightarrow> 'e + 'a \<times> 's) \<Rightarrow> nat \<Rightarrow> 's \<Rightarrow> 'e + 'a list \<times> 's" where
  "get_many get 0 s = Inr ([], s)"
| "get_many get (Suc n) s =
     bindE (get s) (\<lambda>(x, s). bindE (get_many get n s) (\<lambda>(xs, s). Inr (x # xs, s)))"

locale fifo =
  fixes inv :: "'s \<Rightarrow> bool"
    and items :: "'s \<Rightarrow> 'a list"
    and cap :: nat
    and put :: "'a \<Rightarrow> 's \<Rightarrow> 'e + 's"
    and get :: "'s \<Rightarrow> 'e + 'a \<times> 's"
  assumes items_cap: "inv s \<Longrightarrow> length (items s) \<le> cap"
    and put_items: "inv s \<Longrightarrow> \<exists>s'. put x s = Inr s' \<and> inv s' \<and>
      items s' = (if length (items s) < cap then items s @ [x] else items s)"
    and get_items: "inv s \<Longrightarrow> items s = x # xs \<Longrightarrow> \<exists>s'. get s = Inr (x, s') \<and> inv s' \<and> items s' = xs"
begin

lemma put_take: "inv s \<Longrightarrow> \<exists>s'. put x s = Inr s' \<and> inv s' \<and> items s' = take cap (items s @ [x])"
  using put_items [of s x] items_cap [of s] by (auto split: if_splits)

lemma put_all_take:
  "inv s \<Longrightarrow> \<exists>s'. put_all put xs s = Inr s' \<and> inv s' \<and> items s' = take cap (items s @ xs)"
proof (induction xs arbitrary: s)
  case Nil
  then show ?case using items_cap by simp
next
  case (Cons x xs)
  obtain t where t: "put x s = Inr t" "inv t" "items t = take cap (items s @ [x])"
    using put_take [OF Cons.prems] by blast
  obtain u where u: "put_all put xs t = Inr u" "inv u" "items u = take cap (items t @ xs)"
    using Cons.IH [OF t(2)] by blast
  have "take cap (take cap ys @ zs) = take cap (ys @ zs)" for ys zs :: "'a list"
    by (cases "length ys \<le> cap") auto
  from this [of "items s @ [x]" xs] show ?case using t u by simp
qed

lemma get_many_take:
  "inv s \<Longrightarrow> n \<le> length (items s) \<Longrightarrow>
   \<exists>s'. get_many get n s = Inr (take n (items s), s') \<and> inv s' \<and> items s' = drop n (items s)"
proof (induction n arbitrary: s)
  case 0
  then show ?case by simp
next
  case (Suc n)
  then obtain x xs where xs: "items s = x # xs" by (cases "items s") auto
  obtain t where t: "get s = Inr (x, t)" "inv t" "items t = xs"
    using get_items [OF Suc.prems(1) xs] by blast
  moreover obtain u where "get_many get n t = Inr (take n xs, u)" "inv u" "items u = drop n xs"
    using Suc.IH [OF t(2)] Suc.prems(2) t(3) xs by auto
  ultimately show ?case using xs by simp
qed

text \<open>What was put comes out in order, except what found the queue full.\<close>

lemma put_then_get:
  assumes "inv s" "n \<le> length (items s @ xs)" "n \<le> cap"
  shows "\<exists>s1 s2. put_all put xs s = Inr s1 \<and> get_many get n s1 = Inr (take n (items s @ xs), s2) \<and>
    inv s2 \<and> items s2 = drop n (take cap (items s @ xs))"
proof -
  obtain s1 where s1: "put_all put xs s = Inr s1" "inv s1" "items s1 = take cap (items s @ xs)"
    using put_all_take [OF assms(1)] by blast
  have "n \<le> length (items s1)" using assms(2,3) s1(3) by simp
  from get_many_take [OF s1(2) this] s1 assms(3) show ?thesis by (auto simp: min_def)
qed

end

end
