(* ===== verification/Keyboard.thy ===== *)
theory Keyboard
  imports VGA Utils Fifo
begin

text \<open>
  \<open>old/Include/PS2KB.c\<close>: the keyboard driver.  The interrupt handler turns scan codes into
  characters and puts them into a ring buffer of 256 bytes; \<open>PS2_KB_GETC\<close> takes them out and
  \<open>PS2_KB_READ_LN\<close> edits a line from them.  What the n-th read of a controller port returns is a
  field of the state, so reading a port twice takes two bytes.

  Waiting for the controller, and for a key in \<open>hlt\<close>, takes a fuel argument; each \<open>hlt\<close> is ended by
  the interrupt whose handler is the wrapper of the driver.
\<close>

section \<open>State and operations\<close>

record keyboard =
  kb_screen :: vga
  port60 :: "nat \<Rightarrow> u8"
  reads60 :: nat
  port64 :: "nat \<Rightarrow> u8"
  reads64 :: nat
  written :: "(u16 \<times> u8) list"
  altPressed :: u8
  shiftPressed :: u8
  ctrlPressed :: u8
  e0_prefix :: u8
  KB_BUFFER :: string
  bufferStart :: u32
  bufferEnd :: u32
  bufferCount :: u32
  input_buffer :: string
  debug_count :: int

definition keyboard_map :: string where
  "keyboard_map = [CHR 0x00, CHR 0x1B] @ ''1234567890-='' @ [CHR 0x08, CHR 0x09] @ ''qwertyuiop[]'' @
     [LF, CHR 0x00] @ ''asdfghjkl;'' @ [CHR 0x27, CHR 0x60, CHR 0x00, CHR 0x5C] @ ''zxcvbnm,./'' @
     [CHR 0x00, CHR ''*'', CHR 0x00, CHR '' ''] @ replicate 17 (CHR 0x00) @ ''-'' @
     replicate 3 (CHR 0x00) @ ''+'' @ replicate 48 (CHR 0x00)"

definition keyboard_shift_map :: string where
  "keyboard_shift_map = [CHR 0x00, CHR 0x1B] @ ''!@#$%^&*()_+'' @ [CHR 0x08, CHR 0x09] @ ''QWERTYUIOP{}'' @
     [LF, CHR 0x00] @ ''ASDFGHJKL:'' @ [CHR 0x22, CHR ''~'', CHR 0x00, CHR ''|''] @ ''ZXCVBNM<>?'' @
     [CHR 0x00, CHR ''*'', CHR 0x00, CHR '' ''] @ replicate 17 (CHR 0x00) @ ''-'' @
     replicate 3 (CHR 0x00) @ ''+'' @ replicate 48 (CHR 0x00)"

definition KB_BUFFER_SIZE :: u32 where "KB_BUFFER_SIZE = 256"
definition INPUT_KB_BUFFER :: u32 where "INPUT_KB_BUFFER = 128"
definition KEY_RELEASED :: u8 where "KEY_RELEASED = 0x80"
definition E0_ESCAPE :: u8 where "E0_ESCAPE = 0xE0"

definition inb60 :: "keyboard \<Rightarrow> u8 \<times> keyboard" where
  "inb60 s = (port60 s (reads60 s), s\<lparr>reads60 := reads60 s + 1\<rparr>)"

definition inb64 :: "keyboard \<Rightarrow> u8 \<times> keyboard" where
  "inb64 s = (port64 s (reads64 s), s\<lparr>reads64 := reads64 s + 1\<rparr>)"

definition kb_outb :: "u16 \<Rightarrow> u8 \<Rightarrow> keyboard \<Rightarrow> keyboard" where
  "kb_outb port v s = s\<lparr>written := written s @ [(port, v)]\<rparr>"

definition on_kb_screen :: "(vga \<Rightarrow> fault + vga) \<Rightarrow> keyboard \<Rightarrow> fault + keyboard" where
  "on_kb_screen f s = bindE (f (kb_screen s)) (\<lambda>v. Inr (s\<lparr>kb_screen := v\<rparr>))"

primrec KB_WAIT :: "nat \<Rightarrow> keyboard \<Rightarrow> fault + keyboard" where
  "KB_WAIT 0 s = Inl No_Return"
| "KB_WAIT (Suc fuel) s = (let (b, s) = inb64 s in if b AND 0x02 \<noteq> 0 then KB_WAIT fuel s else Inr s)"

definition KB_SEND_CMD :: "nat \<Rightarrow> u8 \<Rightarrow> keyboard \<Rightarrow> fault + keyboard" where
  "KB_SEND_CMD fuel cmd s = bindE (KB_WAIT fuel s) (\<lambda>s. Inr (kb_outb 0x64 cmd s))"

definition KB_READ :: "nat \<Rightarrow> keyboard \<Rightarrow> fault + u8 \<times> keyboard" where
  "KB_READ fuel s = bindE (KB_WAIT fuel s) (\<lambda>s. Inr (inb60 s))"

text \<open>The loops of \<open>PS2_KB_INIT\<close>: drain the output buffer, wait for it to fill, and wait at most
  100000 rounds; the last one leaves the counter, which is -1 when it ran out.\<close>

primrec kb_drain :: "nat \<Rightarrow> keyboard \<Rightarrow> fault + keyboard" where
  "kb_drain 0 s = Inl No_Return"
| "kb_drain (Suc fuel) s =
     (let (b, s) = inb64 s in if b AND 0x01 \<noteq> 0 then kb_drain fuel (snd (inb60 s)) else Inr s)"

primrec kb_wait_output :: "nat \<Rightarrow> keyboard \<Rightarrow> fault + keyboard" where
  "kb_wait_output 0 s = Inl No_Return"
| "kb_wait_output (Suc fuel) s =
     (let (b, s) = inb64 s in if b AND 0x01 = 0 then kb_wait_output fuel s else Inr s)"

fun kb_wait_ack :: "nat \<Rightarrow> keyboard \<Rightarrow> int \<times> keyboard" where
  "kb_wait_ack timeout s =
     (let (b, s) = inb64 s in
      if b AND 0x01 = 0
      then (case timeout of 0 \<Rightarrow> (- 1, s) | Suc n \<Rightarrow> kb_wait_ack n s)
      else (int timeout, s))"

definition PS2_KB_INIT :: "nat \<Rightarrow> keyboard \<Rightarrow> fault + keyboard" where
  "PS2_KB_INIT fuel s =
     bindE (on_kb_screen (vga_print (''[PS2] Initializing keyboard...'' @ [LF])) s) (\<lambda>s.
     bindE (kb_drain fuel s) (\<lambda>s.
     let s = kb_outb 0x64 0xAD s;
         s = kb_outb 0x64 0x20 s
     in bindE (kb_wait_output fuel s) (\<lambda>s.
     let (config, s) = inb60 s;
         config = config OR 0x01;
         s = kb_outb 0x64 0x60 s;
         s = kb_outb 0x60 config s;
         s = kb_outb 0x64 0xAE s
     in bindE (kb_drain fuel s) (\<lambda>s.
     let s = kb_outb 0x60 0xF4 s;
         (timeout, s) = kb_wait_ack 100000 s
     in bindE (if timeout > 0
               then let (response, s) = inb60 s
                 in bindE (on_kb_screen (vga_print ''[PS2] Enable scanning response: 0x'') s) (\<lambda>s.
                 bindE (on_kb_screen (vga_print (old_hex_to_str (ucast response))) s)
                   (on_kb_screen (vga_print ('' (should be 0xFA)'' @ [LF]))))
               else on_kb_screen (vga_print (''[PS2] Enable scanning timeout'' @ [LF])) s)
        (on_kb_screen (vga_print (''[PS2] Keyboard initialized'' @ [LF])))))))"

definition KB_PUTC :: "char \<Rightarrow> keyboard \<Rightarrow> fault + keyboard" where
  "KB_PUTC c s =
     (if bufferCount s < KB_BUFFER_SIZE
      then if length (KB_BUFFER s) \<le> unat (bufferEnd s) then Inl Undefined_Behaviour
        else let s = s\<lparr>KB_BUFFER := (KB_BUFFER s)[unat (bufferEnd s) := c]\<rparr>;
                 s = s\<lparr>bufferEnd := (bufferEnd s + 1) mod KB_BUFFER_SIZE\<rparr>
          in Inr (s\<lparr>bufferCount := bufferCount s + 1\<rparr>)
      else Inr s)"

definition PS2_KB_HAS_INPUT :: "keyboard \<Rightarrow> bool" where
  "PS2_KB_HAS_INPUT s \<longleftrightarrow> bufferCount s > 0"

definition kb_extended :: "u8 \<Rightarrow> keyboard \<Rightarrow> fault + keyboard" where
  "kb_extended keyCode s =
     (if keyCode = 0x49 then on_kb_screen vga_scroll_up s
      else if keyCode = 0x51 then on_kb_screen vga_scroll_down s
      else if keyCode = 0x47
      then (if ctrlPressed s \<noteq> 0
        then on_kb_screen (vga_set_scroll_offset (vga_get_scroll_max (kb_screen s))) s else Inr s)
      else if keyCode = 0x4F
      then (if ctrlPressed s \<noteq> 0 then on_kb_screen (vga_set_scroll_offset 0) s else Inr s)
      else Inr s)"

definition kb_press :: "u8 \<Rightarrow> keyboard \<Rightarrow> fault + keyboard" where
  "kb_press scancode s =
     (let keyCode = scancode AND 0x7F in
      if scancode = 0x2A \<or> scancode = 0x36 then Inr (s\<lparr>shiftPressed := 1\<rparr>)
      else if scancode = 0x1D then Inr (s\<lparr>ctrlPressed := 1\<rparr>)
      else if scancode = 0x38 then Inr (s\<lparr>altPressed := 1\<rparr>)
      else if keyCode < 128
      then let c = (if shiftPressed s \<noteq> 0 then keyboard_shift_map else keyboard_map) ! unat keyCode
        in if c \<noteq> CHR 0x00 then KB_PUTC c s else Inr s
      else Inr s)"

definition kb_release :: "u8 \<Rightarrow> keyboard \<Rightarrow> keyboard" where
  "kb_release keyCode s =
     (if keyCode = 0x2A \<or> keyCode = 0x36 then s\<lparr>shiftPressed := 0\<rparr>
      else if keyCode = 0x1D then s\<lparr>ctrlPressed := 0\<rparr>
      else if keyCode = 0x38 then s\<lparr>altPressed := 0\<rparr>
      else s)"

definition PS2_KB_HANDLER :: "keyboard \<Rightarrow> fault + keyboard" where
  "PS2_KB_HANDLER s =
     (let (scancode, s) = inb60 s in
      if scancode = E0_ESCAPE then Inr (s\<lparr>e0_prefix := 1\<rparr>)
      else let keyPressed = (scancode AND KEY_RELEASED = 0);
               keyCode = scancode AND 0x7F
        in if e0_prefix s \<noteq> 0
           then bindE (if keyPressed then kb_extended keyCode s else Inr s) (\<lambda>s. Inr (s\<lparr>e0_prefix := 0\<rparr>))
           else if keyPressed then kb_press scancode s
           else Inr (kb_release keyCode s))"

definition ps2_irq_handler_asm_wrapper :: "keyboard \<Rightarrow> fault + keyboard" where
  "ps2_irq_handler_asm_wrapper s =
     bindE (on_kb_screen (vga_print (''[IRQ] IRQ1 triggered!'' @ [LF])) s) (\<lambda>s.
     bindE (PS2_KB_HANDLER s) (\<lambda>s.
     Inr (kb_outb 0x20 0x20 s)))"

primrec PS2_KB_GETC :: "nat \<Rightarrow> keyboard \<Rightarrow> fault + char \<times> keyboard" where
  "PS2_KB_GETC 0 s = Inl No_Return"
| "PS2_KB_GETC (Suc fuel) s =
     (if bufferCount s = 0
      then bindE (ps2_irq_handler_asm_wrapper s) (PS2_KB_GETC fuel)
      else if length (KB_BUFFER s) \<le> unat (bufferStart s) then Inl Undefined_Behaviour
      else let c = KB_BUFFER s ! unat (bufferStart s);
               s = s\<lparr>bufferStart := (bufferStart s + 1) mod KB_BUFFER_SIZE\<rparr>
        in Inr (c, s\<lparr>bufferCount := bufferCount s - 1\<rparr>))"

text \<open>One round of the loop of \<open>PS2_KB_READ_LN\<close>; the flag says that it returned.\<close>

definition read_ln_step :: "char \<Rightarrow> u32 \<Rightarrow> keyboard \<Rightarrow> fault + bool \<times> u32 \<times> keyboard" where
  "read_ln_step c pos s =
     (if c = LF
      then if length (input_buffer s) \<le> unat pos then Inl Undefined_Behaviour
        else let s = s\<lparr>input_buffer := (input_buffer s)[unat pos := LF]\<rparr>
          in bindE (on_kb_screen (vga_char LF) s) (\<lambda>s. Inr (True, pos, s))
      else if c = CHR 0x08
      then if pos > 0
        then bindE (on_kb_screen (vga_char (CHR 0x08)) s) (\<lambda>s.
          bindE (on_kb_screen (vga_char (CHR '' '')) s) (\<lambda>s.
          bindE (on_kb_screen (vga_char (CHR 0x08)) s) (\<lambda>s. Inr (False, pos - 1, s))))
        else Inr (False, pos, s)
      else if pos < INPUT_KB_BUFFER - 1 \<and> 32 \<le> (of_char c :: nat) \<and> (of_char c :: nat) \<le> 126
      then if length (input_buffer s) \<le> unat pos then Inl Undefined_Behaviour
        else let s = s\<lparr>input_buffer := (input_buffer s)[unat pos := c]\<rparr>
          in bindE (on_kb_screen (vga_char c) s) (\<lambda>s. Inr (False, pos + 1, s))
      else Inr (False, pos, s))"

primrec read_ln_loop :: "nat \<Rightarrow> u32 \<Rightarrow> keyboard \<Rightarrow> fault + keyboard" where
  "read_ln_loop 0 pos s = Inl No_Return"
| "read_ln_loop (Suc fuel) pos s =
     bindE (PS2_KB_GETC fuel s) (\<lambda>(c, s).
     bindE (read_ln_step c pos s) (\<lambda>(done, pos, s). if done then Inr s else read_ln_loop fuel pos s))"

text \<open>The result is the pointer to \<open>input_buffer\<close>.\<close>

definition PS2_KB_READ_LN :: "nat \<Rightarrow> keyboard \<Rightarrow> fault + keyboard" where
  "PS2_KB_READ_LN fuel s = read_ln_loop fuel 0 s"

definition POLLING_HANDLER :: "keyboard \<Rightarrow> fault + keyboard" where
  "POLLING_HANDLER s =
     (let (b, s) = inb64 s in
      if b AND 0x01 \<noteq> 0
      then let (scancode, s) = inb60 s
        in bindE (if debug_count s < 20
                  then bindE (on_kb_screen (vga_print ''[POLL] 0x'') s) (\<lambda>s.
                    bindE (on_kb_screen (vga_print (old_hex_to_str (ucast scancode))) s) (\<lambda>s.
                    bindE (on_kb_screen (vga_print '' '') s) (\<lambda>s.
                    Inr (s\<lparr>debug_count := debug_count s + 1\<rparr>))))
                  else Inr s) (\<lambda>s.
           if bufferCount s < KB_BUFFER_SIZE then PS2_KB_HANDLER s else Inr s)
      else Inr s)"

definition PS2_IRQ_HANDLER :: "keyboard \<Rightarrow> fault + keyboard" where
  "PS2_IRQ_HANDLER s =
     (let (b, s) = inb64 s in
      if b AND 0x01 = 0 then Inr s
      else let (scancode, s) = inb60 s
        in bindE (PS2_KB_HANDLER s) (\<lambda>s. Inr (kb_outb 0x20 0x20 s)))"

lemma map_lengths: "length keyboard_map = 128" "length keyboard_shift_map = 128"
  by (simp_all add: keyboard_map_def keyboard_shift_map_def)

section \<open>The ring buffer\<close>

definition kb_inv :: "keyboard \<Rightarrow> bool" where
  "kb_inv s \<longleftrightarrow> length (KB_BUFFER s) = 256 \<and> unat (bufferStart s) < 256 \<and> unat (bufferCount s) \<le> 256 \<and>
     unat (bufferEnd s) = (unat (bufferStart s) + unat (bufferCount s)) mod 256 \<and>
     length (input_buffer s) = 128 \<and> vga_inv (kb_screen s)"

definition kb_items :: "keyboard \<Rightarrow> string" where
  "kb_items s = map (\<lambda>i. KB_BUFFER s ! ((unat (bufferStart s) + i) mod 256)) [0..<unat (bufferCount s)]"

lemma ring_distinct:
  assumes "(a + i) mod 256 = (a + j) mod 256" "i < 256" "j < (256 :: nat)"
  shows "i = j"
proof -
  have "(int a + int i) mod 256 = (int a + int j) mod 256" using arg_cong [OF assms(1), of int] by (simp add: zmod_int)
  then have "256 dvd int i - int j" by (simp add: mod_eq_dvd_iff)
  then show ?thesis using assms(2,3) zdvd_not_zless [of "int i - int j" 256] zdvd_not_zless [of "int j - int i" 256]
    by (cases i j rule: linorder_cases) (auto simp: dvd_diff_commute)
qed

lemma unat_next: "unat (i :: u32) < 256 \<Longrightarrow> unat ((i + 1) mod KB_BUFFER_SIZE) = (unat i + 1) mod 256"
  by (simp add: KB_BUFFER_SIZE_def unat_mod unat_word_ariths)

lemma length_kb_items: "length (kb_items s) = unat (bufferCount s)"
  by (simp add: kb_items_def)

lemma kb_count_less: "bufferCount s < KB_BUFFER_SIZE \<longleftrightarrow> length (kb_items s) < 256"
  by (simp add: KB_BUFFER_SIZE_def word_less_nat_alt length_kb_items)

lemma putc_run:
  assumes "kb_inv s"
  shows "\<exists>s'. KB_PUTC c s = Inr s' \<and> kb_inv s' \<and>
    kb_items s' = (if length (kb_items s) < 256 then kb_items s @ [c] else kb_items s)"
proof (cases "bufferCount s < KB_BUFFER_SIZE")
  case True
  let ?e = "unat (bufferEnd s)" and ?st = "unat (bufferStart s)" and ?n = "unat (bufferCount s)"
  have n: "?n < 256" using True by (simp add: KB_BUFFER_SIZE_def word_less_nat_alt)
  have e: "?e = (?st + ?n) mod 256" "?e < 256" using assms by (simp_all add: kb_inv_def)
  let ?s = "s\<lparr>KB_BUFFER := (KB_BUFFER s)[?e := c], bufferEnd := (bufferEnd s + 1) mod KB_BUFFER_SIZE,
    bufferCount := bufferCount s + 1\<rparr>"
  have n1: "unat (bufferCount s + 1) = Suc ?n" using n by (simp add: unat_word_ariths)
  have "(KB_BUFFER s)[?e := c] ! ((?st + i) mod 256) = KB_BUFFER s ! ((?st + i) mod 256)" if "i < ?n" for i
  proof -
    have "?e \<noteq> (?st + i) mod 256" using ring_distinct [of ?st i ?n] that n e(1) by auto
    then show ?thesis by simp
  qed
  moreover have "(KB_BUFFER s)[?e := c] ! ((?st + ?n) mod 256) = c"
    unfolding e(1) [symmetric] using assms e(2) by (simp add: kb_inv_def)
  ultimately have "kb_items ?s = kb_items s @ [c]"
    unfolding kb_items_def by (simp add: n1)
  moreover have "kb_inv ?s"
    using assms n e unat_next [OF e(2)] by (simp add: kb_inv_def n1 mod_simps)
  moreover have "KB_PUTC c s = Inr ?s" using True assms e by (simp add: KB_PUTC_def kb_inv_def)
  ultimately show ?thesis using True kb_count_less [of s] by (intro exI [of _ ?s]) simp
next
  case False
  then show ?thesis using assms kb_count_less [of s] by (auto simp: KB_PUTC_def)
qed

lemma putc_frame:
  assumes "KB_PUTC c s = Inr s'"
  shows "shiftPressed s' = shiftPressed s \<and> e0_prefix s' = e0_prefix s \<and> port60 s' = port60 s \<and>
    reads60 s' = reads60 s"
  using assms by (auto simp: KB_PUTC_def Let_def split: if_splits)

lemma getc_run:
  assumes "kb_inv s" "kb_items s = c # cs"
  shows "\<exists>s'. PS2_KB_GETC (Suc fuel) s = Inr (c, s') \<and> kb_inv s' \<and> kb_items s' = cs \<and>
    kb_screen s' = kb_screen s \<and> input_buffer s' = input_buffer s"
proof -
  let ?st = "unat (bufferStart s)" and ?n = "unat (bufferCount s)"
  let ?s = "s\<lparr>bufferStart := (bufferStart s + 1) mod KB_BUFFER_SIZE, bufferCount := bufferCount s - 1\<rparr>"
  have n: "?n = Suc (length cs)" using arg_cong [OF assms(2), of length] by (simp add: length_kb_items)
  have st: "?st < 256" "length (KB_BUFFER s) = 256" using assms(1) by (simp_all add: kb_inv_def)
  have n1: "unat (bufferCount s - 1) = length cs" using n by (simp add: unat_sub word_le_nat_alt) 
  have c: "KB_BUFFER s ! ?st = c"
    using arg_cong [OF assms(2), of hd] st n by (simp add: kb_items_def upt_conv_Cons del: upt_Suc)
  have "kb_items ?s = cs"
    using arg_cong [OF assms(2), of tl] unat_next [OF st(1)]
    by (simp add: kb_items_def n n1 upt_conv_Cons mod_simps map_Suc_upt [symmetric] o_def del: upt_Suc)
  moreover have "kb_inv ?s" using assms(1) n n1 unat_next [OF st(1)] by (simp add: kb_inv_def mod_simps)
  moreover have "PS2_KB_GETC (Suc fuel) s = Inr (c, ?s)" using n st c by auto
  ultimately show ?thesis by (intro exI [of _ ?s]) simp
qed

text \<open>The ring buffer keeps the contract of a bounded queue.\<close>

interpretation kb: fifo kb_inv kb_items 256 KB_PUTC "PS2_KB_GETC (Suc 0)"
proof
  show "length (kb_items s) \<le> 256" if "kb_inv s" for s
    using that by (simp add: kb_inv_def length_kb_items)
  show "\<exists>s'. KB_PUTC x s = Inr s' \<and> kb_inv s' \<and>
    kb_items s' = (if length (kb_items s) < 256 then kb_items s @ [x] else kb_items s)" if "kb_inv s" for s x
    using that by (rule putc_run)
  show "\<exists>s'. PS2_KB_GETC (Suc 0) s = Inr (x, s') \<and> kb_inv s' \<and> kb_items s' = xs"
    if "kb_inv s" "kb_items s = x # xs" for s x xs
    using getc_run [OF that] by blast
qed

section \<open>From scan codes to characters\<close>

text \<open>What the keys mean, without the driver's buffers: a mode (shift held, an \<open>E0\<close> seen) and the
  characters a scan code types.  Bit 7 of a scan code says that the key was released.\<close>

definition type_key :: "u8 \<Rightarrow> bool \<times> bool \<Rightarrow> (bool \<times> bool) \<times> string" where
  "type_key sc mode =
     (let shift = fst mode; key = take_bit 7 sc; released = bit sc 7 in
      if sc = 0xE0 then ((shift, True), [])
      else if snd mode then ((shift, False), [])
      else if key = 0x2A \<or> key = 0x36 then ((\<not> released, False), [])
      else if released then (mode, [])
      else (mode, filter (\<lambda>c. c \<noteq> CHR 0x00) [(if shift then keyboard_shift_map else keyboard_map) ! unat key]))"

primrec type_text :: "bool \<times> bool \<Rightarrow> u8 list \<Rightarrow> string" where
  "type_text mode [] = []"
| "type_text mode (sc # scs) = snd (type_key sc mode) @ type_text (fst (type_key sc mode)) scs"

definition kb_mode :: "keyboard \<Rightarrow> bool \<times> bool" where
  "kb_mode s = (shiftPressed s \<noteq> 0, e0_prefix s \<noteq> 0)"

lemma scancode_bits:
  "(sc :: u8) AND 0x7F = take_bit 7 sc" "(sc :: u8) AND 0x80 = 0 \<longleftrightarrow> \<not> bit sc 7"
proof -
  have "(0x7F :: u8) = mask 7" by (simp add: mask_eq_exp_minus_1)
  then show "sc AND 0x7F = take_bit 7 sc" by (simp only: take_bit_eq_mask)
  have "sc AND 2 ^ 7 = 0 \<longleftrightarrow> \<not> bit sc 7" by (rule and_exp_eq_0_iff_not_bit)
  then show "sc AND 0x80 = 0 \<longleftrightarrow> \<not> bit sc 7" by simp
qed

lemma unpressed_bits: "\<not> bit (sc :: u8) 7 \<Longrightarrow> take_bit 7 sc = sc"
proof (rule bit_word_eqI)
  fix n assume "\<not> bit sc 7" "n < LENGTH(8)"
  then show "bit (take_bit 7 sc) n = bit sc n" by (cases "n = 7") (auto simp: bit_take_bit_iff)
qed

lemma key_small: "take_bit 7 (sc :: u8) < 128" "unat (take_bit 7 (sc :: u8)) < 128"
proof -
  show u: "unat (take_bit 7 sc) < 128"
    using take_bit_nat_less_exp [of 7 "unat sc"] by (simp add: unsigned_take_bit_eq)
  then show "take_bit 7 sc < 128" by (simp add: word_less_nat_alt)
qed

lemma kb_inv_fields:
  "kb_inv (s\<lparr>shiftPressed := x\<rparr>) = kb_inv s" "kb_inv (s\<lparr>ctrlPressed := x\<rparr>) = kb_inv s"
  "kb_inv (s\<lparr>altPressed := x\<rparr>) = kb_inv s" "kb_inv (s\<lparr>e0_prefix := x\<rparr>) = kb_inv s"
  "kb_inv (s\<lparr>reads60 := n\<rparr>) = kb_inv s" "kb_inv (s\<lparr>reads64 := n\<rparr>) = kb_inv s"
  "kb_inv (s\<lparr>written := w\<rparr>) = kb_inv s"
  by (simp_all add: kb_inv_def)

lemma kb_items_fields:
  "kb_items (s\<lparr>shiftPressed := x\<rparr>) = kb_items s" "kb_items (s\<lparr>ctrlPressed := x\<rparr>) = kb_items s"
  "kb_items (s\<lparr>altPressed := x\<rparr>) = kb_items s" "kb_items (s\<lparr>e0_prefix := x\<rparr>) = kb_items s"
  "kb_items (s\<lparr>reads60 := n\<rparr>) = kb_items s" "kb_items (s\<lparr>reads64 := n\<rparr>) = kb_items s"
  "kb_items (s\<lparr>written := w\<rparr>) = kb_items s" "kb_items (s\<lparr>kb_screen := v\<rparr>) = kb_items s"
  "kb_items (s\<lparr>input_buffer := l\<rparr>) = kb_items s"
  by (simp_all add: kb_items_def)

lemmas kb_fields = kb_inv_fields kb_items_fields

lemma on_kb_screen_run:
  assumes "kb_inv s" "\<exists>v. f (kb_screen s) = Inr v \<and> vga_inv v"
  shows "\<exists>v. on_kb_screen f s = Inr (s\<lparr>kb_screen := v\<rparr>) \<and> kb_inv (s\<lparr>kb_screen := v\<rparr>)"
  using assms by (auto simp: on_kb_screen_def kb_inv_def)

lemma scrolls_run:
  assumes "vga_inv v"
  shows "\<exists>v'. vga_set_scroll_offset k v = Inr v' \<and> vga_inv v'"
    "\<exists>v'. vga_scroll_up v = Inr v' \<and> vga_inv v'" "\<exists>v'. vga_scroll_down v = Inr v' \<and> vga_inv v'"
proof -
  have set: "\<exists>v'. vga_set_scroll_offset k v = Inr v' \<and> vga_inv v'" for k
    using set_offset_run [OF assms, of k] by blast
  then show "\<exists>v'. vga_set_scroll_offset k v = Inr v' \<and> vga_inv v'" .
  have r: "0 \<le> scroll_offset v" "scroll_offset v \<le> vga_get_scroll_max v" using assms by (simp_all add: vga_inv_def)
  have "vga_scroll_up v = Inr v \<or> vga_scroll_up v = vga_set_scroll_offset (scroll_offset v + 1) v"
    using r by (simp add: vga_scroll_up_def vga_set_scroll_offset_def vga_get_scroll_max_def Let_def)
  then show "\<exists>v'. vga_scroll_up v = Inr v' \<and> vga_inv v'" using set assms by auto
  have "vga_scroll_down v = Inr v \<or> vga_scroll_down v = vga_set_scroll_offset (scroll_offset v - 1) v"
    using r by (auto simp: vga_scroll_down_def vga_set_scroll_offset_def vga_get_scroll_max_def Let_def split: if_splits)
  then show "\<exists>v'. vga_scroll_down v = Inr v' \<and> vga_inv v'" using set assms by auto
qed

lemma extended_run:
  assumes "kb_inv s"
  shows "\<exists>v. kb_extended k s = Inr (s\<lparr>kb_screen := v\<rparr>) \<and> kb_inv (s\<lparr>kb_screen := v\<rparr>)"
proof -
  have v: "vga_inv (kb_screen s)" using assms by (simp add: kb_inv_def)
  have "\<exists>v. Inr s = (Inr (s\<lparr>kb_screen := v\<rparr>) :: fault + keyboard) \<and> kb_inv (s\<lparr>kb_screen := v\<rparr>)"
    using assms by (intro exI [of _ "kb_screen s"]) simp
  moreover have "\<exists>v. on_kb_screen f s = Inr (s\<lparr>kb_screen := v\<rparr>) \<and> kb_inv (s\<lparr>kb_screen := v\<rparr>)"
    if "f = vga_scroll_up \<or> f = vga_scroll_down \<or> f = vga_set_scroll_offset k" for f k
    using that scrolls_run [OF v] by (intro on_kb_screen_run [OF assms]) auto
  ultimately show ?thesis unfolding kb_extended_def by auto
qed

text \<open>One interrupt: the handler returns and does what \<open>type_key\<close> says.\<close>

lemma handler_run:
  assumes "kb_inv s"
  defines "r \<equiv> type_key (port60 s (reads60 s)) (kb_mode s)"
  shows "\<exists>s'. PS2_KB_HANDLER s = Inr s' \<and> kb_inv s' \<and> kb_items s' = take 256 (kb_items s @ snd r) \<and>
    kb_mode s' = fst r \<and> port60 s' = port60 s \<and> reads60 s' = reads60 s + 1"
proof -
  let ?sc = "port60 s (reads60 s)" and ?s = "s\<lparr>reads60 := reads60 s + 1\<rparr>"
  note defs = r_def PS2_KB_HANDLER_def inb60_def type_key_def kb_mode_def Let_def E0_ESCAPE_def KEY_RELEASED_def
    scancode_bits kb_fields
  have i: "kb_inv ?s" and full: "take 256 (kb_items s) = kb_items s"
    using assms(1) kb.items_cap [of s] by (simp_all add: kb_fields)
  consider (e0) "?sc = 0xE0" | (ext) "?sc \<noteq> 0xE0" "e0_prefix s \<noteq> 0" | (up) "?sc \<noteq> 0xE0" "e0_prefix s = 0" "bit ?sc 7"
    | (down) "?sc \<noteq> 0xE0" "e0_prefix s = 0" "\<not> bit ?sc 7" by blast
  then show ?thesis
  proof cases
    case e0
    then show ?thesis using assms(1) full by (simp add: defs)
  next
    case ext
    obtain v where v: "kb_extended (take_bit 7 ?sc) ?s = Inr (?s\<lparr>kb_screen := v\<rparr>)" "kb_inv (?s\<lparr>kb_screen := v\<rparr>)"
      using extended_run [OF i] by blast
    show ?thesis using ext v assms(1) full by (auto simp: defs)
  next
    case up
    then show ?thesis using assms(1) full by (simp add: defs kb_release_def)
  next
    case down
    note sc = unpressed_bits [OF down(3)]
    have l: "?sc < 128" using key_small(1) [of ?sc] sc by simp
    let ?c = "(if shiftPressed s \<noteq> 0 then keyboard_shift_map else keyboard_map) ! unat ?sc"
    have z: "?sc = 0x1D \<or> ?sc = 0x38 \<Longrightarrow> ?c = CHR 0x00"
      by (auto simp: keyboard_map_def keyboard_shift_map_def)
    obtain t where t: "KB_PUTC ?c ?s = Inr t" "kb_inv t" "kb_items t = take 256 (kb_items ?s @ [?c])"
      using kb.put_take [OF i] by blast
    note f = putc_frame [OF t(1)]
    show ?thesis
    proof (cases "?c = CHR 0x00")
      case True
      show ?thesis using down assms(1) full True l by (simp add: defs kb_press_def sc)
    next
      case False
      then have n: "?sc \<noteq> 0x1D" "?sc \<noteq> 0x38" using z by blast+
      show ?thesis
      proof (cases "?sc = 0x2A \<or> ?sc = 0x36")
        case True
        then show ?thesis using down(2) assms(1) full by (elim disjE) (simp_all add: defs kb_press_def)
      next
        case other: False
        have run: "PS2_KB_HANDLER s = Inr t"
          using down n l other t(1) False by (simp add: defs kb_press_def sc)
        have "r = (kb_mode s, [?c])"
          using down other False by (simp add: r_def type_key_def kb_mode_def sc)
        then show ?thesis unfolding run using t(2,3) f by (simp add: kb_fields kb_mode_def)
      qed
    qed
  qed
qed

lemma handlers_run:
  "kb_inv s \<Longrightarrow> \<exists>s'. foldE (\<lambda>_. PS2_KB_HANDLER) [m..<m + n] s = Inr s' \<and> kb_inv s' \<and>
    kb_items s' = take 256 (kb_items s @ type_text (kb_mode s) (map (port60 s) [reads60 s..<reads60 s + n]))"
proof (induction n arbitrary: s m)
  case 0
  then show ?case using kb.items_cap by simp
next
  case (Suc n)
  let ?r = "type_key (port60 s (reads60 s)) (kb_mode s)"
  obtain t where t: "PS2_KB_HANDLER s = Inr t" "kb_inv t" "kb_items t = take 256 (kb_items s @ snd ?r)"
      "kb_mode t = fst ?r" "port60 t = port60 s" "reads60 t = reads60 s + 1"
    using handler_run [OF Suc.prems] by blast
  obtain u where u: "foldE (\<lambda>_. PS2_KB_HANDLER) [Suc m..<Suc m + n] t = Inr u" "kb_inv u"
      "kb_items u = take 256 (kb_items t @ type_text (kb_mode t) (map (port60 t) [reads60 t..<reads60 t + n]))"
    using Suc.IH [OF t(2)] by blast
  have tt: "take 256 (take 256 ys @ zs) = take 256 (ys @ zs)" for ys zs :: string
    by (cases "length ys \<le> 256") auto
  have "kb_items u = take 256 ((kb_items s @ snd ?r) @ type_text (fst ?r) (map (port60 s) [Suc (reads60 s)..<Suc (reads60 s) + n]))"
    unfolding u(3) t(3) tt t(4-6) by simp
  then have "kb_items u = take 256 (kb_items s @ type_text (kb_mode s) (map (port60 s) [reads60 s..<reads60 s + Suc n]))"
    by (simp add: upt_conv_Cons del: upt_Suc take_append)
  moreover have "[m..<m + Suc n] = m # [Suc m..<Suc m + n]" by (simp add: upt_conv_Cons del: upt_Suc)
  ultimately show ?case using t(1) u(1,2) by simp
qed

section \<open>Line editing\<close>

text \<open>The line that a text edits: what was typed up to the line feed, with backspace taking back one
  character, and the text after the line feed.\<close>

primrec edit_line :: "string \<Rightarrow> string \<Rightarrow> (string \<times> string) option" where
  "edit_line line [] = None"
| "edit_line line (c # cs) =
     (if c = LF then Some (line, cs)
      else if c = CHR 0x08 then edit_line (butlast line) cs
      else if length line < 127 \<and> (of_char c :: nat) \<in> {32..126} then edit_line (line @ [c]) cs
      else edit_line line cs)"

definition line_inv :: "keyboard \<Rightarrow> string \<Rightarrow> u32 \<Rightarrow> keyboard \<Rightarrow> bool" where
  "line_inv s0 line pos s \<longleftrightarrow> kb_inv s \<and> length line \<le> 127 \<and> unat pos = length line \<and>
     take (length line) (input_buffer s) = line \<and>
     (\<forall>i < 128. input_buffer s ! i = CHR 0x00 \<longrightarrow> input_buffer s0 ! i = CHR 0x00)"

lemma echo_run:
  assumes "kb_inv s"
  shows "\<exists>v. on_kb_screen (vga_char c) s = Inr (s\<lparr>kb_screen := v\<rparr>) \<and> kb_inv (s\<lparr>kb_screen := v\<rparr>)"
proof -
  have "vga_inv (kb_screen s)" using assms by (simp add: kb_inv_def)
  from vga_char_run [OF this] show ?thesis by (intro on_kb_screen_run [OF assms]) blast
qed

lemma take_store: "n < length xs \<Longrightarrow> take (Suc n) (xs[n := c]) = take n xs @ [c]"
  by (simp add: take_Suc_conv_app_nth)

lemma store_run:
  assumes "line_inv s0 line pos s" "c \<noteq> CHR 0x00"
  shows "\<exists>v. on_kb_screen (vga_char c) (s\<lparr>input_buffer := (input_buffer s)[unat pos := c]\<rparr>) =
      Inr (s\<lparr>input_buffer := (input_buffer s)[unat pos := c], kb_screen := v\<rparr>) \<and>
    kb_inv (s\<lparr>input_buffer := (input_buffer s)[unat pos := c], kb_screen := v\<rparr>)" (is "\<exists>v. ?R v")
    "take (Suc (length line)) ((input_buffer s)[unat pos := c]) = line @ [c]"
    "\<forall>i < 128. (input_buffer s)[unat pos := c] ! i = CHR 0x00 \<longrightarrow> input_buffer s0 ! i = CHR 0x00"
proof -
  let ?s = "s\<lparr>input_buffer := (input_buffer s)[unat pos := c]\<rparr>"
  have "kb_inv ?s" using assms(1) by (simp add: line_inv_def kb_inv_def)
  from echo_run [OF this, of c] show "\<exists>v. ?R v" by simp
  have l: "length (input_buffer s) = 128" using assms(1) by (simp add: line_inv_def kb_inv_def)
  then show "take (Suc (length line)) ((input_buffer s)[unat pos := c]) = line @ [c]"
    using assms(1) take_store [of "length line" "input_buffer s" c] by (simp add: line_inv_def)
  show "\<forall>i < 128. (input_buffer s)[unat pos := c] ! i = CHR 0x00 \<longrightarrow> input_buffer s0 ! i = CHR 0x00"
    using assms l by (simp add: line_inv_def nth_list_update)
qed

lemma step_done:
  assumes "line_inv s0 line pos s"
  shows "\<exists>s'. read_ln_step LF pos s = Inr (True, pos, s') \<and> kb_inv s' \<and> kb_items s' = kb_items s \<and>
    take (Suc (length line)) (input_buffer s') = line @ [LF] \<and>
    (\<forall>i < 128. input_buffer s' ! i = CHR 0x00 \<longrightarrow> input_buffer s0 ! i = CHR 0x00)"
proof -
  have "LF \<noteq> CHR 0x00" by (simp add: LF_def)
  note st = store_run [OF assms this]
  obtain v where v: "on_kb_screen (vga_char LF) (s\<lparr>input_buffer := (input_buffer s)[unat pos := LF]\<rparr>) =
      Inr (s\<lparr>input_buffer := (input_buffer s)[unat pos := LF], kb_screen := v\<rparr>)"
    "kb_inv (s\<lparr>input_buffer := (input_buffer s)[unat pos := LF], kb_screen := v\<rparr>)" using st(1) by blast
  have "unat pos < length (input_buffer s)" using assms by (simp add: line_inv_def kb_inv_def)
  then show ?thesis using v st(2,3) by (simp add: read_ln_step_def kb_fields)
qed

lemma step_char:
  assumes "line_inv s0 line pos s" "c \<noteq> LF" "c \<noteq> CHR 0x08" "length line < 127" "(of_char c :: nat) \<in> {32..126}"
  shows "\<exists>s'. read_ln_step c pos s = Inr (False, pos + 1, s') \<and> kb_items s' = kb_items s \<and>
    line_inv s0 (line @ [c]) (pos + 1) s'"
proof -
  have "c \<noteq> CHR 0x00" using assms(5) by auto
  note st = store_run [OF assms(1) this]
  obtain v where v: "on_kb_screen (vga_char c) (s\<lparr>input_buffer := (input_buffer s)[unat pos := c]\<rparr>) =
      Inr (s\<lparr>input_buffer := (input_buffer s)[unat pos := c], kb_screen := v\<rparr>)"
    "kb_inv (s\<lparr>input_buffer := (input_buffer s)[unat pos := c], kb_screen := v\<rparr>)" using st(1) by blast
  have p: "unat pos = length line" "unat pos < length (input_buffer s)"
    using assms(1) by (simp_all add: line_inv_def kb_inv_def)
  then have "pos < INPUT_KB_BUFFER - 1" "unat (pos + 1) = Suc (length line)"
    using assms(4) by (simp_all add: INPUT_KB_BUFFER_def word_less_nat_alt unat_word_ariths)
  then show ?thesis
    using v st(2,3) p assms by (simp add: read_ln_step_def kb_fields line_inv_def)
qed

lemma step_back:
  assumes "line_inv s0 line pos s"
  shows "\<exists>s' pos'. read_ln_step (CHR 0x08) pos s = Inr (False, pos', s') \<and> kb_items s' = kb_items s \<and>
    line_inv s0 (butlast line) pos' s'"
proof (cases "pos = 0")
  case True
  then have "line = []" using assms by (simp add: line_inv_def)
  then show ?thesis using True assms by (simp add: read_ln_step_def LF_def)
next
  case False
  have i: "kb_inv s" using assms by (simp add: line_inv_def)
  obtain v where v: "on_kb_screen (vga_char (CHR 0x08)) s = Inr (s\<lparr>kb_screen := v\<rparr>)" "kb_inv (s\<lparr>kb_screen := v\<rparr>)"
    using echo_run [OF i] by blast
  obtain w where w: "on_kb_screen (vga_char (CHR '' '')) (s\<lparr>kb_screen := v\<rparr>) = Inr (s\<lparr>kb_screen := w\<rparr>)"
      "kb_inv (s\<lparr>kb_screen := w\<rparr>)"
    using echo_run [OF v(2)] by auto
  obtain x where x: "on_kb_screen (vga_char (CHR 0x08)) (s\<lparr>kb_screen := w\<rparr>) = Inr (s\<lparr>kb_screen := x\<rparr>)"
      "kb_inv (s\<lparr>kb_screen := x\<rparr>)"
    using echo_run [OF w(2)] by auto
  have run: "read_ln_step (CHR 0x08) pos s = Inr (False, pos - 1, s\<lparr>kb_screen := x\<rparr>)"
    using False v(1) w(1) x(1) by (simp add: read_ln_step_def LF_def word_neq_0_conv)
  have "unat (pos - 1) = length line - 1"
    using assms unat_minus_one [OF False] by (simp add: line_inv_def)
  moreover have "take (length line - 1) (input_buffer s) = butlast line"
    using assms butlast_take [of "length line" "input_buffer s"] by (simp add: line_inv_def kb_inv_def)
  ultimately show ?thesis using run x(2) assms by (auto simp: line_inv_def kb_fields)
qed

lemma step_other:
  assumes "line_inv s0 line pos s" "c \<noteq> LF" "c \<noteq> CHR 0x08" "\<not> (length line < 127 \<and> (of_char c :: nat) \<in> {32..126})"
  shows "read_ln_step c pos s = Inr (False, pos, s)"
proof -
  have "pos < INPUT_KB_BUFFER - 1 \<longleftrightarrow> length line < 127"
    using assms(1) by (simp add: INPUT_KB_BUFFER_def word_less_nat_alt line_inv_def)
  then show ?thesis using assms(2-) unfolding read_ln_step_def by auto
qed

lemma read_ln_run:
  assumes "line_inv s0 line pos s" "edit_line line (kb_items s) = Some (line', rest)" "length (kb_items s) < fuel"
  shows "\<exists>s'. read_ln_loop fuel pos s = Inr s' \<and> kb_inv s' \<and> kb_items s' = rest \<and>
    take (Suc (length line')) (input_buffer s') = line' @ [LF] \<and>
    (\<forall>i < 128. input_buffer s' ! i = CHR 0x00 \<longrightarrow> input_buffer s0 ! i = CHR 0x00)"
  using assms
proof (induction "kb_items s" arbitrary: line pos s fuel)
  case Nil
  then show ?case by (metis edit_line.simps(1) option.distinct(1))
next
  case (Cons c cs)
  note items = Cons.hyps(2) [symmetric]
  obtain f where f: "fuel = Suc (Suc f)" using Cons.prems(3) items by (cases fuel; cases "fuel - 1") auto
  have i: "kb_inv s" using Cons.prems(1) by (simp add: line_inv_def)
  obtain t where t: "PS2_KB_GETC (Suc f) s = Inr (c, t)" "kb_inv t" "kb_items t = cs"
      "kb_screen t = kb_screen s" "input_buffer t = input_buffer s"
    using getc_run [OF i items] by blast
  have l: "line_inv s0 line pos t" using Cons.prems(1) t(2,5) by (simp add: line_inv_def)
  have less: "length cs < Suc f" using Cons.prems(3) unfolding items f by simp
  have run: "read_ln_loop fuel pos s = bindE (read_ln_step c pos t)
      (\<lambda>(done, pos, s). if done then Inr s else read_ln_loop (Suc f) pos s)"
    unfolding f by (simp only: read_ln_loop.simps t(1) bindE_simps prod.case)
  have e: "edit_line line (c # cs) = Some (line', rest)" using Cons.prems(2) unfolding items .
  have go: ?case if st: "read_ln_step c pos t = Inr (False, pos', u)" "kb_items u = cs" "line_inv s0 l' pos' u"
    and e': "edit_line l' cs = Some (line', rest)" for pos' u l'
    using Cons.hyps(1) [OF st(2) [symmetric] st(3), of "Suc f"] e' less unfolding run st(1) st(2) by simp
  consider "c = LF" | "c = CHR 0x08" "c \<noteq> LF" | "c \<noteq> LF" "c \<noteq> CHR 0x08" "length line < 127 \<and> (of_char c :: nat) \<in> {32..126}"
    | "c \<noteq> LF" "c \<noteq> CHR 0x08" "\<not> (length line < 127 \<and> (of_char c :: nat) \<in> {32..126})" by blast
  then show ?case
  proof cases
    case 1
    then show ?thesis using step_done [OF l] e t(3) unfolding run by auto
  next
    case 2
    obtain u pos' where "read_ln_step c pos t = Inr (False, pos', u)" "kb_items u = cs" "line_inv s0 (butlast line) pos' u"
      using step_back [OF l] t(3) 2(1) by auto
    then show ?thesis by (rule go) (use 2 e in simp)
  next
    case 3
    obtain u where "read_ln_step c pos t = Inr (False, pos + 1, u)" "kb_items u = cs" "line_inv s0 (line @ [c]) (pos + 1) u"
      using step_char [OF l 3(1,2)] 3(3) t(3) by auto
    then show ?thesis by (rule go) (use 3 e in simp)
  next
    case 4
    show ?thesis by (rule go [OF step_other [OF l 4] t(3) l]) (use 4 e in \<open>simp split: if_splits\<close>)
  qed
qed

section \<open>Properties\<close>

definition sample_keyboard :: keyboard where
  "sample_keyboard = \<lparr>kb_screen = sample_vga, port60 = (\<lambda>i. [0x2A, 0x23, 0xAA, 0x17, 0x0E, 0x1C] ! (i mod 6)),
     reads60 = 0, port64 = (\<lambda>_. 1), reads64 = 0, written = [], altPressed = 0, shiftPressed = 0,
     ctrlPressed = 0, e0_prefix = 0, KB_BUFFER = replicate 256 (CHR 0x00), bufferStart = 254,
     bufferEnd = 254, bufferCount = 0, input_buffer = replicate 128 (CHR 0x00), debug_count = 0\<rparr>"

lemma sample_keyboard_inv: "kb_inv sample_keyboard" "kb_items sample_keyboard = []"
    "kb_mode sample_keyboard = (False, False)"
  by (simp_all add: kb_inv_def kb_items_def kb_mode_def sample_keyboard_def sample_vga_inv)

text \<open>
  The keyboard's buffer is a bounded queue: characters put from the interrupt handler come out of
  \<open>PS2_KB_GETC\<close> in the order they were put, across the wrap of the indices, and only those that find
  256 characters waiting are dropped.
\<close>

lemma kb_fifo:
  assumes "kb_inv s" "n \<le> length (kb_items s @ cs)" "n \<le> 256"
  shows "\<exists>s1 s2. put_all KB_PUTC cs s = Inr s1 \<and>
    get_many (PS2_KB_GETC (Suc 0)) n s1 = Inr (take n (kb_items s @ cs), s2) \<and>
    kb_inv s2 \<and> kb_items s2 = drop n (take 256 (kb_items s @ cs))"
  using assms by (rule kb.put_then_get)

text \<open>
  C32. The interrupt handler types what the scan codes mean: after \<open>n\<close> interrupts the buffer has been
  appended the text of the next \<open>n\<close> scan codes (shift held or not, releases and \<open>E0\<close> keys typing
  nothing), up to its 256 characters, whatever the keys do to the screen.
\<close>

theorem keyboard_types:
  assumes "kb_inv s"
  shows "\<exists>s'. foldE (\<lambda>_. PS2_KB_HANDLER) [0..<n] s = Inr s' \<and> kb_inv s' \<and>
    kb_items s' = take 256 (kb_items s @ type_text (kb_mode s) (map (port60 s) [reads60 s..<reads60 s + n]))"
  using handlers_run [OF assms, of 0 n] by simp

theorem keyboard_types_witness:
  "\<exists>s'. foldE (\<lambda>_. PS2_KB_HANDLER) [0..<6] sample_keyboard = Inr s' \<and> kb_items s' = ''Hi'' @ [CHR 0x08, LF]"
proof -
  have "type_text (False, False) [0x2A, 0x23, 0xAA, 0x17, 0x0E, 0x1C] = ''Hi'' @ [CHR 0x08, LF]"
    by code_simp
  moreover have "map (port60 sample_keyboard) [reads60 sample_keyboard..<reads60 sample_keyboard + 6] =
      [0x2A, 0x23, 0xAA, 0x17, 0x0E, 0x1C]"
    by (simp add: sample_keyboard_def upt_rec)
  ultimately show ?thesis
    using keyboard_types [OF sample_keyboard_inv(1), of 6] by (auto simp: sample_keyboard_inv)
qed

text \<open>
  C33. \<open>PS2_KB_READ_LN\<close> returns as soon as the buffered characters hold a line feed, with the edited
  line (backspaces applied, at most 127 printable characters) and the line feed at the start of its
  buffer and the characters after it left for the next call; but it stores no NUL, so the string
  does not end there unless the buffer held a NUL already.
\<close>

theorem read_ln_edits:
  assumes "kb_inv s" "edit_line [] (kb_items s) = Some (line, rest)" "length (kb_items s) < fuel"
  shows "\<exists>s'. PS2_KB_READ_LN fuel s = Inr s' \<and> kb_inv s' \<and> kb_items s' = rest \<and>
    take (Suc (length line)) (input_buffer s') = line @ [LF] \<and>
    (\<forall>i < 128. input_buffer s' ! i = CHR 0x00 \<longrightarrow> input_buffer s ! i = CHR 0x00)"
proof -
  have "line_inv s [] 0 s" using assms(1) by (simp add: line_inv_def)
  from read_ln_run [OF this assms(2,3)] show ?thesis by (simp add: PS2_KB_READ_LN_def)
qed

definition typed_keyboard :: keyboard where
  "typed_keyboard = sample_keyboard\<lparr>KB_BUFFER := ''p'' @ [LF, CHR ''?''] @ replicate 251 (CHR 0x00) @ ''lx'',
     bufferEnd := 3, bufferCount := 5\<rparr>"

theorem read_ln_edits_witness:
  "\<exists>s'. PS2_KB_READ_LN 9 typed_keyboard = Inr s' \<and> take 4 (input_buffer s') = ''lxp'' @ [LF] \<and> kb_items s' = ''?''"
proof -
  have i: "kb_inv typed_keyboard"
    by (simp add: kb_inv_def typed_keyboard_def sample_keyboard_def sample_vga_inv)
  have k: "kb_items typed_keyboard = ''lxp'' @ [LF, CHR ''?'']"
    by (simp add: kb_items_def typed_keyboard_def sample_keyboard_def upt_rec nth_append)
  have "edit_line [] (''lxp'' @ [LF, CHR ''?'']) = Some (''lxp'', ''?'')" by code_simp
  then have e: "edit_line [] (kb_items typed_keyboard) = Some (''lxp'', ''?'')" unfolding k .
  have "length (kb_items typed_keyboard) < 9" unfolding k by simp
  from read_ln_edits [OF i e this] show ?thesis by (auto simp: numeral_eq_Suc)
qed

text \<open>
  \<open>PS2_IRQ_HANDLER\<close> loses every other key: it reads the data port itself before it calls
  \<open>PS2_KB_HANDLER\<close>, which reads the port again, so the first of the two bytes types nothing and the
  state machine advances on the second.
\<close>

lemma irq_handler_drops:
  assumes "kb_inv s" "bit (port64 s (reads64 s)) 0"
  shows "\<exists>s'. PS2_IRQ_HANDLER s = Inr s' \<and> kb_inv s' \<and> reads60 s' = reads60 s + 2 \<and>
    kb_items s' = take 256 (kb_items s @ snd (type_key (port60 s (reads60 s + 1)) (kb_mode s)))"
proof -
  let ?s = "s\<lparr>reads64 := reads64 s + 1, reads60 := reads60 s + 1\<rparr>"
  have "port64 s (reads64 s) AND 1 \<noteq> 0" using assms(2) and_exp_eq_0_iff_not_bit [of "port64 s (reads64 s)" 0] by simp
  then have run: "PS2_IRQ_HANDLER s = bindE (PS2_KB_HANDLER ?s) (\<lambda>s. Inr (kb_outb 0x20 0x20 s))"
    by (simp add: PS2_IRQ_HANDLER_def inb64_def inb60_def)
  have "kb_inv ?s" using assms(1) by (simp add: kb_fields)
  from handler_run [OF this] show ?thesis unfolding run by (auto simp: kb_outb_def kb_fields kb_mode_def)
qed

end
