(* ===== verification/Old_Kernel.thy ===== *)
theory Old_Kernel
  imports Old_VMM Old_Heap_Run Keyboard IDT
begin

text \<open>
  \<open>old/KERNEL.c\<close>: the entry of the old kernel, and \<open>PS2_KB_INSTALL\<close> of \<open>old/Include/PS2KB.c\<close>, which
  needs three components.  The state of the old kernel puts the components side by side over one
  processor: the variables of each manager, and the keyboard driver with the screen.  An operation of
  one component runs on the processor and its own variables, and what it prints appears on the
  screen, in that order.

  The variables themselves, the interrupt table and the screen memory lie below 4 MiB, where paging
  changes nothing, and are not read through the page tables here.
\<close>

section \<open>State and operations\<close>

record old_kernel =
  core :: cpu
  pmm_part :: "unit old_pmm_ext"
  heap_part :: "unit old_heap_ext"
  intr_part :: "unit old_intr_ext"
  kbd :: keyboard
  interrupt_flag :: bool

text \<open>What the linker and the boot loader fix: the code segment, the handlers of
  \<open>INTERRUPTS.asm\<close> and the address of the interrupt table.\<close>

record old_link =
  code_segment :: u16
  safe_irq_handler_asm :: u32
  ps2_irq_handler_asm :: u32
  old_idt_at :: u32

definition show_event :: "event \<Rightarrow> keyboard \<Rightarrow> fault + keyboard" where
  "show_event e s =
     (case e of
        Vga_Init \<Rightarrow> on_kb_screen vga_init s
      | Vga_Print str \<Rightarrow> on_kb_screen (vga_print str) s
      | Vga_Char c \<Rightarrow> on_kb_screen (vga_char c) s
      | _ \<Rightarrow> Inr s)"

definition run_part :: "(old_kernel \<Rightarrow> 'a) \<Rightarrow> ('a \<Rightarrow> old_kernel \<Rightarrow> old_kernel) \<Rightarrow>
    ('a cpu_scheme \<Rightarrow> fault + 'a cpu_scheme) \<Rightarrow> old_kernel \<Rightarrow> fault + old_kernel" where
  "run_part get_part put_part f k =
     bindE (f (cpu.extend (core k) (get_part k))) (\<lambda>s.
     bindE (foldE show_event (drop (length (trace (core k))) (trace s)) (kbd k)) (\<lambda>kb.
     Inr (put_part (cpu.more s) (k\<lparr>core := cpu.truncate s, kbd := kb\<rparr>))))"

definition on_core :: "(cpu \<Rightarrow> fault + cpu) \<Rightarrow> old_kernel \<Rightarrow> fault + old_kernel" where
  "on_core = run_part (\<lambda>k. ()) (\<lambda>u k. k)"

definition on_pmm :: "(old_pmm \<Rightarrow> fault + old_pmm) \<Rightarrow> old_kernel \<Rightarrow> fault + old_kernel" where
  "on_pmm = run_part pmm_part (\<lambda>p k. k\<lparr>pmm_part := p\<rparr>)"

definition on_heap :: "(old_heap \<Rightarrow> fault + old_heap) \<Rightarrow> old_kernel \<Rightarrow> fault + old_kernel" where
  "on_heap = run_part heap_part (\<lambda>h k. k\<lparr>heap_part := h\<rparr>)"

definition on_intr :: "(old_intr \<Rightarrow> fault + old_intr) \<Rightarrow> old_kernel \<Rightarrow> fault + old_kernel" where
  "on_intr = run_part intr_part (\<lambda>i k. k\<lparr>intr_part := i\<rparr>)"

definition prints_all :: "string list \<Rightarrow> old_kernel \<Rightarrow> fault + old_kernel" where
  "prints_all ms = on_core (\<lambda>s. Inr (fold (\<lambda>m. emit (Vga_Print m)) ms s))"

definition IRQ1 :: int where "IRQ1 = 1"

definition PS2_KB_INSTALL :: "nat \<Rightarrow> old_link \<Rightarrow> (u16 \<Rightarrow> u8) \<Rightarrow> old_kernel \<Rightarrow> fault + old_kernel" where
  "PS2_KB_INSTALL fuel l inp k =
     bindE (PS2_KB_INIT fuel (kbd k)) (\<lambda>kb. let k = k\<lparr>kbd := kb\<rparr> in
     bindE (on_intr (idt_set_gate (code_segment l) 0x21 (ps2_irq_handler_asm l)) k) (\<lambda>k.
     bindE (on_core (pic_enable_irq inp IRQ1) k) (\<lambda>k.
     prints_all [''[PS2] IRQ handler installed'' @ [LF]] k)))"

definition detect_memory_simple :: u32 where
  "detect_memory_simple = 512 * 1024 * 1024"

text \<open>The selectors as the processor has them: CS, DS, ES, FS, GS and SS.\<close>

definition check_gdt_selectors :: "u16 \<Rightarrow> u16 \<Rightarrow> u16 \<Rightarrow> u16 \<Rightarrow> u16 \<Rightarrow> u16 \<Rightarrow> 'a cpu_scheme \<Rightarrow> 'a cpu_scheme" where
  "check_gdt_selectors cs ds es fs gs ss s =
     fold (\<lambda>(name, sel) s. emit (Vga_Print [LF]) (print_hex (ucast sel) (emit (Vga_Print name) s)))
       [(''CS: 0x'', cs), (''DS: 0x'', ds), (''ES: 0x'', es), (''FS: 0x'', fs), (''GS: 0x'', gs), (''SS: 0x'', ss)]
       (emit (Vga_Print ([LF] @ ''[GDT] Current selectors:'' @ [LF])) s)"

text \<open>\<open>kernel_main\<close> up to its endless loop; \<open>cli\<close> and \<open>sti\<close> set the interrupt flag.\<close>

definition kernel_main :: "nat \<Rightarrow> old_link \<Rightarrow> (u16 \<Rightarrow> u8) \<Rightarrow> old_kernel \<Rightarrow> fault + old_kernel" where
  "kernel_main fuel l inp k =
     bindE (on_core (\<lambda>s. Inr (emit Vga_Init s)) k) (\<lambda>k.
     bindE (prints_all [''Core86 - IRQ MODE'' @ [LF, LF]] k) (\<lambda>k.
     let k = k\<lparr>interrupt_flag := False\<rparr>;
         total_memory = detect_memory_simple
     in bindE (on_pmm (PMM_INIT total_memory) k) (\<lambda>k.
     bindE (on_core VMM_INIT k) (\<lambda>k.
     bindE (on_heap HEAP_INIT k) (\<lambda>k.
     bindE (on_core (\<lambda>s. Inr (VMM_ENABLE_PAGING s)) k) (\<lambda>k.
     bindE (on_intr (IDT_INIT (code_segment l) (safe_irq_handler_asm l) (ps2_irq_handler_asm l) (old_idt_at l)) k) (\<lambda>k.
     bindE (on_core (\<lambda>s. Inr (pic_init s)) k) (\<lambda>k.
     bindE (PS2_KB_INSTALL fuel l inp k) (\<lambda>k.
     let k = k\<lparr>interrupt_flag := True\<rparr>
     in prints_all [[LF] @ ''=== IRQ MODE ==='' @ [LF], ''Using PS2_IRQ_HANDLER()'' @ [LF], ''Type something: ''] k)))))))))"

section \<open>Components in place\<close>

lemma vga_init_run: "\<exists>v. vga_init s = Inr v \<and> vga_inv v"
proof -
  define s0 where "s0 = s\<lparr>vga_color := vga_entry_color VGA_LIGHT_GREY VGA_BLACK, history_start := 0,
    history_count := 0, scroll_offset := 0\<rparr>"
  have "\<exists>s'. foldE (\<lambda>y. blank_row (int y)) [0..<25] s0 = Inr s' \<and> (\<lambda>_ _. True) 25 s'"
    by (rule foldE_inv [OF le0]) (simp_all add: blank_row_run)
  then obtain s1 where s1: "foldE (\<lambda>y. blank_row (int y)) [0..<25] s0 = Inr s1" by blast
  define s2 where "s2 = s1\<lparr>cursorx := 0, cursory := 0, scroll_offset := 0, history_start := 0, history_count := 0\<rparr>"
  have "vga_init s = Inr (update_cursor s2)"
    using s1 by (simp add: vga_init_def vga_clear_def Let_def vga_sizes s0_def s2_def del: upt.simps upt_Suc)
  moreover have "vga_inv s2" by (simp add: s2_def vga_inv_def log_inv_def vga_get_scroll_max_def vga_sizes)
  ultimately show ?thesis by (intro exI [of _ "update_cursor s2"]) simp
qed

lemma show_event_run:
  assumes inv: "vga_inv (kb_screen s) \<or> e = Vga_Init"
  shows "\<exists>v. show_event e s = Inr (s\<lparr>kb_screen := v\<rparr>) \<and> vga_inv v"
proof -
  have s: "s\<lparr>kb_screen := kb_screen s\<rparr> = s" by simp
  show ?thesis
  proof (cases e)
    case Vga_Init
    then show ?thesis using vga_init_run [of "kb_screen s"] by (auto simp: show_event_def on_kb_screen_def)
  next
    case (Vga_Print str)
    then show ?thesis using vga_print_run [of "kb_screen s" str] inv by (auto simp: show_event_def on_kb_screen_def)
  next
    case (Vga_Char c)
    then show ?thesis using vga_char_run [of "kb_screen s" c] inv by (auto simp: show_event_def on_kb_screen_def)
  qed (use inv in \<open>auto simp: show_event_def intro: exI [of _ "kb_screen s"]\<close>)
qed

lemma show_events_run:
  "vga_inv (kb_screen s) \<Longrightarrow> \<exists>v. foldE show_event es s = Inr (s\<lparr>kb_screen := v\<rparr>) \<and> vga_inv v"
proof (induction es arbitrary: s)
  case Nil
  then show ?case by (intro exI [of _ "kb_screen s"]) simp
next
  case (Cons e es)
  obtain v where v: "show_event e s = Inr (s\<lparr>kb_screen := v\<rparr>)" "vga_inv v"
    using show_event_run [of s e] Cons.prems by blast
  from Cons.IH [of "s\<lparr>kb_screen := v\<rparr>"] v show ?case by auto
qed

lemma run_part_run:
  assumes "f (cpu.extend (core k) (get_part k)) = Inr s" "vga_inv (kb_screen (kbd k))"
  shows "\<exists>v. run_part get_part put_part f k =
    Inr (put_part (cpu.more s) (k\<lparr>core := cpu.truncate s, kbd := (kbd k)\<lparr>kb_screen := v\<rparr>\<rparr>)) \<and> vga_inv v"
  using show_events_run [OF assms(2), of "drop (length (trace (core k))) (trace s)"] assms(1)
  by (auto simp: run_part_def)

lemmas part_runs = run_part_run [where get_part = "\<lambda>k. ()" and put_part = "\<lambda>u k. k", folded on_core_def]
  run_part_run [where get_part = pmm_part and put_part = "\<lambda>p k. k\<lparr>pmm_part := p\<rparr>", folded on_pmm_def]
  run_part_run [where get_part = heap_part and put_part = "\<lambda>h k. k\<lparr>heap_part := h\<rparr>", folded on_heap_def]
  run_part_run [where get_part = intr_part and put_part = "\<lambda>i k. k\<lparr>intr_part := i\<rparr>", folded on_intr_def]

section \<open>The keyboard controller\<close>

text \<open>
  The controller moves: within \<open>fuel\<close> reads of its status the output buffer is seen empty, and
  within \<open>fuel\<close> reads it is seen full.
\<close>

definition status_moves :: "nat \<Rightarrow> keyboard \<Rightarrow> bool" where
  "status_moves fuel s \<longleftrightarrow> (\<forall>n. (\<exists>i < fuel. port64 s (n + i) AND 1 = 0) \<and> (\<exists>i < fuel. port64 s (n + i) AND 1 \<noteq> 0))"

lemma kb_drain_run:
  "\<exists>i < fuel. port64 s (reads64 s + i) AND 1 = 0 \<Longrightarrow>
   \<exists>m n. kb_drain fuel s = Inr (s\<lparr>reads60 := m, reads64 := n\<rparr>)"
proof (induction fuel arbitrary: s)
  case (Suc fuel)
  show ?case
  proof (cases "port64 s (reads64 s) AND 1 = 0")
    case True
    then show ?thesis by (intro exI [of _ "reads60 s"] exI [of _ "reads64 s + 1"]) (simp add: inb64_def)
  next
    case False
    obtain i where i: "i < Suc fuel" "port64 s (reads64 s + i) AND 1 = 0" using Suc.prems by blast
    then obtain j where "i = Suc j" using False by (cases i) auto
    with i have "\<exists>j < fuel. port64 s (Suc (reads64 s) + j) AND 1 = 0" by auto
    with Suc.IH [of "s\<lparr>reads64 := Suc (reads64 s), reads60 := Suc (reads60 s)\<rparr>"] False show ?thesis
      by (auto simp: inb64_def inb60_def)
  qed
qed simp

lemma kb_wait_output_run:
  "\<exists>i < fuel. port64 s (reads64 s + i) AND 1 \<noteq> 0 \<Longrightarrow> \<exists>n. kb_wait_output fuel s = Inr (s\<lparr>reads64 := n\<rparr>)"
proof (induction fuel arbitrary: s)
  case (Suc fuel)
  show ?case
  proof (cases "port64 s (reads64 s) AND 1 \<noteq> 0")
    case True
    then show ?thesis by (intro exI [of _ "reads64 s + 1"]) (simp add: inb64_def)
  next
    case False
    obtain i where i: "i < Suc fuel" "port64 s (reads64 s + i) AND 1 \<noteq> 0" using Suc.prems by blast
    then obtain j where "i = Suc j" using False by (cases i) auto
    with i have "\<exists>j < fuel. port64 s (Suc (reads64 s) + j) AND 1 \<noteq> 0" by auto
    with Suc.IH [of "s\<lparr>reads64 := Suc (reads64 s)\<rparr>"] False show ?thesis
      by (auto simp: inb64_def)
  qed
qed simp

lemma kb_wait_ack_run: "\<exists>t n. kb_wait_ack timeout s = (t, s\<lparr>reads64 := n\<rparr>)"
proof (induction timeout arbitrary: s)
  case 0
  show ?case by (subst kb_wait_ack.simps) (auto simp: inb64_def)
next
  case (Suc timeout)
  from Suc [of "s\<lparr>reads64 := Suc (reads64 s)\<rparr>"] show ?case
    by (subst kb_wait_ack.simps) (auto simp: inb64_def)
qed

lemma kb_prints_run:
  assumes "vga_inv (kb_screen s)"
  shows "\<exists>v. on_kb_screen (vga_print str) s = Inr (s\<lparr>kb_screen := v\<rparr>) \<and> vga_inv v"
  using vga_print_run [OF assms, of str] by (auto simp: on_kb_screen_def)

lemma PS2_KB_INIT_run:
  assumes inv: "vga_inv (kb_screen s)" and st: "status_moves fuel s"
  shows "\<exists>v m n w. PS2_KB_INIT fuel s = Inr (s\<lparr>kb_screen := v, reads60 := m, reads64 := n, written := w\<rparr>) \<and> vga_inv v"
proof -
  obtain v where v: "on_kb_screen (vga_print (''[PS2] Initializing keyboard...'' @ [LF])) s = Inr (s\<lparr>kb_screen := v\<rparr>)"
      "vga_inv v" using kb_prints_run [OF inv] by blast
  obtain m1 n1 where d1: "kb_drain fuel (s\<lparr>kb_screen := v\<rparr>) = Inr (s\<lparr>kb_screen := v, reads60 := m1, reads64 := n1\<rparr>)"
    using kb_drain_run [of fuel "s\<lparr>kb_screen := v\<rparr>"] st by (auto simp: status_moves_def)
  define s1 where "s1 = kb_outb 0x64 0x20 (kb_outb 0x64 0xAD (s\<lparr>kb_screen := v, reads60 := m1, reads64 := n1\<rparr>))"
  have "port64 s1 = port64 s" by (simp add: s1_def kb_outb_def)
  then obtain n2 where w2: "kb_wait_output fuel s1 = Inr (s1\<lparr>reads64 := n2\<rparr>)"
    using kb_wait_output_run [of fuel s1] st by (auto simp: status_moves_def)
  obtain c s2 where c: "inb60 (s1\<lparr>reads64 := n2\<rparr>) = (c, s2)" by force
  define s3 where "s3 = kb_outb 0x64 0xAE (kb_outb 0x60 (c OR 1) (kb_outb 0x64 0x60 s2))"
  have "port64 s3 = port64 s" using c by (auto simp: s3_def s1_def kb_outb_def inb60_def)
  then obtain m3 n3 where d3: "kb_drain fuel s3 = Inr (s3\<lparr>reads60 := m3, reads64 := n3\<rparr>)"
    using kb_drain_run [of fuel s3] st by (auto simp: status_moves_def)
  obtain t n4 where a: "kb_wait_ack 100000 (kb_outb 0x60 0xF4 (s3\<lparr>reads60 := m3, reads64 := n3\<rparr>)) =
      (t, (kb_outb 0x60 0xF4 (s3\<lparr>reads60 := m3, reads64 := n3\<rparr>))\<lparr>reads64 := n4\<rparr>)"
    using kb_wait_ack_run by blast
  define s4 where "s4 = (kb_outb 0x60 0xF4 (s3\<lparr>reads60 := m3, reads64 := n3\<rparr>))\<lparr>reads64 := n4\<rparr>"
  have f: "\<exists>m w. s4 = s\<lparr>kb_screen := v, reads60 := m, reads64 := n4, written := w\<rparr>"
    using c by (intro exI [of _ "reads60 s4"] exI [of _ "written s4"], cases s)
      (auto simp: s4_def s3_def s1_def kb_outb_def inb60_def)
  define P :: "fault + keyboard \<Rightarrow> bool" where "P = (\<lambda>r. \<exists>v m n w. r = Inr (s\<lparr>kb_screen := v, reads60 := m, reads64 := n, written := w\<rparr>) \<and> vga_inv v)"
  have p: "P (bindE r (on_kb_screen (vga_print str)))" if r: "P r" for r and str
  proof -
    obtain v m n w where s': "r = Inr (s\<lparr>kb_screen := v, reads60 := m, reads64 := n, written := w\<rparr>)" "vga_inv v"
      using r by (auto simp: P_def)
    obtain v' where v': "on_kb_screen (vga_print str) (s\<lparr>kb_screen := v, reads60 := m, reads64 := n, written := w\<rparr>) =
        Inr (s\<lparr>kb_screen := v', reads60 := m, reads64 := n, written := w\<rparr>)" "vga_inv v'"
      using kb_prints_run [of "s\<lparr>kb_screen := v, reads60 := m, reads64 := n, written := w\<rparr>" str] s'(2)
      by (cases s) auto
    then show ?thesis unfolding P_def s'(1) bindE_simps by blast
  qed
  have P4: "P (Inr s4)" using f v(2) by (auto simp: P_def)
  have P5: "P (Inr (snd (inb60 s4)))" using f v(2) by (cases s) (auto simp: P_def inb60_def)
  have "P (PS2_KB_INIT fuel s)"
    unfolding PS2_KB_INIT_def v(1) d1 bindE_simps Let_def s1_def [symmetric] w2 c prod.case s3_def [symmetric] d3 a s4_def [symmetric]
    using p [OF P4] p [OF p [OF P4]] p [OF p [OF p [OF P5]]] p [OF p [OF p [OF p [OF P5]]]]
    by (cases "inb60 s4") (simp add: bindE_assoc)
  then show ?thesis by (simp add: P_def)
qed

section \<open>The steps of the boot sequence\<close>

lemma gate_run:
  "0 \<le> n \<Longrightarrow> n < int (length (old_idt s)) \<Longrightarrow>
   \<exists>t. idt_set_gate cs n h s = Inr (s\<lparr>old_idt := (old_idt s)[nat n := gate cs h], trace := trace s @ t\<rparr>) \<and>
     (n \<noteq> 0 \<longrightarrow> t = [])"
  by (cases "n = 0") (auto simp: idt_set_gate_def gate_def emit_def Let_def)

lemma IDT_INIT_run:
  "\<exists>t. IDT_INIT cs safe ps2 b s = Inr (s\<lparr>old_idt := (replicate 256 (gate cs safe))[0x21 := gate cs ps2],
     old_idtr := Some (2047, b), trace := trace s @ t\<rparr>)"
proof -
  let ?z = "\<lparr>offset_low = 0, selector = 0, zero_byte = 0, gate_type = 0, offset_high = 0\<rparr>"
  let ?s = "s\<lparr>old_idt := replicate 256 ?z\<rparr>"
  let ?I = "\<lambda>n t. \<exists>u. t = s\<lparr>old_idt := replicate n (gate cs safe) @ replicate (256 - n) ?z, trace := trace s @ u\<rparr>"
  have "?I 0 ?s" by (intro exI [of _ "[]"]) simp
  moreover have "\<exists>t'. idt_set_gate cs (int n) safe t = Inr t' \<and> ?I (Suc n) t'" if n: "n < 256" and I: "?I n t" for n t
  proof -
    obtain u where u: "t = s\<lparr>old_idt := replicate n (gate cs safe) @ replicate (256 - n) ?z, trace := trace s @ u\<rparr>"
      using I by blast
    obtain v where v: "idt_set_gate cs (int n) safe t = Inr (t\<lparr>old_idt := (old_idt t)[n := gate cs safe], trace := trace t @ v\<rparr>)"
      using gate_run [of "int n" t cs safe] n by (auto simp: u)
    have "replicate (256 - n) ?z = ?z # replicate (256 - Suc n) ?z" using n by (metis Suc_diff_Suc replicate_Suc)
    then have "(old_idt t)[n := gate cs safe] = replicate (Suc n) (gate cs safe) @ replicate (256 - Suc n) ?z"
      by (simp add: u list_update_append replicate_app_Cons_same)
    then have "t\<lparr>old_idt := (old_idt t)[n := gate cs safe], trace := trace t @ v\<rparr> =
        s\<lparr>old_idt := replicate (Suc n) (gate cs safe) @ replicate (256 - Suc n) ?z, trace := trace s @ (u @ v)\<rparr>"
      by (simp add: u)
    then show ?thesis unfolding v by blast
  qed
  ultimately have "\<exists>t. foldE (\<lambda>i s. idt_set_gate cs (int i) safe s) [0..<256] ?s = Inr t \<and> ?I 256 t"
    by (intro foldE_inv [OF le0])
  then obtain u where u: "foldE (\<lambda>i s. idt_set_gate cs (int i) safe s) [0..<256] ?s =
      Inr (s\<lparr>old_idt := replicate 256 (gate cs safe), trace := trace s @ u\<rparr>)" (is "_ = Inr ?t") by auto
  have g: "idt_set_gate cs 0x21 ps2 ?t = Inr (?t\<lparr>old_idt := (old_idt ?t)[0x21 := gate cs ps2]\<rparr>)"
    using gate_run [of "0x21" ?t cs ps2] by auto
  show ?thesis
    unfolding IDT_INIT_def Let_def u bindE_simps g
    by (intro exI [of _ "u @ [Vga_Print (''[IDT] Loaded'' @ [LF])]"]) (simp add: emit_def)
qed

lemma pics_after_quiet: "(\<And>e. e \<in> set es \<Longrightarrow> \<exists>m. e = Vga_Print m) \<Longrightarrow> pics_after es ps = ps"
  by (induction es arbitrary: ps) (fastforce simp: pics_step_def)+

lemma trace_prints: "trace (fold (\<lambda>m. emit (Vga_Print m)) ms s) = trace s @ map Vga_Print ms"
  by (induction ms arbitrary: s) simp_all

lemma prints_fields [simp]:
  "ram (fold (\<lambda>m. emit (Vga_Print m)) ms s) = ram s" "cr0 (fold (\<lambda>m. emit (Vga_Print m)) ms s) = cr0 s"
  "cr3 (fold (\<lambda>m. emit (Vga_Print m)) ms s) = cr3 s"
  by (induction ms arbitrary: s) simp_all

text \<open>The page tables survive \<open>HEAP_INIT\<close>: it writes one header, at 2 MiB.\<close>

lemma HEAP_INIT_ram:
  assumes "HEAP_INIT s = Inr s'" "\<not> paging s" "unat a \<notin> {0x200000 ..< 0x200014}"
  shows "ram s' a = ram s a"
proof -
  let ?m = "wr32 0x200010 0 (wr32 0x20000C 0 ((wr32 0x200004 0x1FFFEC (wr32 0x200000 BLOCK_MAGIC (ram s)))(0x200008 := 0)))"
  have r: "ram s' = ?m" using assms(1,2) by (auto simp: HEAP_INIT_def old_heap_consts run_simps)
  have "a \<noteq> 0x200000 + of_nat i" if "i < 20" for i
    using assms(3) that by (auto simp: unat_word_ariths unat_of_nat)
  from this [of 0] this [of 1] this [of 2] this [of 3] this [of 4] this [of 5] this [of 6] this [of 7] this [of 8]
    this [of 12] this [of 13] this [of 14] this [of 15] this [of 16] this [of 17] this [of 18] this [of 19]
  show ?thesis by (simp add: r wr32_def)
qed

lemma walk_kept:
  assumes "\<And>a. unat a \<notin> {0x200000 ..< 0x200014} \<Longrightarrow> m' a = old_tables m a" "v < 0x400000"
  shows "hw_walk m' page_directory v = Some v"
proof -
  have f: "m' a = old_tables m a" if "frame_of a = page_directory \<or> frame_of a = first_page_table" for a
  proof -
    have "frame_of a \<le> a" by (simp add: frame_of_def word_and_le2)
    then have "0x1000000 \<le> unat a"
      using that by (auto simp: word_le_nat_alt page_directory_def first_page_table_def
        PAGE_DIRECTORY_ADDRESS_def PAGE_TABLE_ADDRESS_def)
    then show ?thesis by (intro assms(1)) simp
  qed
  have pd: "rd32 m' (cell page_directory (pd_index v)) = rd32 (old_tables m) (cell page_directory (pd_index v))"
    by (rule rd32_frame_cong) (simp_all add: index_less f)
  have pt: "rd32 m' (cell first_page_table (pt_index v)) = rd32 (old_tables m) (cell first_page_table (pt_index v))"
    by (rule rd32_frame_cong) (simp_all add: index_less f)
  have z: "pd_index v = 0" using assms(2) by (simp add: slot_0)
  have e: "frame_of (first_page_table OR 3) = first_page_table" using entry_flags [of first_page_table] by simp
  have "hw_walk m' page_directory v = hw_walk (old_tables m) page_directory v"
    using pd pt unfolding hw_walk_def z pd_index_def [symmetric] pt_index_def [symmetric]
    by (simp add: Let_def old_tables_read(1) z e)
  then show ?thesis using old_walk [of m v] assms(2) by simp
qed

section \<open>The state of each component\<close>

definition pmm_view :: "old_kernel \<Rightarrow> old_pmm" where "pmm_view k = cpu.extend (core k) (pmm_part k)"
definition heap_view :: "old_kernel \<Rightarrow> old_heap" where "heap_view k = cpu.extend (core k) (heap_part k)"
definition intr_view :: "old_kernel \<Rightarrow> old_intr" where "intr_view k = cpu.extend (core k) (intr_part k)"

lemma extend_fields [simp]:
  "ram (cpu.extend c p) = ram c" "cr0 (cpu.extend c p) = cr0 c" "cr3 (cpu.extend c p) = cr3 c"
  "trace (cpu.extend c p) = trace c" "paging (cpu.extend c p) = paging c" "cpu.more (cpu.extend c p) = p"
  by (simp_all add: cpu.extend_def paging_def)

lemma truncate_fields [simp]:
  "ram (cpu.truncate s) = ram s" "cr0 (cpu.truncate s) = cr0 s" "cr3 (cpu.truncate s) = cr3 s"
  "trace (cpu.truncate s) = trace s" "paging (cpu.truncate s) = paging s"
  by (simp_all add: cpu.truncate_def paging_def)

lemma extend_pmm [simp]:
  fixes p :: old_pmm
  shows "pmm_bitmap (cpu.extend c (cpu.more p)) = pmm_bitmap p"
    "pmm_total_pages (cpu.extend c (cpu.more p)) = pmm_total_pages p"
    "pmm_used_pages (cpu.extend c (cpu.more p)) = pmm_used_pages p"
    "pmm_bitmap_size (cpu.extend c (cpu.more p)) = pmm_bitmap_size p"
  by (cases p; simp add: cpu.extend_def)+

lemma extend_heap [simp]:
  fixes h :: old_heap
  shows "ofree_list (cpu.extend c (cpu.more h)) = ofree_list h" "used_list (cpu.extend c (cpu.more h)) = used_list h"
  by (cases h; simp add: cpu.extend_def)+

lemma extend_intr [simp]:
  fixes i :: old_intr
  shows "old_idt (cpu.extend c (cpu.more i)) = old_idt i" "old_idtr (cpu.extend c (cpu.more i)) = old_idtr i"
  by (cases i; simp add: cpu.extend_def)+

lemma core_plain [simp]: "cpu.extend c () = c" "cpu.truncate c = c"
  by (cases c; simp add: cpu.extend_def cpu.truncate_def)+

lemma on_core_run:
  assumes "f (core k) = Inr c" "vga_inv (kb_screen (kbd k))"
  shows "\<exists>v. on_core f k = Inr (k\<lparr>core := c, kbd := (kbd k)\<lparr>kb_screen := v\<rparr>\<rparr>) \<and> vga_inv v"
  using part_runs(1) [of f k c] assms by simp

definition printed :: "string list \<Rightarrow> cpu \<Rightarrow> cpu" where
  "printed ms c = fold (\<lambda>m. emit (Vga_Print m)) ms c"

lemma printed_fields [simp]:
  "ram (printed ms c) = ram c" "cr0 (printed ms c) = cr0 c" "cr3 (printed ms c) = cr3 c"
  "trace (printed ms c) = trace c @ map Vga_Print ms" "paging (printed ms c) = paging c"
  by (simp_all add: printed_def trace_prints paging_def)

lemma prints_all_run:
  assumes "vga_inv (kb_screen (kbd k))"
  shows "\<exists>v. prints_all ms k = Inr (k\<lparr>core := printed ms (core k), kbd := (kbd k)\<lparr>kb_screen := v\<rparr>\<rparr>) \<and> vga_inv v"
  unfolding prints_all_def printed_def using assms by (intro on_core_run) simp_all

lemma install_run:
  assumes inv: "vga_inv (kb_screen (kbd k))" and st: "status_moves fuel (kbd k)" and len: "length (old_idt (intr_view k)) = 256"
    and ps: "pics_after (trace (core k)) p0 = (pic_ready 32 0xFD, pic_ready 40 0xFF)"
    and inp: "reads_masks inp (pic_ready 32 0xFD, pic_ready 40 0xFF)"
  shows "\<exists>c i kb. PS2_KB_INSTALL fuel l inp k = Inr (k\<lparr>core := c, intr_part := cpu.more i, kbd := kb\<rparr>) \<and>
    ram c = ram (core k) \<and> cr0 c = cr0 (core k) \<and> cr3 c = cr3 (core k) \<and>
    old_idt i = (old_idt (intr_view k))[0x21 := gate (code_segment l) (ps2_irq_handler_asm l)] \<and>
    old_idtr i = old_idtr (intr_view k) \<and>
    pics_after (trace c) p0 = (pic_ready 32 0xFD, pic_ready 40 0xFF) \<and> vga_inv (kb_screen kb)"
proof -
  obtain v m n w where kb: "PS2_KB_INIT fuel (kbd k) = Inr ((kbd k)\<lparr>kb_screen := v, reads60 := m, reads64 := n, written := w\<rparr>)"
      "vga_inv v" using PS2_KB_INIT_run [OF inv st] by blast
  define k1 where "k1 = k\<lparr>kbd := (kbd k)\<lparr>kb_screen := v, reads60 := m, reads64 := n, written := w\<rparr>\<rparr>"
  define i where "i = (intr_view k)\<lparr>old_idt := (old_idt (intr_view k))[0x21 := gate (code_segment l) (ps2_irq_handler_asm l)]\<rparr>"
  have g: "idt_set_gate (code_segment l) 0x21 (ps2_irq_handler_asm l) (cpu.extend (core k1) (intr_part k1)) = Inr i"
    using gate_run [of "0x21" "intr_view k" "code_segment l" "ps2_irq_handler_asm l"] len
    by (auto simp: k1_def i_def intr_view_def)
  have "vga_inv (kb_screen (kbd k1))" using kb(2) by (simp add: k1_def)
  then obtain v2 where k2: "on_intr (idt_set_gate (code_segment l) 0x21 (ps2_irq_handler_asm l)) k1 =
      Inr (k1\<lparr>core := cpu.truncate i, kbd := (kbd k1)\<lparr>kb_screen := v2\<rparr>, intr_part := cpu.more i\<rparr>)" "vga_inv v2"
    using part_runs(4) [of "idt_set_gate (code_segment l) 0x21 (ps2_irq_handler_asm l)", OF g] by blast
  define k2 where "k2 = k1\<lparr>core := cpu.truncate i, kbd := (kbd k1)\<lparr>kb_screen := v2\<rparr>, intr_part := cpu.more i\<rparr>"
  have i2: "vga_inv (kb_screen (kbd k2))" using k2(2) by (simp add: k2_def)
  have "(0xFD :: u8) AND NOT (push_bit 1 1) = 0xFD" by simp
  then have e: "pic_enable_irq inp IRQ1 (core k2) = Inr (outb 0x21 0xFD (core k2))"
    using inp by (simp add: pic_enable_irq_def IRQ1_def reads_masks_def pic_ready_def)
  obtain v3 where k3: "on_core (pic_enable_irq inp IRQ1) k2 =
      Inr (k2\<lparr>core := outb 0x21 0xFD (core k2), kbd := (kbd k2)\<lparr>kb_screen := v3\<rparr>\<rparr>)" "vga_inv v3"
    using on_core_run [of "pic_enable_irq inp IRQ1" k2, OF e] i2 by blast
  define k3 where "k3 = k2\<lparr>core := outb 0x21 0xFD (core k2), kbd := (kbd k2)\<lparr>kb_screen := v3\<rparr>\<rparr>"
  define c where "c = printed [''[PS2] IRQ handler installed'' @ [LF]] (core k3)"
  have "vga_inv (kb_screen (kbd k3))" using k3(2) by (simp add: k3_def)
  from prints_all_run [OF this, of "[''[PS2] IRQ handler installed'' @ [LF]]", folded c_def] obtain v4 where
    k4: "prints_all [''[PS2] IRQ handler installed'' @ [LF]] k3 = Inr (k3\<lparr>core := c, kbd := (kbd k3)\<lparr>kb_screen := v4\<rparr>\<rparr>)"
      "vga_inv v4" by blast
  have "PS2_KB_INSTALL fuel l inp k = Inr (k3\<lparr>core := c, kbd := (kbd k3)\<lparr>kb_screen := v4\<rparr>\<rparr>)"
    unfolding PS2_KB_INSTALL_def kb(1) bindE_simps Let_def k1_def [symmetric] k2(1) k2_def [symmetric] k3(1) k3_def [symmetric] k4(1) ..
  moreover have "k3\<lparr>core := c, kbd := (kbd k3)\<lparr>kb_screen := v4\<rparr>\<rparr> =
      k\<lparr>core := c, intr_part := cpu.more i, kbd := (kbd k3)\<lparr>kb_screen := v4\<rparr>\<rparr>"
    by (cases k) (simp add: k3_def k2_def k1_def)
  moreover have "trace c = trace (core k) @ [Outb 0x21 0xFD, Vga_Print (''[PS2] IRQ handler installed'' @ [LF])]"
    by (simp add: c_def k3_def k2_def i_def intr_view_def outb_def)
  then have "pics_after (trace c) p0 = (pic_ready 32 0xFD, pic_ready 40 0xFF)"
    using ps by (simp add: pic_sim)
  moreover have "ram c = ram (core k) \<and> cr0 c = cr0 (core k) \<and> cr3 c = cr3 (core k)"
    by (simp add: c_def k3_def k2_def i_def intr_view_def outb_def)
  moreover have "old_idtr i = old_idtr (intr_view k)"
    "old_idt i = (old_idt (intr_view k))[0x21 := gate (code_segment l) (ps2_irq_handler_asm l)]" by (simp_all add: i_def)
  ultimately show ?thesis using k4(2) by fastforce
qed

lemma start_run:
  "\<exists>v. on_core (\<lambda>s. Inr (emit Vga_Init s)) k =
     Inr (k\<lparr>core := emit Vga_Init (core k), kbd := (kbd k)\<lparr>kb_screen := v\<rparr>\<rparr>) \<and> vga_inv v"
  using show_event_run [of "kbd k" Vga_Init] by (auto simp: on_core_def run_part_def)

section \<open>Booting\<close>

text \<open>The memory managers, whatever \<open>g\<close> follows.\<close>

lemma memory_boot:
  assumes np: "\<not> paging (core k)" and len: "length (pmm_bitmap (pmm_view k)) = PMM_BITMAP_SIZE"
    and inv: "vga_inv (kb_screen (kbd k))"
  obtains k' p h v where
    "\<And>g :: old_kernel \<Rightarrow> fault + old_kernel. bindE (on_pmm (PMM_INIT detect_memory_simple) k) (\<lambda>k. bindE (on_core VMM_INIT k) (\<lambda>k.
       bindE (on_heap HEAP_INIT k) (\<lambda>k. bindE (on_core (\<lambda>s. Inr (VMM_ENABLE_PAGING s)) k) g))) = g k'"
    "pmm_part k' = cpu.more p" "old_pmm_inv p" "handed p = {}" "pmm_total_pages p = 0x20000"
    "heap_part k' = cpu.more h" "heap_inv h whole_heap []"
    "ram (core k') = ram h" "paging (core k')"
    "\<And>v. v < 0x400000 \<Longrightarrow> xlate (core k') v = Some v"
    "kbd k' = (kbd k)\<lparr>kb_screen := v\<rparr>" "vga_inv v"
proof -
  from old_init_run [OF len, of detect_memory_simple] obtain p where
    p: "PMM_INIT detect_memory_simple (pmm_view k) = Inr p" "old_pmm_inv p" "handed p = {}"
      "pmm_total_pages p = 0x20000" "cr0 p = cr0 (core k)"
    by (auto simp: pmm_view_def detect_memory_simple_def PAGE_SIZE_def)
  from part_runs(2) [of "PMM_INIT detect_memory_simple" k, OF p(1) [unfolded pmm_view_def] inv] obtain v3 where
    r3: "on_pmm (PMM_INIT detect_memory_simple) k =
      Inr (k\<lparr>core := cpu.truncate p, kbd := (kbd k)\<lparr>kb_screen := v3\<rparr>, pmm_part := cpu.more p\<rparr>)" "vga_inv v3" by blast
  define k3 where "k3 = k\<lparr>core := cpu.truncate p, kbd := (kbd k)\<lparr>kb_screen := v3\<rparr>, pmm_part := cpu.more p\<rparr>"
  have i3: "vga_inv (kb_screen (kbd k3))" using r3(2) by (simp add: k3_def)
  have np3: "\<not> paging (core k3)" using np p(5) by (simp add: k3_def paging_def)
  from old_init_vmm_run [OF np3] obtain t4 where
    s4: "VMM_INIT (core k3) = Inr ((core k3)\<lparr>ram := old_tables (ram (core k3)), trace := t4\<rparr>)" (is "_ = Inr ?c4") by blast
  from on_core_run [of VMM_INIT k3, OF s4 i3] obtain v4 where
    r4: "on_core VMM_INIT k3 = Inr (k3\<lparr>core := ?c4, kbd := (kbd k3)\<lparr>kb_screen := v4\<rparr>\<rparr>)" "vga_inv v4" by blast
  define k4 where "k4 = k3\<lparr>core := ?c4, kbd := (kbd k3)\<lparr>kb_screen := v4\<rparr>\<rparr>"
  have i4: "vga_inv (kb_screen (kbd k4))" using r4(2) by (simp add: k4_def)
  have np4: "\<not> paging (heap_view k4)" using np3 by (simp add: heap_view_def k4_def paging_def)
  from HEAP_INIT_inv [OF np4] obtain h where h: "HEAP_INIT (heap_view k4) = Inr h" "heap_inv h whole_heap []" by blast
  have ram_h: "ram h a = old_tables (ram (core k3)) a" if "unat a \<notin> {0x200000 ..< 0x200014}" for a
    using HEAP_INIT_ram [OF h(1) np4 that] by (simp add: heap_view_def k4_def)
  from part_runs(3) [of HEAP_INIT k4, OF h(1) [unfolded heap_view_def] i4] obtain v5 where
    r5: "on_heap HEAP_INIT k4 = Inr (k4\<lparr>core := cpu.truncate h, kbd := (kbd k4)\<lparr>kb_screen := v5\<rparr>, heap_part := cpu.more h\<rparr>)"
      "vga_inv v5" by blast
  define k5 where "k5 = k4\<lparr>core := cpu.truncate h, kbd := (kbd k4)\<lparr>kb_screen := v5\<rparr>, heap_part := cpu.more h\<rparr>"
  have i5: "vga_inv (kb_screen (kbd k5))" using r5(2) by (simp add: k5_def)
  from on_core_run [of "\<lambda>s. Inr (VMM_ENABLE_PAGING s)" k5, OF refl i5] obtain v6 where
    r6: "on_core (\<lambda>s. Inr (VMM_ENABLE_PAGING s)) k5 =
      Inr (k5\<lparr>core := VMM_ENABLE_PAGING (core k5), kbd := (kbd k5)\<lparr>kb_screen := v6\<rparr>\<rparr>)" "vga_inv v6" by blast
  define k6 where "k6 = k5\<lparr>core := VMM_ENABLE_PAGING (core k5), kbd := (kbd k5)\<lparr>kb_screen := v6\<rparr>\<rparr>"
  have c: "ram (core k6) = ram h" "paging (core k6)" "cr3 (core k6) = page_directory" by (simp_all add: k6_def k5_def)
  show thesis
  proof (rule that)
    show "bindE (on_pmm (PMM_INIT detect_memory_simple) k) (\<lambda>k. bindE (on_core VMM_INIT k) (\<lambda>k.
       bindE (on_heap HEAP_INIT k) (\<lambda>k. bindE (on_core (\<lambda>s. Inr (VMM_ENABLE_PAGING s)) k) g))) = g k6" for g
      by (simp only: r3(1) k3_def [symmetric] r4(1) k4_def [symmetric] r5(1) k5_def [symmetric] r6(1) k6_def [symmetric] bindE_simps)
    show "xlate (core k6) v = Some v" if "v < 0x400000" for v
      using walk_kept [of "ram h" "ram (core k3)", OF ram_h that] c by (simp add: xlate_def)
    show "kbd k6 = (kbd k)\<lparr>kb_screen := v6\<rparr>" by (simp add: k6_def k5_def k4_def k3_def)
    show "pmm_part k6 = cpu.more p" "heap_part k6 = cpu.more h" by (simp_all add: k6_def k5_def k4_def k3_def)
  qed (fact p h c(1,2) r6(2))+
qed

text \<open>The interrupts.\<close>

definition old_gates :: "old_link \<Rightarrow> idt_entry list" where
  "old_gates l = (replicate 256 (gate (code_segment l) (safe_irq_handler_asm l)))[0x21 := gate (code_segment l) (ps2_irq_handler_asm l)]"

lemma device_boot:
  assumes inv: "vga_inv (kb_screen (kbd k))" and st: "status_moves fuel (kbd k)"
    and inp: "reads_masks inp (pic_ready 32 0xFD, pic_ready 40 0xFF)"
  obtains k' i where
    "\<And>g :: old_kernel \<Rightarrow> fault + old_kernel. bindE (on_intr (IDT_INIT (code_segment l) (safe_irq_handler_asm l) (ps2_irq_handler_asm l) (old_idt_at l)) k) (\<lambda>k.
       bindE (on_core (\<lambda>s. Inr (pic_init s)) k) (\<lambda>k. bindE (PS2_KB_INSTALL fuel l inp k) g)) = g k'"
    "intr_part k' = cpu.more i" "old_idt i = old_gates l" "old_idtr i = Some (2047, old_idt_at l)"
    "pics_after (trace (core k')) ps = (pic_ready 32 0xFD, pic_ready 40 0xFF)"
    "ram (core k') = ram (core k)" "cr0 (core k') = cr0 (core k)" "cr3 (core k') = cr3 (core k)"
    "pmm_part k' = pmm_part k" "heap_part k' = heap_part k" "vga_inv (kb_screen (kbd k'))"
proof -
  let ?idt = "IDT_INIT (code_segment l) (safe_irq_handler_asm l) (ps2_irq_handler_asm l) (old_idt_at l)"
  from IDT_INIT_run [of "code_segment l" "safe_irq_handler_asm l" "ps2_irq_handler_asm l" "old_idt_at l" "intr_view k"]
  obtain t7 where s7: "?idt (intr_view k) =
      Inr ((intr_view k)\<lparr>old_idt := old_gates l, old_idtr := Some (2047, old_idt_at l), trace := trace (intr_view k) @ t7\<rparr>)"
    (is "_ = Inr ?s7") unfolding old_gates_def by blast
  from part_runs(4) [of ?idt k, OF s7 [unfolded intr_view_def] inv] obtain v7 where
    r7: "on_intr ?idt k = Inr (k\<lparr>core := cpu.truncate ?s7, kbd := (kbd k)\<lparr>kb_screen := v7\<rparr>, intr_part := cpu.more ?s7\<rparr>)" "vga_inv v7"
    unfolding intr_view_def by blast
  define k7 where "k7 = k\<lparr>core := cpu.truncate ?s7, kbd := (kbd k)\<lparr>kb_screen := v7\<rparr>, intr_part := cpu.more ?s7\<rparr>"
  have i7: "vga_inv (kb_screen (kbd k7))" using r7(2) by (simp add: k7_def)
  from on_core_run [of "\<lambda>s. Inr (pic_init s)" k7, OF refl i7] obtain v8 where
    r8: "on_core (\<lambda>s. Inr (pic_init s)) k7 = Inr (k7\<lparr>core := pic_init (core k7), kbd := (kbd k7)\<lparr>kb_screen := v8\<rparr>\<rparr>)"
      "vga_inv v8" by blast
  define k8 where "k8 = k7\<lparr>core := pic_init (core k7), kbd := (kbd k7)\<lparr>kb_screen := v8\<rparr>\<rparr>"
  have i8: "vga_inv (kb_screen (kbd k8))" using r8(2) by (simp add: k8_def)
  have c8: "ram (core k8) = ram (core k)" "cr0 (core k8) = cr0 (core k)" "cr3 (core k8) = cr3 (core k)"
    by (simp_all add: k8_def k7_def intr_view_def pic_init_def Let_def outb_def)
  have idt8: "old_idt (intr_view k8) = old_gates l" "old_idtr (intr_view k8) = Some (2047, old_idt_at l)"
    unfolding intr_view_def by (simp_all add: k8_def k7_def)
  have "status_moves fuel (kbd k8)" using st by (simp add: status_moves_def k8_def k7_def)
  moreover have "length (old_idt (intr_view k8)) = 256" by (simp add: idt8 old_gates_def)
  moreover have "pics_after (trace (core k8)) ps = (pic_ready 32 0xFD, pic_ready 40 0xFF)" by (simp add: k8_def pic_init_run)
  ultimately obtain c9 i9 kb9 where
    r9: "PS2_KB_INSTALL fuel l inp k8 = Inr (k8\<lparr>core := c9, intr_part := cpu.more i9, kbd := kb9\<rparr>)"
      "ram c9 = ram (core k8)" "cr0 c9 = cr0 (core k8)" "cr3 c9 = cr3 (core k8)"
      "old_idt i9 = (old_idt (intr_view k8))[0x21 := gate (code_segment l) (ps2_irq_handler_asm l)]"
      "old_idtr i9 = old_idtr (intr_view k8)" "pics_after (trace c9) ps = (pic_ready 32 0xFD, pic_ready 40 0xFF)"
      "vga_inv (kb_screen kb9)"
    using install_run [OF i8 _ _ _ inp, of fuel ps l] by blast
  define k9 where "k9 = k8\<lparr>core := c9, intr_part := cpu.more i9, kbd := kb9\<rparr>"
  show thesis
  proof (rule that)
    show "bindE (on_intr ?idt k) (\<lambda>k. bindE (on_core (\<lambda>s. Inr (pic_init s)) k) (\<lambda>k. bindE (PS2_KB_INSTALL fuel l inp k) g)) = g k9" for g
      by (simp only: r7(1) k7_def [symmetric] r8(1) k8_def [symmetric] r9(1) k9_def [symmetric] bindE_simps)
    show "old_idt i9 = old_gates l" using r9(5) by (simp add: idt8 old_gates_def)
    show "old_idtr i9 = Some (2047, old_idt_at l)" using r9(6) by (simp add: idt8)
  qed (use r9 c8 in \<open>simp_all add: k9_def k8_def k7_def\<close>)
qed

text \<open>The screen.\<close>

lemma banner_run:
  obtains k' v where
    "\<And>g :: old_kernel \<Rightarrow> fault + old_kernel. bindE (on_core (\<lambda>s. Inr (emit Vga_Init s)) k) (\<lambda>k. bindE (prints_all m k) g) = g k'"
    "pmm_part k' = pmm_part k" "cr0 (core k') = cr0 (core k)" "kbd k' = (kbd k)\<lparr>kb_screen := v\<rparr>" "vga_inv v"
proof -
  obtain v1 where r1: "on_core (\<lambda>s. Inr (emit Vga_Init s)) k =
      Inr (k\<lparr>core := emit Vga_Init (core k), kbd := (kbd k)\<lparr>kb_screen := v1\<rparr>\<rparr>)" "vga_inv v1"
    using start_run by blast
  define k1 where "k1 = k\<lparr>core := emit Vga_Init (core k), kbd := (kbd k)\<lparr>kb_screen := v1\<rparr>\<rparr>"
  have i1: "vga_inv (kb_screen (kbd k1))" using r1(2) by (simp add: k1_def)
  from prints_all_run [OF i1, of m] obtain v2 where
    r2: "prints_all m k1 = Inr (k1\<lparr>core := printed m (core k1), kbd := (kbd k1)\<lparr>kb_screen := v2\<rparr>\<rparr>)" "vga_inv v2" by blast
  show thesis
    by (rule that [of "k1\<lparr>core := printed m (core k1), kbd := (kbd k1)\<lparr>kb_screen := v2\<rparr>\<rparr>" v2])
      (simp_all add: r1(1) k1_def [symmetric] r2, simp_all add: k1_def)
qed

text \<open>The stages together: the state in the endless loop, over the states that the stages leave.\<close>

lemma kernel_main_run:
  assumes np: "\<not> paging (core k)" and len: "length (pmm_bitmap (pmm_view k)) = PMM_BITMAP_SIZE"
    and st: "status_moves fuel (kbd k)" and inp: "reads_masks inp (pic_ready 32 0xFD, pic_ready 40 0xFF)"
  obtains k' and k4 :: old_kernel and p h i where "kernel_main fuel l inp k = Inr k'" "interrupt_flag k'" "vga_inv (kb_screen (kbd k'))"
    "ram (core k') = ram h" "cr0 (core k') = cr0 (core k4)" "cr3 (core k') = cr3 (core k4)"
    "pmm_part k' = cpu.more p" "heap_part k' = cpu.more h" "intr_part k' = cpu.more i"
    "old_pmm_inv p" "handed p = {}" "pmm_total_pages p = 0x20000" "heap_inv h whole_heap []"
    "ram (core k4) = ram h" "paging (core k4)" "\<And>v. v < 0x400000 \<Longrightarrow> xlate (core k4) v = Some v"
    "old_idt i = old_gates l" "old_idtr i = Some (2047, old_idt_at l)"
    "pics_after (trace (core k')) ps = (pic_ready 32 0xFD, pic_ready 40 0xFF)"
proof -
  define m1 where "m1 = [''Core86 - IRQ MODE'' @ [LF, LF]]"
  obtain k2 v2 where k2:
    "\<And>g :: old_kernel \<Rightarrow> fault + old_kernel. bindE (on_core (\<lambda>s. Inr (emit Vga_Init s)) k) (\<lambda>k. bindE (prints_all m1 k) g) = g k2"
    "pmm_part k2 = pmm_part k" "cr0 (core k2) = cr0 (core k)" "kbd k2 = (kbd k)\<lparr>kb_screen := v2\<rparr>" "vga_inv v2"
    by (rule banner_run [of k m1]) (rule that; assumption)
  define k3 where "k3 = k2\<lparr>interrupt_flag := False\<rparr>"
  have i3: "vga_inv (kb_screen (kbd k3))" using k2(4,5) by (simp add: k3_def)
  have len3: "length (pmm_bitmap (pmm_view k3)) = PMM_BITMAP_SIZE"
    using len extend_pmm(1) [of "core k3" "pmm_view k"] by (simp add: pmm_view_def k3_def k2(2))
  have np3: "\<not> paging (core k3)" using np by (simp add: k3_def k2(3) paging_def)
  obtain k4 p h v4 where k4:
    "\<And>g :: old_kernel \<Rightarrow> fault + old_kernel. bindE (on_pmm (PMM_INIT detect_memory_simple) k3) (\<lambda>k. bindE (on_core VMM_INIT k) (\<lambda>k.
       bindE (on_heap HEAP_INIT k) (\<lambda>k. bindE (on_core (\<lambda>s. Inr (VMM_ENABLE_PAGING s)) k) g))) = g k4"
    "pmm_part k4 = cpu.more p" "old_pmm_inv p" "handed p = {}" "pmm_total_pages p = 0x20000"
    "heap_part k4 = cpu.more h" "heap_inv h whole_heap []" "ram (core k4) = ram h" "paging (core k4)"
    "\<And>v. v < 0x400000 \<Longrightarrow> xlate (core k4) v = Some v" "kbd k4 = (kbd k3)\<lparr>kb_screen := v4\<rparr>" "vga_inv v4"
    by (rule memory_boot [OF np3 len3 i3]) (rule that; assumption)
  have i4: "vga_inv (kb_screen (kbd k4))" using k4(11,12) by simp
  have st4: "status_moves fuel (kbd k4)" using st k4(11) by (simp add: status_moves_def k3_def k2(4))
  obtain k5 i where k5:
    "\<And>g :: old_kernel \<Rightarrow> fault + old_kernel. bindE (on_intr (IDT_INIT (code_segment l) (safe_irq_handler_asm l) (ps2_irq_handler_asm l) (old_idt_at l)) k4) (\<lambda>k.
       bindE (on_core (\<lambda>s. Inr (pic_init s)) k) (\<lambda>k. bindE (PS2_KB_INSTALL fuel l inp k) g)) = g k5"
    "intr_part k5 = cpu.more i" "old_idt i = old_gates l" "old_idtr i = Some (2047, old_idt_at l)"
    "pics_after (trace (core k5)) ps = (pic_ready 32 0xFD, pic_ready 40 0xFF)"
    "ram (core k5) = ram (core k4)" "cr0 (core k5) = cr0 (core k4)" "cr3 (core k5) = cr3 (core k4)"
    "pmm_part k5 = pmm_part k4" "heap_part k5 = heap_part k4" "vga_inv (kb_screen (kbd k5))"
    by (rule device_boot [OF i4 st4 inp, where l = l and ps = ps]) (rule that; assumption)
  define m6 where "m6 = [[LF] @ ''=== IRQ MODE ==='' @ [LF], ''Using PS2_IRQ_HANDLER()'' @ [LF], ''Type something: '']"
  define k6 where "k6 = k5\<lparr>interrupt_flag := True\<rparr>"
  have "vga_inv (kb_screen (kbd k6))" using k5(11) by (simp add: k6_def)
  from prints_all_run [OF this, of m6] obtain v7 where
    r7: "prints_all m6 k6 = Inr (k6\<lparr>core := printed m6 (core k6), kbd := (kbd k6)\<lparr>kb_screen := v7\<rparr>\<rparr>)" "vga_inv v7" by blast
  define k' where "k' = k6\<lparr>core := printed m6 (core k6), kbd := (kbd k6)\<lparr>kb_screen := v7\<rparr>\<rparr>"
  have run: "kernel_main fuel l inp k = Inr k'"
    unfolding kernel_main_def Let_def m1_def [symmetric] k2(1) k3_def [symmetric] k4(1) k5(1) m6_def [symmetric] k6_def [symmetric] r7(1) k'_def [symmetric] ..
  have c: "ram (core k') = ram h" "cr0 (core k') = cr0 (core k4)" "cr3 (core k') = cr3 (core k4)"
    using k4(8) k5(6-8) by (simp_all add: k'_def k6_def)
  have parts: "pmm_part k' = cpu.more p" "heap_part k' = cpu.more h" "intr_part k' = cpu.more i"
    using k4(2,6) k5(2,9,10) by (simp_all add: k'_def k6_def)
  have pics: "pics_after (trace (core k')) ps = (pic_ready 32 0xFD, pic_ready 40 0xFF)"
    using k5(5) pics_after_quiet [of "map Vga_Print m6"] by (auto simp: k'_def k6_def)
  have on: "interrupt_flag k'" "vga_inv (kb_screen (kbd k'))" using r7(2) by (simp_all add: k'_def k6_def)
  show thesis
    by (rule that [of k' h k4 p i]) (fact run on c parts k4(3-5,7-10) k5(3,4) pics)+
qed

text \<open>
  C20. Booting the old kernel: from reset state, with a keyboard controller whose status does not stay the
  same for ever, \<open>kernel_main\<close> reaches its endless loop with interrupts and paging on.  Then the first
  4 MiB translate to themselves, all frames above 16 MiB of the 512 MiB are free, the heap is the one
  free block of 2 MiB, and a key press is delivered: the controllers let only line 1 through, which
  raises vector 33, where the table has the keyboard's handler; every other vector has the other one.
\<close>

theorem kernel_main_boots:
  assumes np: "\<not> paging (core k)" and len: "length (pmm_bitmap (pmm_view k)) = PMM_BITMAP_SIZE"
    and st: "status_moves fuel (kbd k)" and inp: "reads_masks inp (pic_ready 32 0xFD, pic_ready 40 0xFF)"
  shows "\<exists>k'. kernel_main fuel l inp k = Inr k' \<and> interrupt_flag k' \<and> paging (core k') \<and>
    (\<forall>v < 0x400000. xlate (core k') v = Some v) \<and>
    old_pmm_inv (pmm_view k') \<and> handed (pmm_view k') = {} \<and> pmm_total_pages (pmm_view k') = 0x20000 \<and>
    heap_inv ((heap_view k')\<lparr>cr0 := 0\<rparr>) whole_heap [] \<and>
    pics_after (trace (core k')) ps = (pic_ready 32 0xFD, pic_ready 40 0xFF) \<and>
    old_idtr (intr_view k') = Some (8 * 256 - 1, old_idt_at l) \<and>
    (\<forall>n < 256. gate_target (old_idt (intr_view k') ! n) =
      (if n = 32 + 1 then ps2_irq_handler_asm l else safe_irq_handler_asm l)) \<and>
    vga_inv (kb_screen (kbd k'))"
proof -
  obtain k' and k4 :: old_kernel and p h i where m: "kernel_main fuel l inp k = Inr k'" "interrupt_flag k'" "vga_inv (kb_screen (kbd k'))"
    and c: "ram (core k') = ram h" "cr0 (core k') = cr0 (core k4)" "cr3 (core k') = cr3 (core k4)"
    and parts: "pmm_part k' = cpu.more p" "heap_part k' = cpu.more h" "intr_part k' = cpu.more i"
    and pm: "old_pmm_inv p" "handed p = {}" "pmm_total_pages p = 0x20000" and hp: "heap_inv h whole_heap []"
    and k4: "ram (core k4) = ram h" "paging (core k4)" "\<And>v. v < 0x400000 \<Longrightarrow> xlate (core k4) v = Some v"
    and i: "old_idt i = old_gates l" "old_idtr i = Some (2047, old_idt_at l)"
    and pics: "pics_after (trace (core k')) ps = (pic_ready 32 0xFD, pic_ready 40 0xFF)"
    by (rule kernel_main_run [OF np len st inp, where l = l and ps = ps]) (rule that; assumption)
  have pg: "paging (core k')" and x: "xlate (core k') = xlate (core k4)"
    using k4(2) c unfolding k4(1) [symmetric] by (simp_all add: xlate_def [abs_def] paging_def)
  have "old_pmm_inv (pmm_view k')" "handed (pmm_view k') = {}" "pmm_total_pages (pmm_view k') = 0x20000"
    using pm by (simp_all add: pmm_view_def parts old_pmm_inv_def handed_def managed_def)
  moreover have "heap_inv ((heap_view k')\<lparr>cr0 := 0\<rparr>) whole_heap []"
  proof (rule heap_inv_cong [OF hp])
    have "\<not> paging h" using hp by (simp add: heap_inv_def free_rel_def)
    then show "paging ((heap_view k')\<lparr>cr0 := 0\<rparr>) = paging h" by (simp add: paging_def)
  qed (simp_all add: heap_view_def parts c(1))
  moreover have "old_idtr (intr_view k') = Some (8 * 256 - 1, old_idt_at l)" "old_idt (intr_view k') = old_gates l"
    using i by (simp_all add: intr_view_def parts)
  ultimately show ?thesis
    using m pics pg k4(3) by (intro exI [of _ k']) (auto simp: x old_gates_def gate_fields nth_list_update)
qed

text \<open>A state at reset, with a status register that alternates.\<close>

definition sample_old_kernel :: old_kernel where
  "sample_old_kernel = \<lparr>core = cpu.truncate sample_old_pmm, pmm_part = cpu.more sample_old_pmm,
     heap_part = cpu.more (sample_old_heap :: old_heap),
     intr_part = cpu.more \<lparr>ram = (\<lambda>_. 0), cr0 = 0, cr3 = 0, trace = [], old_idt = [], old_idtr = None\<rparr>,
     kbd = sample_keyboard\<lparr>port64 := (\<lambda>n. if even n then 0 else 1)\<rparr>, interrupt_flag = False\<rparr>"

theorem kernel_main_boots_witness:
  "\<exists>k'. kernel_main 2 \<lparr>code_segment = 8, safe_irq_handler_asm = 0x101000, ps2_irq_handler_asm = 0x102000, old_idt_at = 0x108000\<rparr>
      (\<lambda>p. if p = 0x21 then 0xFD else 0xFF) sample_old_kernel = Inr k' \<and>
    paging (core k') \<and> gate_target (old_idt (intr_view k') ! 0x21) = 0x102000"
proof -
  have "status_moves 2 (kbd sample_old_kernel)"
    unfolding status_moves_def
  proof (intro allI conjI)
    fix n
    have p: "port64 (kbd sample_old_kernel) m = (if even m then 0 else 1)" for m by (simp add: sample_old_kernel_def)
    show "\<exists>i < 2. port64 (kbd sample_old_kernel) (n + i) AND 1 = 0"
      by (rule exI [of _ "if even n then 0 else 1"]) (simp add: p)
    show "\<exists>i < 2. port64 (kbd sample_old_kernel) (n + i) AND 1 \<noteq> 0"
      by (rule exI [of _ "if even n then 1 else 0"]) (simp add: p)
  qed
  moreover have "\<not> paging (core sample_old_kernel)" "length (pmm_bitmap (pmm_view sample_old_kernel)) = PMM_BITMAP_SIZE"
    by (simp_all add: sample_old_kernel_def pmm_view_def) (simp_all add: sample_old_pmm_def paging_def PMM_BITMAP_SIZE_def)
  moreover have "reads_masks (\<lambda>p. if p = 0x21 then 0xFD else 0xFF) (pic_ready 32 0xFD, pic_ready 40 0xFF)"
    by (simp add: reads_masks_def pic_ready_def)
  ultimately show ?thesis
    using kernel_main_boots [of sample_old_kernel 2 "\<lambda>p. if p = 0x21 then 0xFD else 0xFF"
      "\<lparr>code_segment = 8, safe_irq_handler_asm = 0x101000, ps2_irq_handler_asm = 0x102000, old_idt_at = 0x108000\<rparr>"]
    by fastforce
qed

end
