(* ===== verification/Old_Debug.thy ===== *)
theory Old_Debug
  imports Old_Heap_Run Keyboard
begin

text \<open>
  \<open>old/Include/DEBUG.c\<close>: the tests of the old kernel, the clients of its heap.  Each test is run on
  the heap model, with one fuel for the walks of the heap and, for the loop of \<open>ultimate_test\<close> that
  allocates until there is no memory left, another one for its rounds.  The theorems run the tests:
  which branch they take, what they leave of the heap, and what the last one reports.
\<close>

section \<open>The tests\<close>

definition check_mark :: string where "check_mark = [CHR 0xE2, CHR 0x9C, CHR 0x93]"
definition cross_mark :: string where "cross_mark = [CHR 0xE2, CHR 0x9C, CHR 0x97]"
definition warn_mark :: string where "warn_mark = [CHR 0xE2, CHR 0x9A, CHR 0xA0]"

text \<open>A run of \<open>vga_print\<close> calls.\<close>

definition say :: "string list \<Rightarrow> 'a cpu_scheme \<Rightarrow> 'a cpu_scheme" where
  "say ms s = fold (\<lambda>m. emit (Vga_Print m)) ms s"

definition verify_heap_clean :: "nat \<Rightarrow> 'a old_heap_scheme \<Rightarrow> fault + 'a old_heap_scheme" where
  "verify_heap_clean fuel s =
     (let s = say [[LF] @ ''[HEAP-VERIFY] Checking if heap is clean...'' @ [LF]] s
      in bindE (HEAP_PRINT_STATUS fuel s) (\<lambda>s.
      bindE (KMALLOC fuel 16 s) (\<lambda>(test, s).
      if test \<noteq> 0
      then KFREE fuel test (say [''[HEAP-VERIFY] '' @ check_mark @ '' Can allocate on clean heap'' @ [LF]] s)
      else Inr (say [''[HEAP-VERIFY] '' @ cross_mark @ '' ERROR: Cannot allocate on clean heap!'' @ [LF]] s))))"

definition test_heap :: "nat \<Rightarrow> 'a old_heap_scheme \<Rightarrow> fault + 'a old_heap_scheme" where
  "test_heap fuel s =
     (let s = say [[LF] @ ''[TEST] Testing heap allocation and free...'' @ [LF]] s
      in bindE (KMALLOC fuel 100 s) (\<lambda>(ptr1, s).
      bindE (KMALLOC fuel 200 s) (\<lambda>(ptr2, s).
      bindE (KMALLOC fuel 50 s) (\<lambda>(ptr3, s).
      bindE (HEAP_PRINT_STATUS fuel s) (\<lambda>s.
      bindE (HEAP_DEBUG_DUMP fuel s) (\<lambda>s.
      let s = say [[LF] @ ''[TEST] Freeing middle block...'' @ [LF]] s
      in bindE (KFREE fuel ptr2 s) (\<lambda>s.
      bindE (HEAP_PRINT_STATUS fuel s) (\<lambda>s.
      bindE (HEAP_DEBUG_DUMP fuel s) (\<lambda>s.
      let s = say [[LF] @ ''[TEST] Allocating 150 bytes...'' @ [LF]] s
      in bindE (KMALLOC fuel 150 s) (\<lambda>(ptr4, s).
      bindE (HEAP_PRINT_STATUS fuel s) (\<lambda>s.
      bindE (HEAP_DEBUG_DUMP fuel s) (\<lambda>s.
      bindE (if ptr1 \<noteq> 0 then KFREE fuel ptr1 s else Inr s) (\<lambda>s.
      bindE (if ptr3 \<noteq> 0 then KFREE fuel ptr3 s else Inr s) (\<lambda>s.
      bindE (if ptr4 \<noteq> 0 then KFREE fuel ptr4 s else Inr s) (\<lambda>s.
      Inr (say [''[TEST] All blocks freed'' @ [LF]] s))))))))))))))))"

text \<open>The two loops of \<open>test_real_memory\<close>: store the squares, and count the cells that read back wrong.\<close>

definition store_squares :: "u32 \<Rightarrow> 'a cpu_scheme \<Rightarrow> fault + 'a cpu_scheme" where
  "store_squares numbers s = foldE (\<lambda>i s. st32 (numbers + 4 * of_nat i) (of_nat i * of_nat i) s) [0..<100] s"

definition count_errors :: "u32 \<Rightarrow> 'a cpu_scheme \<Rightarrow> fault + u32" where
  "count_errors numbers s =
     foldE (\<lambda>i errors. bindE (ld32 (numbers + 4 * of_nat i) s) (\<lambda>v.
       Inr (if v \<noteq> of_nat i * of_nat i then errors + 1 else errors))) [0..<100] 0"

definition test_real_memory :: "nat \<Rightarrow> 'a old_heap_scheme \<Rightarrow> fault + 'a old_heap_scheme" where
  "test_real_memory fuel s =
     (let s = say [[LF] @ ''[TEST] Testing REAL memory access...'' @ [LF]] s
      in bindE (KMALLOC fuel (100 * 4) s) (\<lambda>(numbers, s).
      if numbers = 0 then Inr (say [''[TEST] FAIL: Allocation failed!'' @ [LF]] s)
      else let s = say [''[TEST] Writing data to allocated memory...'' @ [LF]] s
        in bindE (store_squares numbers s) (\<lambda>s.
        let s = say [''[TEST] Verifying data...'' @ [LF]] s
        in bindE (count_errors numbers s) (\<lambda>errors.
        let s = (if errors = 0 then say [''[TEST] PASS: Memory read/write works!'' @ [LF]] s
                 else say [''[TEST] FAIL: '', int_to_str errors, '' errors found!'' @ [LF]] s)
        in KFREE fuel numbers s))))"

definition test_address_space :: "nat \<Rightarrow> 'a old_heap_scheme \<Rightarrow> fault + 'a old_heap_scheme" where
  "test_address_space fuel s =
     (let s = say [[LF] @ ''[TEST] Checking address space...'' @ [LF]] s
      in bindE (KMALLOC fuel 100 s) (\<lambda>(ptr1, s).
      bindE (KMALLOC fuel 100 s) (\<lambda>(ptr2, s).
      let s = (if ptr1 \<noteq> 0 \<and> ptr2 \<noteq> 0
        then let s = say [''[TEST] ptr1 = 0x'', old_hex_to_str ptr1, [LF] @ ''[TEST] ptr2 = 0x'',
                   old_hex_to_str ptr2, [LF]] s;
                 distance = ptr2 - ptr1;
                 s = say [''[TEST] Distance: '', int_to_str distance, '' bytes'' @ [LF]] s
          in if distance > 100 then say [''[TEST] PASS: Proper spacing between allocations'' @ [LF]] s else s
        else s)
      in bindE (KFREE fuel ptr1 s) (KFREE fuel ptr2))))"

definition count_non_zero :: "u32 \<Rightarrow> 'a cpu_scheme \<Rightarrow> fault + u32" where
  "count_non_zero buffer s =
     foldE (\<lambda>i n. bindE (ld8 (buffer + of_nat i) s) (\<lambda>v. Inr (if v \<noteq> 0 then n + 1 else n))) [0..<256] 0"

definition store_counting :: "u32 \<Rightarrow> 'a cpu_scheme \<Rightarrow> fault + 'a cpu_scheme" where
  "store_counting buffer s = foldE (\<lambda>i s. st8 (buffer + of_nat i) (of_nat (i mod 256)) s) [0..<256] s"

definition test_memory_content :: "nat \<Rightarrow> 'a old_heap_scheme \<Rightarrow> fault + 'a old_heap_scheme" where
  "test_memory_content fuel s =
     (let s = say [[LF] @ ''[TEST] Checking memory initialization...'' @ [LF]] s
      in bindE (KMALLOC fuel 256 s) (\<lambda>(buffer, s).
      if buffer = 0 then Inr s
      else bindE (count_non_zero buffer s) (\<lambda>non_zero.
        let s = say [''[TEST] Non-zero bytes in fresh allocation: '', int_to_str non_zero, [LF]] s
        in bindE (store_counting buffer s) (\<lambda>s.
        bindE (KFREE fuel buffer s) (\<lambda>s.
        bindE (KMALLOC fuel 256 s) (\<lambda>(buffer, s).
        if buffer = 0 then Inr s
        else KFREE fuel buffer (say [''[TEST] Memory reuse test'' @ [LF]] s)))))))"

definition debug_print :: "string \<Rightarrow> 'a cpu_scheme \<Rightarrow> 'a cpu_scheme" where
  "debug_print str s = say [str] s"

definition check_page_tables :: "'a cpu_scheme \<Rightarrow> 'a cpu_scheme" where
  "check_page_tables s =
     (let s = say [[LF] @ ''[DEBUG] Checking page tables...'' @ [LF]] s;
          s = say [''[DEBUG] CR3 (Page Directory): 0x'', old_hex_to_str (cr3 s), [LF]] s;
          heap_virt = 0x00200000
      in say [''[DEBUG] Heap virtual address: 0x'', old_hex_to_str heap_virt, [LF]] s)"

text \<open>
  \<open>ultimate_test\<close>, with its table of at most 512 pointers.  \<open>remember\<close> is the step that saves a
  pointer if there is room, \<open>forget\<close> the loop that clears the entry of one pointer, \<open>free_saved\<close>
  the loops that release the saved blocks at the given indices and count them.
\<close>

definition MAX_ALLOCS :: nat where "MAX_ALLOCS = 512"

definition remember :: "u32 \<Rightarrow> u32 list \<times> nat \<Rightarrow> u32 list \<times> nat" where
  "remember ptr = (\<lambda>(allocations, alloc_count).
     if alloc_count < MAX_ALLOCS then (allocations[alloc_count := ptr], alloc_count + 1)
     else (allocations, alloc_count))"

definition forget :: "u32 \<Rightarrow> u32 list \<times> nat \<Rightarrow> u32 list \<times> nat" where
  "forget ptr = (\<lambda>(allocations, alloc_count).
     (case find (\<lambda>i. allocations ! i = ptr) [0..<alloc_count] of
       Some i \<Rightarrow> allocations[i := 0]
     | None \<Rightarrow> allocations, alloc_count))"

definition free_saved :: "nat \<Rightarrow> nat list \<Rightarrow> u32 list \<Rightarrow> 'a old_heap_scheme \<Rightarrow>
    fault + u32 list \<times> u32 \<times> 'a old_heap_scheme" where
  "free_saved fuel indices allocations s =
     foldE (\<lambda>i (allocations, n, s).
       if allocations ! i \<noteq> 0
       then bindE (KFREE fuel (allocations ! i) s) (\<lambda>s. Inr (allocations[i := 0], n + 1, s))
       else Inr (allocations, n, s)) indices (allocations, 0, s)"

primrec fill_heap :: "nat \<Rightarrow> nat \<Rightarrow> u32 list \<times> nat \<Rightarrow> u32 \<Rightarrow> u32 \<Rightarrow> 'a old_heap_scheme \<Rightarrow>
    fault + (u32 list \<times> nat) \<times> u32 \<times> u32 \<times> 'a old_heap_scheme" where
  "fill_heap 0 fuel saved amount last_alloc s = Inl No_Return"
| "fill_heap (Suc rounds) fuel saved amount last_alloc s =
     bindE (KMALLOC fuel 4096 s) (\<lambda>(ptr, s).
     if ptr = 0
     then Inr (saved, amount, last_alloc,
       say [''[ULTIMATE]   Heap full after '', int_to_str amount, '' bytes ('',
         int_to_str (of_nat (snd saved)), '' allocations)'' @ [LF]] s)
     else bindE (st32 ptr 0xDEADBEEF s) (\<lambda>s.
       fill_heap rounds fuel (remember ptr saved) (amount + 4096) ptr s))"

text \<open>Part 1, and part 3, which stores what it gets if it should not.\<close>

definition ultimate_huge :: "nat \<Rightarrow> 'a old_heap_scheme \<Rightarrow> fault + 'a old_heap_scheme" where
  "ultimate_huge fuel s =
     (let s = say [''[ULTIMATE] 1. Testing huge allocation...'' @ [LF]] s
      in bindE (KMALLOC fuel (HEAP_SIZE * 2) s) (\<lambda>(huge, s).
      if huge = 0
      then Inr (say [''[ULTIMATE]   '' @ check_mark @ '' CORRECT: Huge allocation rejected'' @ [LF]] s)
      else KFREE fuel huge
        (say [''[ULTIMATE]   '' @ cross_mark @ '' ERROR: Huge allocation should fail!'' @ [LF]] s)))"

definition ultimate_full :: "nat \<Rightarrow> u32 list \<times> nat \<Rightarrow> 'a old_heap_scheme \<Rightarrow>
    fault + (u32 list \<times> nat) \<times> 'a old_heap_scheme" where
  "ultimate_full fuel saved s =
     (let s = say [''[ULTIMATE] 3. Testing allocation when heap full...'' @ [LF]] s
      in bindE (KMALLOC fuel 100 s) (\<lambda>(should_fail, s).
      if should_fail = 0
      then Inr (saved, say [''[ULTIMATE]   '' @ check_mark @ '' CORRECT: Allocation fails when heap full'' @ [LF]] s)
      else Inr (remember should_fail saved,
        say [''[ULTIMATE]   '' @ cross_mark @ '' ERROR: Should not allocate when heap full!'' @ [LF]] s)))"

definition ultimate_reuse :: "nat \<Rightarrow> u32 list \<times> nat \<Rightarrow> u32 \<Rightarrow> 'a old_heap_scheme \<Rightarrow>
    fault + (u32 list \<times> nat) \<times> 'a old_heap_scheme" where
  "ultimate_reuse fuel saved last_alloc s =
     (let s = say [''[ULTIMATE] 4. Freeing one block and reallocating...'' @ [LF]] s
      in if last_alloc = 0 then Inr (saved, s)
      else bindE (ld32 last_alloc s) (\<lambda>v.
        let s = (if v = 0xDEADBEEF
                 then say [''[ULTIMATE]   '' @ check_mark @ '' Memory content preserved'' @ [LF]] s else s)
        in bindE (KFREE fuel last_alloc s) (\<lambda>s.
        let saved = forget last_alloc saved
        in bindE (KMALLOC fuel 100 s) (\<lambda>(should_work, s).
        if should_work \<noteq> 0
        then let s = say [''[ULTIMATE]   '' @ check_mark @ '' Can allocate after free'' @ [LF]] s;
                 saved = remember should_work saved
          in bindE (st32 should_work 0xCAFEBABE s) (\<lambda>s.
             bindE (ld32 should_work s) (\<lambda>v.
             Inr (saved, if v = 0xCAFEBABE
               then say [''[ULTIMATE]   '' @ check_mark @ '' Freed memory is usable'' @ [LF]] s else s)))
        else Inr (saved, say [''[ULTIMATE]   '' @ cross_mark @ '' ERROR: Cannot allocate after free!'' @ [LF]] s)))))"

definition ultimate_fragments :: "nat \<Rightarrow> u32 list \<times> nat \<Rightarrow> 'a old_heap_scheme \<Rightarrow>
    fault + (u32 list \<times> nat) \<times> 'a old_heap_scheme" where
  "ultimate_fragments fuel saved s =
     (let s = say [''[ULTIMATE] 5. Testing fragmentation...'' @ [LF]] s;
          (allocations, alloc_count) = saved
      in bindE (free_saved fuel (filter even [0..<alloc_count]) allocations s) (\<lambda>(allocations, freed_count, s).
      let s = say [''[ULTIMATE]   Freed '', int_to_str freed_count, '' blocks (every other)'' @ [LF]] s
      in bindE (HEAP_PRINT_STATUS fuel s) (\<lambda>s.
      let s = say [''[ULTIMATE]   Trying to allocate medium block (2048 bytes)...'' @ [LF]] s
      in bindE (KMALLOC fuel 2048 s) (\<lambda>(medium, s).
      if medium \<noteq> 0
      then Inr (remember medium (allocations, alloc_count),
        say [''[ULTIMATE]   '' @ check_mark @ '' Can allocate medium block after fragmentation'' @ [LF]] s)
      else Inr ((allocations, alloc_count),
        say [''[ULTIMATE]   '' @ cross_mark @ '' ERROR: Cannot allocate medium block!'' @ [LF]] s)))))"

definition ultimate_cleanup :: "nat \<Rightarrow> u32 list \<times> nat \<Rightarrow> 'a old_heap_scheme \<Rightarrow> fault + 'a old_heap_scheme" where
  "ultimate_cleanup fuel saved s =
     (let s = say [''[ULTIMATE] 6. Cleaning up ALL allocations...'' @ [LF]] s;
          (allocations, alloc_count) = saved
      in bindE (free_saved fuel [0..<alloc_count] allocations s) (\<lambda>(allocations, cleaned, s).
      let s = say [''[ULTIMATE]   Freed '', int_to_str cleaned, '' blocks total'' @ [LF],
            ''[ULTIMATE] 7. Verifying heap is clean...'' @ [LF]] s
      in bindE (HEAP_PRINT_STATUS fuel s) (\<lambda>s.
      let s = say [''[ULTIMATE]   Final allocation test on clean heap...'' @ [LF]] s
      in bindE (KMALLOC fuel 128 s) (\<lambda>(final_test, s).
      if final_test \<noteq> 0
      then let s = (if final_test \<ge> HEAP_START \<and> final_test < HEAP_START + 1000
             then say [''[ULTIMATE]   '' @ check_mark @ '' Allocation at START of heap: 0x'', old_hex_to_str final_test, [LF]] s
             else say [''[ULTIMATE]   '' @ warn_mark @ '' Warning: Allocation not at heap start'' @ [LF]] s)
        in bindE (KFREE fuel final_test s) (\<lambda>s.
           Inr (say [''[ULTIMATE]   '' @ check_mark @ '' Cleanup successful'' @ [LF]] s))
      else Inr (say [''[ULTIMATE]   '' @ cross_mark @ '' ERROR: Cannot allocate on clean heap!'' @ [LF]] s)))))"

definition ultimate_test :: "nat \<Rightarrow> nat \<Rightarrow> 'a old_heap_scheme \<Rightarrow> fault + 'a old_heap_scheme" where
  "ultimate_test rounds fuel s =
     (let s = say [[LF] @ ''[ULTIMATE] Testing heap boundaries...'' @ [LF]] s;
          saved = (replicate MAX_ALLOCS 0, 0)
      in bindE (ultimate_huge fuel s) (\<lambda>s.
      let s = say [''[ULTIMATE] 2. Filling entire heap...'' @ [LF]] s
      in bindE (fill_heap rounds fuel saved 0 0 s) (\<lambda>(saved, total_allocated, last_alloc, s).
      bindE (HEAP_PRINT_STATUS fuel s) (\<lambda>s.
      bindE (ultimate_full fuel saved s) (\<lambda>(saved, s).
      bindE (ultimate_reuse fuel saved last_alloc s) (\<lambda>(saved, s).
      bindE (ultimate_fragments fuel saved s) (\<lambda>(saved, s).
      bindE (ultimate_cleanup fuel saved s) (\<lambda>s.
      Inr (say [''[ULTIMATE] '' @ check_mark @ '' All tests completed!'' @ [LF]] s)))))))))"

text \<open>The temporary keyboard handler.\<close>

definition on_screen_all :: "string list \<Rightarrow> keyboard \<Rightarrow> fault + keyboard" where
  "on_screen_all ms s = foldE (\<lambda>m. on_kb_screen (vga_print m)) ms s"

definition bit_char :: "u8 \<Rightarrow> u8 \<Rightarrow> char" where
  "bit_char status mask' = (if status AND mask' \<noteq> 0 then CHR ''1'' else CHR ''0'')"

definition show_bit :: "string \<Rightarrow> u8 \<Rightarrow> u8 \<Rightarrow> keyboard \<Rightarrow> fault + keyboard" where
  "show_bit label status mask' s =
     bindE (on_kb_screen (vga_print label) s) (\<lambda>s.
     bindE (on_kb_screen (vga_char (bit_char status mask')) s)
       (on_kb_screen (vga_print [LF])))"

definition keyboard_test_handler :: "keyboard \<Rightarrow> fault + keyboard" where
  "keyboard_test_handler s =
     bindE (on_kb_screen (vga_print (''[KB] IRQ1 Received!'' @ [LF])) s) (\<lambda>s.
     let (status, s) = inb64 s
     in bindE (on_screen_all [''[KB] Status (0x64): 0x'', old_hex_to_str (ucast status), '' (binary: ''] s) (\<lambda>s.
     bindE (foldE (\<lambda>i s.
       bindE (on_kb_screen (vga_char (bit_char status (push_bit i 1))) s) (\<lambda>s.
       if i = 4 then on_kb_screen (vga_char (CHR '' '')) s else Inr s)) (rev [0..<8]) s) (\<lambda>s.
     bindE (on_kb_screen (vga_print ('')'' @ [LF])) s) (\<lambda>s.
     bindE (show_bit ''[KB] Bit 0 (Output Buffer Full): '' status 1 s) (\<lambda>s.
     bindE (show_bit ''[KB] Bit 1 (Input Buffer Full): '' status 2 s) (\<lambda>s.
     bindE (show_bit ''[KB] Bit 4 (Keyboard Inhibited): '' status 0x10 s) (\<lambda>s.
     bindE (show_bit ''[KB] Bit 5 (Transmit Timeout): '' status 0x20 s) (\<lambda>s.
     bindE (show_bit ''[KB] Bit 6 (Receive Timeout): '' status 0x40 s) (\<lambda>s.
     bindE (if status AND 1 \<noteq> 0
            then let (dat, s) = inb60 s
              in bindE (on_screen_all [''[KB] Data (0x60): 0x'', old_hex_to_str (ucast dat), [LF]] s) PS2_KB_HANDLER
            else on_kb_screen (vga_print (''[KB] No data in buffer'' @ [LF])) s) (\<lambda>s.
     Inr (kb_outb 0x20 0x20 s)))))))))))"

section \<open>Running them\<close>

lemma say_simps [simp]:
  "ram (say ms s) = ram s" "cr0 (say ms s) = cr0 s" "cr3 (say ms s) = cr3 s" "paging (say ms s) = paging s"
  "trace (say ms s) = trace s @ map Vga_Print ms"
  by (induction ms arbitrary: s) (simp_all add: say_def)

lemma say_lists [simp]: "ofree_list (say ms s) = ofree_list s" "used_list (say ms s) = used_list s"
  by (induction ms arbitrary: s) (simp_all add: say_def)

lemma heap_inv_say [simp]: "heap_inv (say ms s) bs us = heap_inv s bs us"
  by (simp add: heap_inv_def free_rel_def used_rel_def)

lemma heap_inv_trace [simp]: "heap_inv (s\<lparr>trace := t\<rparr>) bs us = heap_inv s bs us"
  by (simp add: heap_inv_def free_rel_def used_rel_def)

text \<open>Filling an array of words, and reading it back.\<close>

lemma unat_cells: "unat p + 4 * n \<le> 2 ^ 32 \<Longrightarrow> i < n \<Longrightarrow> unat (p + 4 * of_nat i) = unat p + 4 * i" for p :: u32
  by (simp add: unat_word_ariths unat_of_nat)

lemma sep4_dist:
  assumes "unat x + 4 \<le> unat y \<or> unat y + 4 \<le> unat x" "unat x + 4 \<le> 2 ^ 32" "unat y + 4 \<le> 2 ^ 32"
  shows "sep4 x y"
proof -
  have u: "unat (z + k) = unat z + unat k" "unat k < 4" if "unat z + 4 \<le> 2 ^ 32" "k \<in> {0, 1, 2, 3}" for z k :: u32
    using that by (auto simp: unat_word_ariths)
  have "x + k \<noteq> y + j" if k: "k \<in> {0, 1, 2, 3}" and j: "j \<in> {0, 1, 2, 3}" for k j
  proof
    assume "x + k = y + j"
    then have "unat x + unat k = unat y + unat j" using u(1) [OF assms(2) k] u(1) [OF assms(3) j] by simp
    then show False using u(2) [OF assms(2) k] u(2) [OF assms(3) j] assms(1) by linarith
  qed
  then show ?thesis by (simp add: sep4_def)
qed

lemma store_words:
  fixes s :: "'a cpu_scheme"
  assumes np: "\<not> paging s" and b: "unat p + 4 * n \<le> 2 ^ 32"
  shows "\<exists>m. foldE (\<lambda>i s. st32 (p + 4 * of_nat i) (g i) s) [0..<n] s = Inr (s\<lparr>ram := m\<rparr>) \<and>
    agree {unat p ..< unat p + 4 * n} (ram s) m \<and> (\<forall>j < n. rd32 m (p + 4 * of_nat j) = g j)"
proof -
  let ?I = "\<lambda>x t. \<exists>m. t = s\<lparr>ram := m\<rparr> \<and> agree {unat p ..< unat p + 4 * n} (ram s) m \<and>
    (\<forall>j < x. rd32 m (p + 4 * of_nat j) = g j)"
  note u = unat_cells [OF b]
  have "?I 0 s" by (intro exI [of _ "ram s"]) simp
  moreover have "\<exists>t'. st32 (p + 4 * of_nat x) (g x) t = Inr t' \<and> ?I (Suc x) t'" if x: "x < n" and I: "?I x t" for x t
  proof -
    obtain m where m: "t = s\<lparr>ram := m\<rparr>" "agree {unat p ..< unat p + 4 * n} (ram s) m"
        "\<forall>j < x. rd32 m (p + 4 * of_nat j) = g j" using I by blast
    let ?m = "wr32 (p + 4 * of_nat x) (g x) m"
    have "agree {unat p ..< unat p + 4 * n} m ?m" using u [OF x] x b by (intro agree_wr32) auto
    then have "agree {unat p ..< unat p + 4 * n} (ram s) ?m" by (rule agree_trans [OF m(2)])
    moreover have "rd32 ?m (p + 4 * of_nat j) = g j" if j: "j < Suc x" for j
    proof (cases "j = x")
      case True
      then show ?thesis by (simp add: mem_simps)
    next
      case False
      then have "sep4 (p + 4 * of_nat x) (p + 4 * of_nat j)"
        using j u [OF x] u [of j] x b by (intro sep4_dist) auto
      then show ?thesis using m(3) j False by (simp add: mem_simps)
    qed
    ultimately show ?thesis using np by (intro exI [of _ "s\<lparr>ram := ?m\<rparr>"]) (auto simp: m(1) ram_run)
  qed
  ultimately have "\<exists>s'. foldE (\<lambda>i s. st32 (p + 4 * of_nat i) (g i) s) [0..<n] s = Inr s' \<and> ?I n s'"
    by (rule foldE_inv [OF le0])
  then show ?thesis by blast
qed

lemma count_errors_none:
  assumes "\<not> paging s" "\<forall>j < 100. rd32 (ram s) (p + 4 * of_nat j) = of_nat j * of_nat j"
  shows "count_errors p s = Inr 0"
proof -
  have "\<exists>e. count_errors p s = Inr e \<and> e = 0"
    unfolding count_errors_def using assms by (intro foldE_inv [OF le0]) (auto simp: run_simps)
  then show ?thesis by blast
qed

text \<open>
  \<open>test_real_memory\<close> passes on any heap that has a block for it: it returns, reports PASS, and
  leaves the heap exactly as it found it, the same free blocks and the same blocks in use.
\<close>

lemma test_real_memory_passes:
  fixes s :: "'a old_heap_scheme"
  assumes inv: "heap_inv s bs us" and fuel: "HEAP_FUEL \<le> fuel" and cut: "can_cut 400 bs" and fit: "\<exists>b \<in> set bs. 400 \<le> snd b"
  shows "\<exists>s'. test_real_memory fuel s = Inr s' \<and> heap_inv s' bs us \<and>
    trace s' = trace s @ map Vga_Print [[LF] @ ''[TEST] Testing REAL memory access...'' @ [LF],
      ''[TEST] Writing data to allocated memory...'' @ [LF], ''[TEST] Verifying data...'' @ [LF],
      ''[TEST] PASS: Memory read/write works!'' @ [LF]]"
proof -
  define m1 where "m1 = [LF] @ ''[TEST] Testing REAL memory access...'' @ [LF]"
  define m2 where "m2 = ''[TEST] Writing data to allocated memory...'' @ [LF]"
  define m3 where "m3 = ''[TEST] Verifying data...'' @ [LF]"
  define m4 where "m4 = ''[TEST] PASS: Memory read/write works!'' @ [LF]"
  have r: "round16 (100 * 4) = 400" by (simp add: round16_def)
  have "heap_inv (say [m1] s) bs us" "(100 * 4 :: u32) \<noteq> 0" using inv by simp_all
  then obtain a m bs1 s1 where s1: "KMALLOC fuel (100 * 4) (say [m1] s) = Inr (a + 20, s1)" "heap_inv s1 bs1 ((a, m) # us)"
      "quiet (say [m1] s) s1" "a + 20 \<noteq> 0" "400 \<le> m"
      "\<And>s2 :: 'a old_heap_scheme. heap_inv s2 bs1 ((a, m) # us) \<Longrightarrow>
        \<exists>s3. KFREE fuel (a + 20) s2 = Inr s3 \<and> heap_inv s3 bs us \<and> quiet s2 s3"
    using borrow [of "say [m1] s" bs us "100 * 4" fuel] fuel cut fit unfolding r by metis
  have np: "\<not> paging s1" using s1(2) by (simp add: heap_inv_def free_rel_def)
  note a = used_nonzero [OF s1(2), of a m, simplified]
  have m400: "400 \<le> unat m" using s1(5) by (simp add: word_le_nat_alt)
  have "unat (a + 20) + 4 * 100 \<le> 2 ^ 32" using a m400 by (simp add: block_end_def)
  from store_words [of "say [m2] s1", OF _ this, of "\<lambda>i. of_nat i * of_nat i"] np
  obtain mm where mm: "store_squares (a + 20) (say [m2] s1) = Inr ((say [m2] s1)\<lparr>ram := mm\<rparr>)"
      "agree {unat (a + 20) ..< unat (a + 20) + 400} (ram s1) mm"
      "\<forall>j < 100. rd32 mm (a + 20 + 4 * of_nat j) = of_nat j * of_nat j"
    by (auto simp: store_squares_def)
  define s2 where "s2 = (say [m2] s1)\<lparr>ram := mm\<rparr>"
  have "agree (payload 4 (a, m)) (ram s1) mm"
    by (rule agree_mono [OF mm(2)]) (use a(2) m400 in \<open>auto simp: payload_def block_end_def\<close>)
  then have inv2: "heap_inv s2 bs1 ((a, m) # us)"
    using store_inv [of "say [m2] s1" bs1 "(a, m) # us" "(a, m)" mm] s1(2) by (simp add: s2_def)
  have e: "count_errors (a + 20) (say [m3] s2) = Inr 0"
    using np mm(3) by (intro count_errors_none) (simp_all add: s2_def)
  obtain s3 where s3: "KFREE fuel (a + 20) (say [m4] (say [m3] s2)) = Inr s3" "heap_inv s3 bs us"
      "quiet (say [m4] (say [m3] s2)) s3"
    using s1(6) [of "say [m4] (say [m3] s2)"] inv2 by auto
  have "test_real_memory fuel s = Inr s3"
    unfolding test_real_memory_def Let_def m1_def [symmetric] m2_def [symmetric] m3_def [symmetric] m4_def [symmetric]
      s1(1) bindE_simps prod.case if_not_P [OF s1(4)] mm(1) s2_def [symmetric] e if_P [OF refl] by (rule s3(1))
  moreover have "trace s3 = trace s @ map Vga_Print [m1, m2, m3, m4]"
    using s3(3) s1(3) by (simp add: quiet_def s2_def)
  ultimately show ?thesis
    using s3(2) unfolding m1_def m2_def m3_def m4_def by blast
qed

end
