(* ===== verification/Ultimate.thy ===== *)
theory Ultimate
  imports Old_Debug
begin

text \<open>
  A run of \<open>ultimate_test\<close> of \<open>old/Include/DEBUG.c\<close> on the heap \<open>HEAP_INIT\<close> builds.  The heap holds
  509 blocks of 4096 bytes, with 2088 bytes left over; so 510 rounds of the filling loop are enough,
  and the test goes on to report an error that is none: a request of 100 bytes still succeeds.
\<close>

section \<open>The blocks\<close>

definition base :: "nat \<Rightarrow> u32" where "base i = 0x200000 + 4116 * of_nat i"
definition blk :: "nat \<Rightarrow> u32 \<times> u32" where "blk i = (base i, 4096)"
definition ptr :: "nat \<Rightarrow> u32" where "ptr i = base i + 20"
definition tail :: "nat \<Rightarrow> u32 \<times> u32" where "tail n = (base n, 0x1FFFEC - 4116 * of_nat n)"

text \<open>The first \<open>n\<close> blocks, in the order of the used list.\<close>

definition ublks :: "nat \<Rightarrow> blocks" where "ublks n = map blk (rev [0..<n])"

lemma ublks_Suc: "ublks (Suc n) = blk n # ublks n"
  by (simp add: ublks_def)

lemma set_ublks: "set (ublks n) = blk ` {0..<n}"
  by (simp add: ublks_def)

lemma unat_base: "i \<le> 509 \<Longrightarrow> unat (base i) = 0x200000 + 4116 * i"
  by (simp add: base_def unat_word_ariths unat_of_nat)

lemma unat_tail: "n \<le> 509 \<Longrightarrow> unat (snd (tail n)) = 0x1FFFEC - 4116 * n"
proof -
  assume n: "n \<le> 509"
  then have u: "unat (4116 * of_nat n :: u32) = 4116 * n" by (simp add: unat_word_ariths unat_of_nat)
  then have "4116 * of_nat n \<le> (0x1FFFEC :: u32)" using n by (simp add: word_le_nat_alt)
  then show ?thesis using u by (simp add: tail_def unat_sub)
qed

lemma tail_0: "tail 0 = (0x200000, 0x1FFFEC)"
  by (simp add: tail_def base_def)

lemma tail_509: "tail 509 = (0x3FF7C4, 2088)"
  by (simp add: tail_def base_def)

lemma round16_4096: "round16 4096 = 4096" and round16_2048: "round16 2048 = 2048"
  and round16_128: "round16 128 = 128" and round16_huge: "round16 0x400000 = 0x400000"
  by (simp_all add: round16_def)

lemma tail_room:
  assumes "n \<le> 508"
  shows "can_cut 4096 [tail n]" "take_fit 4 (old_rest 4096) 4096 [tail n] = Some (blk n, [tail (Suc n)])"
proof -
  have u: "6204 \<le> unat (snd (tail n))" using assms by (simp add: unat_tail)
  then show "can_cut 4096 [tail n]" by (intro can_cut_all) simp
  have le: "4096 \<le> snd (tail n)" using u by (simp add: word_le_nat_alt)
  have "snd (tail (Suc n)) = snd (tail n) - 4096 - 20" by (simp add: tail_def algebra_simps)
  moreover have "unat (snd (tail (Suc n))) \<ge> 32" using assms by (simp add: unat_tail)
  ultimately have r: "old_rest 4096 (snd (tail n)) = Some (snd (tail (Suc n)))"
    by (simp add: old_rest_def word_le_nat_alt)
  have t: "tail n = (base n, snd (tail n))" by (simp add: tail_def)
  have "base n + (16 + 4) + 4096 = base (Suc n)" by (simp add: base_def algebra_simps)
  then have t': "(base n + (16 + 4) + 4096, snd (tail (Suc n))) = tail (Suc n)" by (simp add: tail_def)
  show "take_fit 4 (old_rest 4096) 4096 [tail n] = Some (blk n, [tail (Suc n)])"
    by (subst t, subst take_fit.simps) (use le r t' in \<open>simp add: blk_def\<close>)
qed

section \<open>Filling the heap\<close>

definition filled :: "nat \<Rightarrow> u32 list \<times> nat" where
  "filled n = (map ptr [0..<n] @ replicate (512 - n) 0, n)"

definition last_ptr :: "nat \<Rightarrow> u32" where
  "last_ptr n = (if n = 0 then 0 else ptr (n - 1))"

lemma remember_filled: "n < 512 \<Longrightarrow> remember (ptr n) (filled n) = filled (Suc n)"
proof -
  assume n: "n < 512"
  then have "replicate (512 - n) (0 :: u32) = 0 # replicate (512 - Suc n) 0"
    by (metis Suc_diff_Suc replicate_Suc)
  then show ?thesis using n by (simp add: remember_def filled_def MAX_ALLOCS_def list_update_append)
qed

definition prints :: "'a cpu_scheme \<Rightarrow> 'a cpu_scheme \<Rightarrow> bool" where
  "prints s s' \<longleftrightarrow> set (trace s) \<subseteq> set (trace s')"

lemma prints_rules:
  "prints s s" "prints s t \<Longrightarrow> prints t u \<Longrightarrow> prints s u" "quiet s t \<Longrightarrow> prints s t" "prints s (say ms s)"
  "prints s (s\<lparr>trace := trace s @ ts\<rparr>)" "prints s (oom_message sz s)" "prints s (s\<lparr>ram := m\<rparr>)"
  by (auto simp: prints_def quiet_def oom_message_def)

lemma store_marker:
  assumes inv: "heap_inv s bs us" and b: "(a, m) \<in> set us" and m: "4 \<le> unat m"
  shows "st32 (a + 20) v s = Inr (s\<lparr>ram := wr32 (a + 20) v (ram s)\<rparr>)"
    "heap_inv (s\<lparr>ram := wr32 (a + 20) v (ram s)\<rparr>) bs us"
proof -
  note u = used_nonzero [OF inv b]
  show "st32 (a + 20) v s = Inr (s\<lparr>ram := wr32 (a + 20) v (ram s)\<rparr>)"
    using inv by (simp add: heap_inv_def free_rel_def run_simps)
  have "agree (payload 4 (a, m)) (ram s) (wr32 (a + 20) v (ram s))"
    using u m by (intro agree_wr32) (auto simp: payload_def block_end_def)
  then show "heap_inv (s\<lparr>ram := wr32 (a + 20) v (ram s)\<rparr>) bs us" by (rule store_inv [OF inv b])
qed

definition full_message :: "string list" where
  "full_message = [''[ULTIMATE]   Heap full after '', int_to_str 2084864, '' bytes ('', int_to_str 509, '' allocations)'' @ [LF]]"

lemma fill_run:
  assumes "n \<le> 509" "heap_inv s [tail n] (ublks n)" "509 - n < rounds" "HEAP_FUEL \<le> fuel"
    and "n \<noteq> 0 \<longrightarrow> rd32 (ram s) (last_ptr n) = 0xDEADBEEF"
  shows "\<exists>s'. fill_heap rounds fuel (filled n) (4096 * of_nat n) (last_ptr n) s = Inr (filled 509, 2084864, ptr 508, s') \<and>
    heap_inv s' [tail 509] (ublks 509) \<and> rd32 (ram s') (ptr 508) = 0xDEADBEEF \<and>
    prints s s' \<and> Vga_Print ` set full_message \<subseteq> set (trace s')"
  using assms
proof (induction "509 - n" arbitrary: n s rounds)
  case 0
  then have n: "n = 509" by simp
  obtain r where r: "rounds = Suc r" using 0(4) by (cases rounds) auto
  have t: "take_fit 4 (old_rest (round16 4096)) (round16 4096) [tail 509] = None"
    by (simp add: tail_509 round16_4096)
  have inv: "heap_inv s [tail 509] (ublks 509)" using 0(3) by (simp only: n)
  have "(4096 :: u32) \<noteq> 0" by simp
  note none = KMALLOC_none [OF inv this 0(5) t]
  define s1 where "s1 = say full_message (oom_message (round16 4096) s)"
  have "fill_heap rounds fuel (filled n) (4096 * of_nat n) (last_ptr n) s = Inr (filled 509, 2084864, ptr 508, s1)"
    using none(1) by (simp add: r n filled_def last_ptr_def s1_def full_message_def del: upt.simps upt_Suc)
  moreover have "heap_inv s1 [tail 509] (ublks 509)" using none(2) by (simp only: s1_def heap_inv_say)
  moreover have "rd32 (ram s1) (ptr 508) = 0xDEADBEEF"
    using 0(6) by (simp add: n s1_def oom_message_def last_ptr_def)
  moreover have "prints s s1" unfolding s1_def by (rule prints_rules(2) [OF prints_rules(6,4)])
  moreover have "Vga_Print ` set full_message \<subseteq> set (trace s1)" unfolding s1_def say_simps by auto
  ultimately show ?case by blast
next
  case (Suc k)
  have n: "n \<le> 508" and k: "k = 509 - Suc n" using Suc(2) by simp_all
  obtain r where r: "rounds = Suc r" "509 - Suc n < r" using Suc(5) n by (cases rounds) auto
  note room = tail_room [OF n]
  obtain s1 where s1: "KMALLOC fuel 4096 s = Inr (ptr n, s1)" "heap_inv s1 [tail (Suc n)] (blk n # ublks n)"
      "quiet s s1"
    using KMALLOC_inv [OF Suc(4) _ Suc(6), of 4096 "base n" 4096 "[tail (Suc n)]"] room
    by (auto simp: round16_4096 blk_def ptr_def)
  define s2 where "s2 = s1\<lparr>ram := wr32 (ptr n) 0xDEADBEEF (ram s1)\<rparr>"
  note us = ublks_Suc [of n]
  have p: "ptr n \<noteq> 0" using used_nonzero(1) [OF s1(2), of "base n" 4096] by (simp add: blk_def ptr_def)
  have s2: "st32 (ptr n) 0xDEADBEEF s1 = Inr s2" "heap_inv s2 [tail (Suc n)] (ublks (Suc n))"
    using store_marker [OF s1(2), of "base n" 4096 "0xDEADBEEF"] unfolding us s2_def ptr_def by (simp_all add: blk_def)
  have "rd32 (ram s2) (last_ptr (Suc n)) = 0xDEADBEEF" by (simp add: s2_def last_ptr_def mem_simps)
  with Suc(1) [OF k _ s2(2) r(2) Suc(6)] n obtain s' where s':
      "fill_heap r fuel (filled (Suc n)) (4096 * of_nat (Suc n)) (last_ptr (Suc n)) s2 = Inr (filled 509, 2084864, ptr 508, s')"
      "heap_inv s' [tail 509] (ublks 509)" "rd32 (ram s') (ptr 508) = 0xDEADBEEF"
      "prints s2 s'" "Vga_Print ` set full_message \<subseteq> set (trace s')" by auto
  have e: "4096 * of_nat n + 4096 = (4096 * of_nat (Suc n) :: u32)" "last_ptr (Suc n) = ptr n"
    by (simp_all add: last_ptr_def algebra_simps)
  have "fill_heap rounds fuel (filled n) (4096 * of_nat n) (last_ptr n) s = Inr (filled 509, 2084864, ptr 508, s')"
    using s1(1) s2(1) p s'(1) n unfolding r(1)
    by (simp add: remember_filled e del: of_nat_Suc)
  moreover have "prints s s'"
    using s1(3) s'(4) by (auto simp: prints_def quiet_def s2_def)
  ultimately show ?case using s' by blast
qed

section \<open>A full heap, and one block released\<close>

lemma keep_word:
  assumes inv: "heap_inv s bs us" and b: "(a, m) \<in> set us" and m: "4 \<le> unat m"
    and g: "agree S (ram s) m'" and S: "payload 4 (a, m) \<inter> S = {}"
  shows "rd32 m' (a + 20) = rd32 (ram s) (a + 20)"
proof -
  note u = used_nonzero [OF inv b]
  have "m' (a + 20 + i) = ram s (a + 20 + i)" if i: "i \<in> {0, 1, 2, 3}" for i
  proof (rule agree_at [OF g _ S])
    have "unat (a + 20 + i) = unat a + 20 + unat i" "unat i < 4"
      using u m i by (auto simp: unat_word_ariths block_end_def)
    then show "unat (a + 20 + i) \<in> payload 4 (a, m)" using m by (auto simp: payload_def block_end_def)
  qed
  from this [of 0] this [of 1] this [of 2] this [of 3] show ?thesis by (simp add: rd32_def)
qed

lemma ptr_inject: "i \<le> 509 \<Longrightarrow> j \<le> 509 \<Longrightarrow> ptr i = ptr j \<longleftrightarrow> i = j"
proof
  assume A: "i \<le> 509" "j \<le> 509" "ptr i = ptr j"
  then have "unat (base i) = unat (base j)" by (simp only: ptr_def add_right_cancel)
  then show "i = j" unfolding unat_base [OF A(1)] unat_base [OF A(2)] by simp
qed simp

lemma ptr_nonzero: "i \<le> 509 \<Longrightarrow> ptr i \<noteq> 0"
proof -
  assume "i \<le> 509"
  then have "unat (ptr i) = 0x200000 + 4116 * i + 20" by (simp add: ptr_def unat_word_ariths unat_base)
  then show ?thesis by auto
qed

definition full_error :: string where
  "full_error = ''[ULTIMATE]   '' @ cross_mark @ '' ERROR: Should not allocate when heap full!'' @ [LF]"

lemma full_run:
  assumes inv: "heap_inv s [tail 509] (ublks 509)" and fuel: "HEAP_FUEL \<le> fuel"
    and mark: "rd32 (ram s) (ptr 508) = 0xDEADBEEF"
  shows "\<exists>s'. ultimate_full fuel (filled 509) s = Inr (filled 510, s') \<and>
    heap_inv s' [(0x3FF848, 1956)] ((0x3FF7C4, 112) # ublks 509) \<and>
    rd32 (ram s') (ptr 508) = 0xDEADBEEF \<and> prints s s' \<and> Vga_Print full_error \<in> set (trace s')"
proof -
  define m1 where "m1 = ''[ULTIMATE] 3. Testing allocation when heap full...'' @ [LF]"
  have c: "can_cut (round16 100) [tail 509]" "(100 :: u32) \<noteq> 0"
    "take_fit 4 (old_rest (round16 100)) (round16 100) [tail 509] = Some ((0x3FF7C4, 112), [(0x3FF848, 1956)])"
    by (simp_all add: tail_509 round16_100 can_cut_def old_rest_def)
  have inv': "heap_inv (say [m1] s) [tail 509] (ublks 509)" using inv by simp
  obtain s1 where s1: "KMALLOC fuel 100 (say [m1] s) = Inr (0x3FF7C4 + 20, s1)"
      "heap_inv s1 [(0x3FF848, 1956)] ((0x3FF7C4, 112) # ublks 509)" "quiet (say [m1] s) s1"
      "agree (heads 4 (ublks 509) \<union> bytes 4 [tail 509]) (ram (say [m1] s)) (ram s1)"
    using KMALLOC_inv [OF inv' c(2) fuel c(1,3)] by blast
  have b: "(base 508, 4096) \<in> set (ublks 509)" unfolding set_ublks blk_def by (rule image_eqI [of _ _ 508]) simp_all
  have "rd32 (ram s1) (ptr 508) = 0xDEADBEEF"
    using keep_word [OF inv' b _ s1(4) payload_apart [OF inv' b]] mark by (simp add: ptr_def)
  moreover have p: "0x3FF7C4 + 20 = ptr 509" by (simp add: ptr_def base_def)
  have "ultimate_full fuel (filled 509) s = Inr (filled 510, say [full_error] s1)"
    using remember_filled [of 509] ptr_nonzero [of 509]
    unfolding ultimate_full_def Let_def m1_def [symmetric] s1(1) p full_error_def [symmetric] by simp
  moreover have "prints s (say [full_error] s1)" using s1(3) by (auto simp: prints_def quiet_def)
  ultimately show ?thesis using s1(2) by (intro exI [of _ "say [full_error] s1"]) simp
qed

definition reused :: "u32 list" where
  "reused = (fst (filled 510))[508 := 0, 510 := ptr 508]"

lemma nth_filled: "i < 512 \<Longrightarrow> n \<le> 512 \<Longrightarrow> fst (filled n) ! i = (if i < n then ptr i else 0)"
  by (simp add: filled_def nth_append)

lemma length_filled: "n \<le> 512 \<Longrightarrow> length (fst (filled n)) = 512"
  by (simp add: filled_def)

lemma forget_508: "forget (ptr 508) (filled 510) = ((fst (filled 510))[508 := 0], 510)"
proof -
  have f: "fst (filled 510) ! i = ptr i" if "i < 510" for i using nth_filled [of i 510] that by simp
  have "find (\<lambda>i. fst (filled 510) ! i = ptr 508) [0..<510] = Some 508"
    unfolding find_Some_iff
  proof (intro exI [of _ 508] conjI allI impI)
    fix j :: nat assume "j < 508"
    then show "fst (filled 510) ! ([0..<510] ! j) \<noteq> ptr 508"
      using f [of j] ptr_inject [of j 508] by (simp del: upt.simps upt_Suc)
  qed (use f [of 508] in \<open>simp_all del: upt.simps upt_Suc\<close>)
  then show ?thesis by (simp add: forget_def filled_def del: upt.simps upt_Suc)
qed

lemma remember_510: "remember (ptr 508) ((fst (filled 510))[508 := 0], 510) = (reused, 511)"
  by (simp add: remember_def MAX_ALLOCS_def reused_def)

definition reuse_messages :: "string list" where
  "reuse_messages = [''[ULTIMATE]   '' @ check_mark @ '' Memory content preserved'' @ [LF],
     ''[ULTIMATE]   '' @ check_mark @ '' Can allocate after free'' @ [LF],
     ''[ULTIMATE]   '' @ check_mark @ '' Freed memory is usable'' @ [LF]]"

lemma blk_508: "blk 508 = (0x3FE7B0, 4096)"
  by (simp add: blk_def base_def)

lemma ptr_508: "ptr 508 = 0x3FE7B0 + 20"
  by (simp add: ptr_def base_def)

lemma reuse_run:
  assumes inv: "heap_inv s [(0x3FF848, 1956)] ((0x3FF7C4, 112) # ublks 509)" and fuel: "HEAP_FUEL \<le> fuel"
    and mark: "rd32 (ram s) (ptr 508) = 0xDEADBEEF"
  shows "\<exists>s'. ultimate_reuse fuel (filled 510) (ptr 508) s = Inr ((reused, 511), s') \<and>
    heap_inv s' [(0x3FE834, 3964), (0x3FF848, 1956)] ((0x3FE7B0, 112) # (0x3FF7C4, 112) # ublks 508) \<and>
    prints s s' \<and> Vga_Print ` set reuse_messages \<subseteq> set (trace s')"
proof -
  define m1 where "m1 = ''[ULTIMATE] 4. Freeing one block and reallocating...'' @ [LF]"
  define m2 where "m2 = ''[ULTIMATE]   '' @ check_mark @ '' Memory content preserved'' @ [LF]"
  define m3 where "m3 = ''[ULTIMATE]   '' @ check_mark @ '' Can allocate after free'' @ [LF]"
  define m4 where "m4 = ''[ULTIMATE]   '' @ check_mark @ '' Freed memory is usable'' @ [LF]"
  have us: "ublks 509 = (0x3FE7B0, 4096) # ublks 508" using ublks_Suc [of 508] by (simp add: blk_508)
  have inv1: "heap_inv (say [m2] (say [m1] s)) [(0x3FF848, 1956)] ([(0x3FF7C4, 112)] @ (0x3FE7B0, 4096) # ublks 508)"
    using inv by (simp add: us)
  obtain s1 where s1: "KFREE fuel (0x3FE7B0 + 20) (say [m2] (say [m1] s)) = Inr s1"
      "heap_inv s1 (merge_adjacent 4 (insert_block (0x3FE7B0, 4096) [(0x3FF848, 1956)])) ([(0x3FF7C4, 112)] @ ublks 508)"
      "quiet (say [m2] (say [m1] s)) s1"
    using KFREE_inv [OF inv1 fuel] by blast
  have mg: "merge_adjacent 4 (insert_block (0x3FE7B0, 4096) [(0x3FF848, 1956)]) = [(0x3FE7B0, 4096), (0x3FF848, 1956)]"
    by simp
  have inv2: "heap_inv s1 [(0x3FE7B0, 4096), (0x3FF848, 1956)] ((0x3FF7C4, 112) # ublks 508)"
    using s1(2) unfolding mg by simp
  have c: "can_cut (round16 100) [(0x3FE7B0, 4096), (0x3FF848, 1956)]" "(100 :: u32) \<noteq> 0"
    "take_fit 4 (old_rest (round16 100)) (round16 100) [(0x3FE7B0, 4096), (0x3FF848, 1956)] =
       Some ((0x3FE7B0, 112), [(0x3FE834, 3964), (0x3FF848, 1956)])"
    by (simp_all add: round16_100 can_cut_def old_rest_def)
  obtain s2 where s2: "KMALLOC fuel 100 s1 = Inr (0x3FE7B0 + 20, s2)"
      "heap_inv s2 [(0x3FE834, 3964), (0x3FF848, 1956)] ((0x3FE7B0, 112) # (0x3FF7C4, 112) # ublks 508)" "quiet s1 s2"
    using KMALLOC_inv [OF inv2 c(2) fuel c(1,3)] by blast
  let ?s3 = "say [m3] s2"
  have inv3: "heap_inv ?s3 [(0x3FE834, 3964), (0x3FF848, 1956)] ((0x3FE7B0, 112) # (0x3FF7C4, 112) # ublks 508)"
    using s2(2) by simp
  define s4 where "s4 = ?s3\<lparr>ram := wr32 (0x3FE7B0 + 20) 0xCAFEBABE (ram ?s3)\<rparr>"
  have st: "st32 (0x3FE7B0 + 20) 0xCAFEBABE ?s3 = Inr s4"
    "heap_inv s4 [(0x3FE834, 3964), (0x3FF848, 1956)] ((0x3FE7B0, 112) # (0x3FF7C4, 112) # ublks 508)"
    using store_marker [OF inv3, of "0x3FE7B0" 112] by (simp_all add: s4_def)
  have np: "\<not> paging s" "\<not> paging s4" using inv st(2) by (simp_all add: heap_inv_def free_rel_def)
  have ld: "ld32 (0x3FE7B0 + 20) (say [m1] s) = Inr 0xDEADBEEF" "ld32 (0x3FE7B0 + 20) s4 = Inr 0xCAFEBABE"
    using mark np unfolding ptr_508 by (simp_all add: ld32_direct s4_def mem_simps)
  have nz: "(0x3FE7B0 + 20 :: u32) \<noteq> 0" by simp
  note f = st(1) [folded ptr_508] ld [folded ptr_508] s1(1) [folded ptr_508] s2(1) [folded ptr_508] nz [folded ptr_508]
  have "ultimate_reuse fuel (filled 510) (ptr 508) s = Inr ((reused, 511), say [m4] s4)"
    unfolding ultimate_reuse_def Let_def m1_def [symmetric] m2_def [symmetric] m3_def [symmetric] m4_def [symmetric]
    by (simp only: f forget_508 remember_510 bindE_simps prod.case if_True if_False refl simp_thms)
  moreover have "prints s (say [m4] s4)" "Vga_Print ` set reuse_messages \<subseteq> set (trace (say [m4] s4))"
    using s1(3) s2(3) by (auto simp: prints_def quiet_def s4_def reuse_messages_def m2_def m3_def m4_def)
  ultimately show ?thesis using st(2) by (intro exI [of _ "say [m4] s4"]) simp
qed

section \<open>Releasing saved blocks\<close>

definition cleared :: "u32 list \<Rightarrow> nat set \<Rightarrow> u32 list" where
  "cleared xs S = map (\<lambda>i. if i \<in> S then 0 else xs ! i) [0..<length xs]"

lemma length_cleared [simp]: "length (cleared xs S) = length xs"
  by (simp add: cleared_def)

lemma nth_cleared: "i < length xs \<Longrightarrow> cleared xs S ! i = (if i \<in> S then 0 else xs ! i)"
  by (simp add: cleared_def)

lemma cleared_update: "i < length xs \<Longrightarrow> cleared (xs[i := 0]) S = cleared xs (insert i S)"
  by (rule nth_equalityI) (auto simp: nth_cleared nth_list_update)

text \<open>The blocks in use whose pointers are not among \<open>ps\<close>.\<close>

definition keeps :: "u32 set \<Rightarrow> blocks \<Rightarrow> blocks" where
  "keeps ps us = filter (\<lambda>b. fst b + 20 \<notin> ps) us"

lemma keeps_one:
  assumes "heap_inv s bs (us @ (a, m) # vs)"
  shows "keeps {a + 20} (us @ (a, m) # vs) = us @ vs"
proof -
  have ap: "blocks_apart 4 (us @ (a, m) # vs)" using assms by (simp add: heap_inv_def used_rel_def)
  have "fst c \<noteq> a" if "c \<in> set (us @ vs)" for c
  proof
    assume "fst c = a"
    then have "unat a \<in> extent 4 c" by (simp add: extent_def)
    then have "unat a \<in> bytes 4 (us @ vs)" using that by (auto simp: bytes_def)
    then show False using apart_remove(2) [OF ap] extent_start [of a 4 m] by blast
  qed
  then have "filter (\<lambda>b. fst b + 20 \<notin> {a + 20}) (us @ vs) = us @ vs" by (subst filter_id_conv) auto
  then show ?thesis by (simp add: keeps_def)
qed

lemma free_step:
  assumes inv: "heap_inv s bs us" and b: "\<exists>b \<in> set us. fst b + 20 = p" and fuel: "HEAP_FUEL \<le> fuel"
  shows "\<exists>s' bs'. KFREE fuel p s = Inr s' \<and> heap_inv s' bs' (keeps {p} us) \<and> quiet s s'"
proof -
  obtain a m where am: "(a, m) \<in> set us" "p = a + 20" using b by auto
  then obtain vs ws where us: "us = vs @ (a, m) # ws" by (metis split_list)
  from KFREE_inv [OF inv [unfolded us] fuel] keeps_one [OF inv [unfolded us]] show ?thesis
    unfolding us am(2) by metis
qed

text \<open>The loop: distinct pointers to blocks in use, at the indices given, are all released.\<close>

lemma free_saved_run:
  fixes s :: "'a old_heap_scheme"
  assumes "heap_inv s bs us" "HEAP_FUEL \<le> fuel" "distinct is" "\<forall>i \<in> set is. i < length xs"
    and "\<forall>i \<in> set is. xs ! i \<noteq> 0 \<longrightarrow> (\<exists>b \<in> set us. fst b + 20 = xs ! i)"
    and "\<forall>i \<in> set is. \<forall>j \<in> set is. xs ! i \<noteq> 0 \<and> i \<noteq> j \<longrightarrow> xs ! i \<noteq> xs ! j"
  shows "\<exists>k s' bs'. foldE (\<lambda>i (allocations, n, s).
       if allocations ! i \<noteq> 0
       then bindE (KFREE fuel (allocations ! i) s) (\<lambda>s. Inr (allocations[i := 0], n + 1, s))
       else Inr (allocations, n, s)) is (xs, c :: u32, s) = Inr (cleared xs (set is), k, s') \<and>
    heap_inv s' bs' (filter (\<lambda>b. fst b + 20 \<notin> (!) xs ` set is \<or> fst b + 20 = 0) us) \<and> quiet s s'"
  using assms
proof (induction "is" arbitrary: xs c s bs us)
  case Nil
  have "cleared xs {} = xs" by (rule nth_equalityI) (simp_all add: nth_cleared)
  then show ?case using Nil by (auto simp: quiet_def)
next
  case (Cons i js)
  let ?f = "\<lambda>i (allocations, n, s :: 'a old_heap_scheme).
       if allocations ! i \<noteq> 0
       then bindE (KFREE fuel (allocations ! i) s) (\<lambda>s. Inr (allocations[i := 0], n + 1, s))
       else Inr (allocations, n, s)"
  have i: "i < length xs" "i \<notin> set js" using Cons.prems(3,4) by simp_all
  show ?case
  proof (cases "xs ! i = 0")
    case True
    have "cleared xs (set (i # js)) = cleared xs (set js)"
      using True by (intro nth_equalityI) (auto simp: nth_cleared)
    moreover have "filter (\<lambda>b. fst b + 20 \<notin> (!) xs ` set (i # js) \<or> fst b + 20 = 0) us =
        filter (\<lambda>b. fst b + 20 \<notin> (!) xs ` set js \<or> fst b + 20 = 0) us"
      using True by (intro filter_cong) auto
    ultimately show ?thesis
      using Cons.IH [OF Cons.prems(1,2), of xs c] Cons.prems(3-6) True by simp
  next
    case False
    obtain s1 bs1 where s1: "KFREE fuel (xs ! i) s = Inr s1" "heap_inv s1 bs1 (keeps {xs ! i} us)" "quiet s s1"
      using free_step [OF Cons.prems(1) _ Cons.prems(2), of "xs ! i"] Cons.prems(5) False by auto
    have o: "xs[i := 0] ! j = xs ! j" if "j \<in> set js" for j using that i by (auto simp: nth_list_update)
    have "\<forall>j \<in> set js. xs[i := 0] ! j \<noteq> 0 \<longrightarrow> (\<exists>b \<in> set (keeps {xs ! i} us). fst b + 20 = xs[i := 0] ! j)"
    proof (intro ballI impI)
      fix j assume j: "j \<in> set js" "xs[i := 0] ! j \<noteq> 0"
      then have "xs ! j \<noteq> 0" "j \<in> set (i # js)" using o [OF j(1)] by simp_all
      then obtain b where "b \<in> set us" "fst b + 20 = xs ! j" using Cons.prems(5) by blast
      moreover have "xs ! j \<noteq> xs ! i" using Cons.prems(6) False j(1) i(2) by auto
      ultimately show "\<exists>b \<in> set (keeps {xs ! i} us). fst b + 20 = xs[i := 0] ! j"
        by (intro bexI [of _ b]) (simp_all add: o j keeps_def)
    qed
    moreover have "\<forall>j \<in> set js. \<forall>l \<in> set js. xs[i := 0] ! j \<noteq> 0 \<and> j \<noteq> l \<longrightarrow> xs[i := 0] ! j \<noteq> xs[i := 0] ! l"
      using Cons.prems(6) by (simp add: o)
    ultimately obtain k s' bs' where s': "foldE ?f js (xs[i := 0], c + 1, s1) = Inr (cleared (xs[i := 0]) (set js), k, s')"
        "heap_inv s' bs' (filter (\<lambda>b. fst b + 20 \<notin> (!) (xs[i := 0]) ` set js \<or> fst b + 20 = 0) (keeps {xs ! i} us))" "quiet s1 s'"
      using Cons.IH [OF s1(2) Cons.prems(2), of "xs[i := 0]" "c + 1"] Cons.prems(3,4) by auto
    have "(!) (xs[i := 0]) ` set js = (!) xs ` set js" using o by (intro image_cong) auto
    then have "filter (\<lambda>b. fst b + 20 \<notin> (!) (xs[i := 0]) ` set js \<or> fst b + 20 = 0) (keeps {xs ! i} us) =
        filter (\<lambda>b. fst b + 20 \<notin> (!) xs ` set (i # js) \<or> fst b + 20 = 0) us"
      using False unfolding keeps_def filter_filter by (intro filter_cong) auto
    moreover have "foldE ?f (i # js) (xs, c, s) = Inr (cleared xs (set (i # js)), k, s')"
      using s1(1) s'(1) False i(1) by (simp add: cleared_update)
    ultimately show ?thesis using s'(2) quiet_trans [OF s1(3) s'(3)] by (intro exI [of _ k] exI [of _ s'] exI [of _ bs']) simp
  qed
qed

text \<open>The blocks in use that remain when the pointers of the entries \<open>is\<close> have been released.\<close>

definition kept :: "u32 list \<Rightarrow> nat list \<Rightarrow> blocks \<Rightarrow> blocks" where
  "kept xs is us = filter (\<lambda>b. fst b + 20 \<notin> (!) xs ` set is \<or> fst b + 20 = 0) us"

section \<open>Every other block released\<close>

lemma reused_at:
  "i < 512 \<Longrightarrow> reused ! i =
    (if i < 508 then ptr i else if i = 509 then ptr 509 else if i = 510 then ptr 508 else 0)"
  using nth_filled [of i 510] length_filled [of 510] by (auto simp: reused_def nth_list_update)

lemma length_reused: "length reused = 512"
  using length_filled [of 510] by (simp add: reused_def)

definition evens :: "nat list" where "evens = filter even [0..<511]"

lemma set_evens: "set evens = {i. i < 511 \<and> even i}"
  by (auto simp: evens_def simp del: upt.simps upt_Suc)

lemma reused_evens: "(!) reused ` set evens = insert 0 (ptr ` {i. i \<le> 508 \<and> even i})"
proof
  have "reused ! i \<in> insert 0 (ptr ` {i. i \<le> 508 \<and> even i})" if "i < 511" "even i" for i
  proof -
    have "i \<noteq> 509" using that by auto
    then have "i < 508 \<or> i = 508 \<or> i = 510" using that(1) by arith
    then consider "i < 508" | "i = 508" | "i = 510" by blast
    then show ?thesis using that by cases (auto simp: reused_at)
  qed
  then show "(!) reused ` set evens \<subseteq> insert 0 (ptr ` {i. i \<le> 508 \<and> even i})" by (auto simp: set_evens)
  have "0 \<in> (!) reused ` set evens" by (intro image_eqI [of _ _ 508]) (simp_all add: reused_at set_evens)
  moreover have "ptr i \<in> (!) reused ` set evens" if "i \<le> 508" "even i" for i
  proof (cases "i = 508")
    case True
    then show ?thesis by (intro image_eqI [of _ _ 510]) (simp_all add: reused_at set_evens)
  next
    case False
    then show ?thesis using that by (intro image_eqI [of _ _ i]) (simp_all add: reused_at set_evens)
  qed
  ultimately show "insert 0 (ptr ` {i. i \<le> 508 \<and> even i}) \<subseteq> (!) reused ` set evens" by blast
qed

definition odds :: blocks where "odds = (base 509, 112) # map blk (filter odd (rev [0..<508]))"

lemma fst_blk [simp]: "fst (blk i) = base i" and ptr_of_base: "base i + 20 = ptr i"
  by (simp_all add: blk_def ptr_def)

lemma base_508_509: "base 508 = 0x3FE7B0" "base 509 = 0x3FF7C4"
  by (simp_all add: base_def)

lemma kept_odds: "kept reused evens ((0x3FE7B0, 112) # (0x3FF7C4, 112) # ublks 508) = odds"
proof -
  have g: "ptr i \<notin> insert 0 (ptr ` {i. i \<le> 508 \<and> even i}) \<or> ptr i = 0 \<longleftrightarrow> \<not> (i \<le> 508 \<and> even i)" if "i \<le> 509" for i
  proof -
    have "ptr i \<in> ptr ` {i. i \<le> 508 \<and> even i} \<longleftrightarrow> i \<le> 508 \<and> even i"
    proof
      assume "ptr i \<in> ptr ` {i. i \<le> 508 \<and> even i}"
      then obtain j where "j \<le> 508" "even j" "ptr i = ptr j" by blast
      then show "i \<le> 508 \<and> even i" using ptr_inject [of i j] that by simp
    qed blast
    then show ?thesis using ptr_nonzero [OF that] by blast
  qed
  have "filter (\<lambda>b. fst b + 20 \<notin> insert 0 (ptr ` {i. i \<le> 508 \<and> even i}) \<or> fst b + 20 = 0) (map blk (rev [0..<508])) =
      map blk (filter odd (rev [0..<508]))"
    unfolding filter_map o_def fst_blk ptr_of_base
    by (intro arg_cong [of _ _ "map blk"] filter_cong refl, subst g) (auto simp del: upt.simps upt_Suc)
  then show ?thesis
    using g [of 508] g [of 509]
    unfolding kept_def reused_evens ublks_def odds_def base_508_509 [symmetric] filter.simps fst_conv ptr_of_base by simp
qed

definition gaps :: blocks where "gaps = map blk (filter even [0..<509]) @ [(0x3FF848, 1956)]"

lemma set_gaps: "set gaps = blk ` {i. i \<le> 508 \<and> even i} \<union> {(0x3FF848, 1956)}"
  by (auto simp: gaps_def simp del: upt.simps upt_Suc)

lemma set_odds: "set odds = blk ` {i. i < 508 \<and> odd i} \<union> {(base 509, 112)}"
  by (auto simp: odds_def simp del: upt.simps upt_Suc)

definition slot :: "nat \<Rightarrow> nat" where "slot x = (x - 0x200000) div 4116"

lemma extent_blk: "i \<le> 508 \<Longrightarrow> extent 4 (blk i) = {x. 0x200000 \<le> x \<and> slot x = i}"
  unfolding extent_def slot_def by (auto simp: unat_base blk_def)

lemma bytes_gaps: "bytes 4 gaps = {x. 0x200000 \<le> x \<and> slot x \<le> 508 \<and> even (slot x)} \<union> {0x3FF848 ..< 0x400000}"
proof -
  have "bytes 4 gaps = (\<Union>i \<in> {i. i \<le> 508 \<and> even i}. extent 4 (blk i)) \<union> {0x3FF848 ..< 0x400000}"
    unfolding bytes_def set_gaps by (simp add: extent_def [of 4 "(0x3FF848, 1956)"] Un_commute)
  also have "(\<Union>i \<in> {i. i \<le> 508 \<and> even i}. extent 4 (blk i)) = {x. 0x200000 \<le> x \<and> slot x \<le> 508 \<and> even (slot x)}"
    by (auto simp: extent_blk)
  finally show ?thesis .
qed

lemma bytes_odds: "bytes 4 odds = {x. 0x200000 \<le> x \<and> slot x < 508 \<and> odd (slot x)} \<union> {0x3FF7C4 ..< 0x3FF848}"
proof -
  have "bytes 4 odds = (\<Union>i \<in> {i. i < 508 \<and> odd i}. extent 4 (blk i)) \<union> {0x3FF7C4 ..< 0x3FF848}"
    unfolding bytes_def set_odds by (simp add: extent_def [of 4 "(base 509, 112)"] unat_base Un_commute)
  also have "(\<Union>i \<in> {i. i < 508 \<and> odd i}. extent 4 (blk i)) = {x. 0x200000 \<le> x \<and> slot x < 508 \<and> odd (slot x)}"
    by (auto simp: extent_blk)
  finally show ?thesis .
qed

lemma slot_le: "x < 0x3FF7C4 \<Longrightarrow> slot x \<le> 508" and slot_ge: "0x3FF7C4 \<le> x \<Longrightarrow> 509 \<le> slot x"
  by (simp_all add: slot_def div_le_mono less_mult_imp_div_less [of _ 509 4116, THEN Suc_leI] less_eq_div_iff_mult_less_eq)

lemma gaps_rest: "{0x200000 ..< 0x400000} - bytes 4 odds = bytes 4 gaps"
proof -
  have "x \<in> {0x200000 ..< 0x400000} - bytes 4 odds \<longleftrightarrow> x \<in> bytes 4 gaps" for x
  proof (cases "x < 0x3FF7C4")
    case True
    then have "slot x \<le> 508" by (rule slot_le)
    moreover have "slot x < 508" if "odd (slot x)" using that calculation by (cases "slot x = 508") auto
    ultimately show ?thesis using True by (auto simp: bytes_odds bytes_gaps)
  next
    case False
    then show ?thesis using slot_ge [of x] by (auto simp: bytes_odds bytes_gaps)
  qed
  then show ?thesis by blast
qed

lemma gaps_end:
  assumes "b \<in> set gaps"
  shows "block_end 4 b \<notin> bytes 4 gaps" "fst b \<noteq> 0" "block_end 4 b \<le> 2 ^ 32"
proof -
  consider i where "b = blk i" "i \<le> 508" "even i" | "b = (0x3FF848, 1956)" using assms by (auto simp: set_gaps)
  then have "block_end 4 b \<notin> bytes 4 gaps \<and> fst b \<noteq> 0 \<and> block_end 4 b \<le> 2 ^ 32"
  proof cases
    case 1
    have e: "block_end 4 b = 0x200000 + 4116 * Suc i" "unat (fst b) = 0x200000 + 4116 * i"
      using 1 by (simp_all add: block_end_def unat_base blk_def)
    have "slot (block_end 4 b) = Suc i" unfolding e slot_def by simp
    moreover have "block_end 4 b < 0x3FF848" using e 1 by simp
    ultimately show ?thesis using e 1 by (auto simp: bytes_gaps)
  next
    case 2
    then have "block_end 4 b = 0x400000" by (simp add: block_end_def)
    moreover have "slot 0x400000 = 509" by (simp add: slot_def)
    ultimately show ?thesis by (simp add: 2 bytes_gaps)
  qed
  then show "block_end 4 b \<notin> bytes 4 gaps" "fst b \<noteq> 0" "block_end 4 b \<le> 2 ^ 32" by simp_all
qed

lemma gaps_ok: "blocks_ok 4 gaps" "coalesced 4 gaps"
proof -
  have b: "before 4 (blk i) (blk j)" if "i < j" "j \<le> 509" for i j
    using that by (simp add: before_def block_end_def unat_base blk_def)
  have l: "before 4 (blk i) (0x3FF848, 1956)" if "i \<le> 508" for i
    using that by (simp add: before_def block_end_def unat_base blk_def)
  have "sorted_wrt (<) (filter even [0..<509])" by (simp add: sorted_wrt_filter)
  then have "sorted_wrt (\<lambda>i j. before 4 (blk i) (blk j)) (filter even [0..<509])"
    by (rule sorted_wrt_mono_rel [rotated]) (use b in \<open>auto simp del: upt.simps upt_Suc\<close>)
  then have "sorted_wrt (before 4) gaps"
    unfolding gaps_def sorted_wrt_append sorted_wrt_map using l by (auto simp del: upt.simps upt_Suc)
  then show "blocks_ok 4 gaps" using gaps_end(2,3) by (auto simp: blocks_ok_def)
  show "coalesced 4 gaps" using gaps_end(1) by (auto simp: coalesced_def)
qed

lemma inv_gaps:
  assumes inv: "heap_inv s bs odds"
  shows "bs = gaps"
proof (rule coalesced_unique [of 4])
  have "bytes 4 bs = {0x200000 ..< 0x400000} - bytes 4 odds" using inv by (auto simp: heap_inv_def shares_def)
  then show "bytes 4 bs = bytes 4 gaps" by (simp only: gaps_rest)
qed (use inv gaps_ok in \<open>simp_all add: heap_inv_def free_rel_def\<close>)

lemma take_gaps:
  "can_cut (round16 2048) gaps"
  "take_fit 4 (old_rest (round16 2048)) (round16 2048) gaps = Some ((base 0, 2048), (0x200814, 2028) # tl gaps)"
proof -
  have "unat (snd b) = 4096 \<or> unat (snd b) = 1956" if "b \<in> set gaps" for b
    using that by (auto simp: set_gaps blk_def)
  then show "can_cut (round16 2048) gaps" by (intro can_cut_all) (fastforce simp: round16_2048 word_le_nat_alt)
  have "filter even [0..<509] = 0 # filter even [1..<509]" by (subst upt_conv_Cons) simp_all
  then obtain gs where gs: "gaps = (base 0, 4096) # gs" by (simp add: gaps_def blk_def del: upt.simps upt_Suc)
  show "take_fit 4 (old_rest (round16 2048)) (round16 2048) gaps = Some ((base 0, 2048), (0x200814, 2028) # tl gaps)"
    unfolding gs by (simp add: round16_2048 old_rest_def base_def)
qed

text \<open>The table at the end: every block in use has its pointer in it.\<close>

definition final_table :: "u32 list" where
  "final_table = (cleared reused (set evens))[511 := ptr 0]"

lemma length_final: "length final_table = 512"
  by (simp add: final_table_def length_reused)

lemma final_at:
  "i < 512 \<Longrightarrow> final_table ! i =
    (if i = 511 then ptr 0 else if odd i \<and> (i < 508 \<or> i = 509) then ptr i else 0)"
  by (auto simp: final_table_def nth_list_update length_reused nth_cleared reused_at set_evens)

definition medium_message :: string where
  "medium_message = ''[ULTIMATE]   '' @ check_mark @ '' Can allocate medium block after fragmentation'' @ [LF]"

lemma fragments_run:
  fixes s :: "'a old_heap_scheme"
  assumes inv: "heap_inv s bs ((0x3FE7B0, 112) # (0x3FF7C4, 112) # ublks 508)" and fuel: "HEAP_FUEL \<le> fuel"
  shows "\<exists>s'. ultimate_fragments fuel (reused, 511) s = Inr ((final_table, 512), s') \<and>
    heap_inv s' ((0x200814, 2028) # tl gaps) ((base 0, 2048) # odds) \<and> prints s s' \<and>
    Vga_Print medium_message \<in> set (trace s')"
proof -
  define m1 where "m1 = ''[ULTIMATE] 5. Testing fragmentation...'' @ [LF]"
  define m2 where "m2 = ''[ULTIMATE]   Trying to allocate medium block (2048 bytes)...'' @ [LF]"
  have inv1: "heap_inv (say [m1] s) bs ((0x3FE7B0, 112) # (0x3FF7C4, 112) # ublks 508)" using inv by simp
  have d: "distinct evens" by (simp add: evens_def)
  have l: "\<forall>i \<in> set evens. i < length reused" by (simp add: set_evens length_reused)
  have used: "reused ! i \<in> (\<lambda>b. fst b + 20) ` set ((0x3FE7B0, 112) # (0x3FF7C4, 112) # ublks 508)"
    if "i \<in> set evens" "reused ! i \<noteq> 0" for i
  proof -
    have "i \<noteq> 509" "i < 512" using that(1) by (auto simp: set_evens)
    with that(2) consider "i < 508" "reused ! i = ptr i" | "reused ! i = ptr 508"
      by (auto simp: reused_at split: if_splits)
    then show ?thesis
      by cases (auto simp: ptr_508 set_ublks ptr_of_base image_image)
  qed
  have dis: "reused ! i \<noteq> reused ! j" if "i \<in> set evens" "j \<in> set evens" "reused ! i \<noteq> 0" "i \<noteq> j" for i j
    using that ptr_inject ptr_nonzero by (auto simp: set_evens reused_at split: if_splits)
  from free_saved_run [OF inv1 fuel d l, of 0, folded kept_def free_saved_def, unfolded kept_odds] used dis
  obtain k s1 bs1 where s1: "free_saved fuel evens reused (say [m1] s) = Inr (cleared reused (set evens), k, s1)"
      "heap_inv s1 bs1 odds" "quiet (say [m1] s) s1" by (fastforce simp: image_iff)
  define m3 where "m3 = [''[ULTIMATE]   Freed '', int_to_str k, '' blocks (every other)'' @ [LF]]"
  have inv2: "heap_inv (say m3 s1) gaps odds" using s1(2) inv_gaps [OF s1(2)] by simp
  obtain t where t: "HEAP_PRINT_STATUS fuel (say m3 s1) = Inr ((say m3 s1)\<lparr>trace := trace (say m3 s1) @ t\<rparr>)"
    using status_run(1) [OF inv2 fuel] by blast
  define s2 where "s2 = say [m2] ((say m3 s1)\<lparr>trace := trace (say m3 s1) @ t\<rparr>)"
  have inv3: "heap_inv s2 gaps odds" using inv2 by (simp add: s2_def heap_inv_trace)
  have "(2048 :: u32) \<noteq> 0" by simp
  from KMALLOC_inv [OF inv3 this fuel take_gaps]
  obtain s3 where s3: "KMALLOC fuel 2048 s2 = Inr (ptr 0, s3)"
      "heap_inv s3 ((0x200814, 2028) # tl gaps) ((base 0, 2048) # odds)" "quiet s2 s3"
    unfolding ptr_of_base by blast
  have r: "remember (ptr 0) (cleared reused (set evens), 511) = (final_table, 512)"
    by (simp add: remember_def MAX_ALLOCS_def final_table_def)
  have nz: "ptr 0 \<noteq> 0" by (rule ptr_nonzero) simp
  have "ultimate_fragments fuel (reused, 511) s = Inr ((final_table, 512), say [medium_message] s3)"
    unfolding ultimate_fragments_def Let_def m1_def [symmetric] m2_def [symmetric] medium_message_def [symmetric]
      prod.case evens_def [symmetric] s1(1) bindE_simps m3_def [symmetric] t s2_def [symmetric] s3(1) if_P [OF nz] r ..
  moreover have "prints s (say [medium_message] s3)" using s1(3) s3(3) by (auto simp: prints_def quiet_def s2_def)
  ultimately show ?thesis using s3(2) by (intro exI [of _ "say [medium_message] s3"]) simp
qed

section \<open>Everything released\<close>

lemma kept_none: "kept final_table [0..<512] ((base 0, 2048) # odds) = []"
proof -
  have m: "ptr i \<in> (!) final_table ` set [0..<512]" if "i = 0 \<or> odd i \<and> i < 508 \<or> i = 509" for i
  proof (cases "i = 0")
    case True
    then show ?thesis by (intro image_eqI [of _ _ 511]) (auto simp: final_at)
  next
    case False
    then show ?thesis using that by (intro image_eqI [of _ _ i]) (auto simp: final_at simp del: upt.simps upt_Suc)
  qed
  have n: "ptr i \<noteq> 0" if "i = 0 \<or> odd i \<and> i < 508 \<or> i = 509" for i
    using that by (intro ptr_nonzero) auto
  have "fst b + 20 \<in> (!) final_table ` set [0..<512] \<and> fst b + 20 \<noteq> 0" if "b \<in> set ((base 0, 2048) # odds)" for b
  proof -
    have "b = (base 0, 2048) \<or> b = (base 509, 112) \<or> (\<exists>i. b = blk i \<and> odd i \<and> i < 508)"
      using that by (auto simp: set_odds)
    then obtain i where "fst b = base i" "i = 0 \<or> odd i \<and> i < 508 \<or> i = 509"
      by (metis fst_blk fst_conv)
    then show ?thesis using m n by (simp add: ptr_of_base del: upt.simps upt_Suc)
  qed
  then show ?thesis unfolding kept_def filter_empty_conv by blast
qed

lemma start_block: "can_cut (round16 128) whole_heap"
  "take_fit 4 (old_rest (round16 128)) (round16 128) whole_heap = Some ((0x200000, 128), [(0x200094, 0x1FFF58)])"
  by (simp_all add: whole_heap_def can_cut_def round16_128 old_rest_def)

definition cleanup_messages :: "string list" where
  "cleanup_messages = [''[ULTIMATE]   '' @ check_mark @ '' Allocation at START of heap: 0x'',
     ''[ULTIMATE]   '' @ check_mark @ '' Cleanup successful'' @ [LF]]"

lemma final_used:
  assumes "i < 512" "final_table ! i \<noteq> 0"
  shows "final_table ! i \<in> (\<lambda>b. fst b + 20) ` set ((base 0, 2048) # odds)"
proof -
  have "final_table ! i = ptr 0 \<or> odd i \<and> i < 508 \<and> final_table ! i = ptr i \<or> final_table ! i = ptr 509"
    using assms by (auto simp: final_at split: if_splits)
  then consider "final_table ! i = ptr 0" | "odd i" "i < 508" "final_table ! i = ptr i" | "final_table ! i = ptr 509"
    by blast
  then show ?thesis
  proof cases
    case 2
    then have "blk i \<in> set odds" by (simp add: set_odds)
    then show ?thesis using 2(3) by (intro image_eqI [of _ _ "blk i"]) (simp_all add: ptr_of_base)
  qed (simp_all add: set_odds ptr_of_base)
qed

lemma final_distinct:
  assumes "i < 512" "j < 512" "final_table ! i \<noteq> 0" "i \<noteq> j"
  shows "final_table ! i \<noteq> final_table ! j"
proof
  assume e: "final_table ! i = final_table ! j"
  define f where "f = (\<lambda>i :: nat. if i = 511 then 0 else i)"
  have f: "final_table ! n = ptr (f n)" "f n \<le> 509" "n = 511 \<or> f n \<noteq> 0" if "n < 512" "final_table ! n \<noteq> 0" for n
    using that by (auto simp: final_at f_def odd_pos split: if_splits)
  have "f i = f j" using f(1,2) [OF assms(1,3)] f(1,2) [OF assms(2)] e assms(3) ptr_inject by metis
  then show False using f(3) [OF assms(1,3)] f(3) [OF assms(2)] e assms(3,4) by (auto simp: f_def split: if_splits)
qed

lemma cleanup_run:
  fixes s :: "'a old_heap_scheme"
  assumes inv: "heap_inv s bs ((base 0, 2048) # odds)" and fuel: "HEAP_FUEL \<le> fuel"
  shows "\<exists>s'. ultimate_cleanup fuel (final_table, 512) s = Inr s' \<and> heap_inv s' whole_heap [] \<and> prints s s' \<and>
    Vga_Print ` set cleanup_messages \<subseteq> set (trace s')"
proof -
  define m1 where "m1 = ''[ULTIMATE] 6. Cleaning up ALL allocations...'' @ [LF]"
  define m2 where "m2 = ''[ULTIMATE]   Final allocation test on clean heap...'' @ [LF]"
  define c1 where "c1 = ''[ULTIMATE]   '' @ check_mark @ '' Allocation at START of heap: 0x''"
  define c2 where "c2 = ''[ULTIMATE]   '' @ check_mark @ '' Cleanup successful'' @ [LF]"
  have inv1: "heap_inv (say [m1] s) bs ((base 0, 2048) # odds)" using inv by simp
  have d: "distinct [0..<512]" by (rule distinct_upt)
  have l: "\<forall>i \<in> set [0..<512]. i < length final_table" by (simp add: length_final del: upt.simps upt_Suc)
  from free_saved_run [OF inv1 fuel d l, of 0, folded kept_def free_saved_def, unfolded kept_none] final_used final_distinct
  obtain k s1 bs1 where s1: "free_saved fuel [0..<512] final_table (say [m1] s) = Inr (cleared final_table (set [0..<512]), k, s1)"
      "heap_inv s1 bs1 []" "quiet (say [m1] s) s1" by (fastforce simp: image_iff simp del: upt.simps upt_Suc)
  define m3 where "m3 = [''[ULTIMATE]   Freed '', int_to_str k, '' blocks total'' @ [LF],
            ''[ULTIMATE] 7. Verifying heap is clean...'' @ [LF]]"
  have inv2: "heap_inv (say m3 s1) whole_heap []" using s1(2) all_free [OF s1(2)] by simp
  obtain t where t: "HEAP_PRINT_STATUS fuel (say m3 s1) = Inr ((say m3 s1)\<lparr>trace := trace (say m3 s1) @ t\<rparr>)"
    using status_run(1) [OF inv2 fuel] by blast
  define s2 where "s2 = say [m2] ((say m3 s1)\<lparr>trace := trace (say m3 s1) @ t\<rparr>)"
  have inv3: "heap_inv s2 whole_heap []" using inv2 by (simp add: s2_def heap_inv_trace)
  have q: "(128 :: u32) \<noteq> 0" by simp
  from KMALLOC_inv [OF inv3 q fuel start_block]
  obtain s3 where s3: "KMALLOC fuel 128 s2 = Inr (0x200000 + 20, s3)"
      "heap_inv s3 [(0x200094, 0x1FFF58)] [(0x200000, 128)]" "quiet s2 s3" by blast
  define m4 where "m4 = [c1, old_hex_to_str (0x200000 + 20), [LF]]"
  have inv4: "heap_inv (say m4 s3) [(0x200094, 0x1FFF58)] ([] @ (0x200000, 128) # [])" using s3(2) by simp
  from KFREE_inv [OF inv4 fuel] obtain s4 where s4: "KFREE fuel (0x200000 + 20) (say m4 s3) = Inr s4"
      "heap_inv s4 whole_heap []" "quiet (say m4 s3) s4"
    unfolding heap_refill [OF inv3 start_block] by auto
  have nz: "(0x200000 + 20 :: u32) \<noteq> 0" "HEAP_START \<le> 0x200000 + 20 \<and> 0x200000 + 20 < HEAP_START + 1000"
    by (simp_all add: HEAP_START_def)
  have "ultimate_cleanup fuel (final_table, 512) s = Inr (say [c2] s4)"
    unfolding ultimate_cleanup_def Let_def m1_def [symmetric] m2_def [symmetric] c1_def [symmetric] c2_def [symmetric]
      prod.case s1(1) bindE_simps m3_def [symmetric] t s2_def [symmetric] s3(1) if_P [OF nz(1)] if_P [OF nz(2)]
      m4_def [symmetric] s4(1) ..
  moreover have "prints s (say [c2] s4)" "Vga_Print ` set cleanup_messages \<subseteq> set (trace (say [c2] s4))"
    using s1(3) s3(3) s4(3)
    by (auto simp: prints_def quiet_def s2_def cleanup_messages_def m4_def c1_def c2_def)
  ultimately show ?thesis using s4(2) by (intro exI [of _ "say [c2] s4"]) simp
qed

section \<open>The whole test\<close>

definition huge_message :: string where
  "huge_message = ''[ULTIMATE]   '' @ check_mark @ '' CORRECT: Huge allocation rejected'' @ [LF]"

lemma huge_run:
  assumes inv: "heap_inv s whole_heap us" and fuel: "HEAP_FUEL \<le> fuel"
  shows "\<exists>s'. ultimate_huge fuel s = Inr s' \<and> heap_inv s' whole_heap us \<and> prints s s' \<and>
    Vga_Print huge_message \<in> set (trace s')"
proof -
  define m1 where "m1 = ''[ULTIMATE] 1. Testing huge allocation...'' @ [LF]"
  have sz: "HEAP_SIZE * 2 = 0x400000" by (simp add: HEAP_SIZE_def HEAP_START_def HEAP_END_def)
  have inv1: "heap_inv (say [m1] s) whole_heap us" using inv by simp
  have t: "take_fit 4 (old_rest (round16 0x400000)) (round16 0x400000) whole_heap = None"
    by (simp add: round16_huge whole_heap_def)
  have "(0x400000 :: u32) \<noteq> 0" by simp
  note k = KMALLOC_none [OF inv1 this fuel t]
  define s' where "s' = say [huge_message] (oom_message (round16 0x400000) (say [m1] s))"
  have "ultimate_huge fuel s = Inr s'"
    unfolding ultimate_huge_def Let_def m1_def [symmetric] sz k(1) bindE_simps prod.case if_P [OF refl]
      huge_message_def [symmetric] s'_def ..
  moreover have "prints s s'" "Vga_Print huge_message \<in> set (trace s')"
    by (auto simp: prints_def s'_def oom_message_def)
  moreover have "heap_inv s' whole_heap us" using k(2) by (simp only: s'_def heap_inv_say)
  ultimately show ?thesis by blast
qed

text \<open>What the test prints on the way: six checks that pass, and the one that fails.\<close>

definition test_messages :: "string list" where
  "test_messages = [huge_message] @ full_message @ [full_error] @ reuse_messages @ [medium_message] @ cleanup_messages"

text \<open>Parts 1 and 2, up to the status that is printed when the heap is full.\<close>

lemma filled_run:
  fixes s :: "'a old_heap_scheme"
  assumes inv: "heap_inv s whole_heap []" and fuel: "HEAP_FUEL \<le> fuel" and rounds: "510 \<le> rounds"
  obtains sa sb t where "ultimate_huge fuel s = Inr sa"
    "fill_heap rounds fuel (replicate MAX_ALLOCS 0, 0) 0 0 (say ms sa) = Inr (filled 509, 2084864, ptr 508, sb)"
    "HEAP_PRINT_STATUS fuel sb = Inr (sb\<lparr>trace := trace sb @ t\<rparr>)"
    "heap_inv sb [tail 509] (ublks 509)" "rd32 (ram sb) (ptr 508) = 0xDEADBEEF"
    "Vga_Print ` set ([huge_message] @ full_message) \<subseteq> set (trace sb)"
proof -
  from huge_run [OF inv fuel] obtain sa where a: "ultimate_huge fuel s = Inr sa"
      "heap_inv sa whole_heap []" "Vga_Print huge_message \<in> set (trace sa)" by blast
  have z: "(replicate MAX_ALLOCS 0, 0) = filled 0" by (simp add: filled_def MAX_ALLOCS_def)
  have "heap_inv (say ms sa) [tail 0] (ublks 0)" using a(2) by (simp add: tail_0 ublks_def whole_heap_def)
  moreover have "509 - 0 < rounds" using rounds by simp
  ultimately obtain sb where b:
      "fill_heap rounds fuel (filled 0) 0 0 (say ms sa) = Inr (filled 509, 2084864, ptr 508, sb)"
      "heap_inv sb [tail 509] (ublks 509)" "rd32 (ram sb) (ptr 508) = 0xDEADBEEF"
      "prints (say ms sa) sb" "Vga_Print ` set full_message \<subseteq> set (trace sb)"
    using fill_run [of 0 "say ms sa" rounds, OF _ _ _ fuel] by (auto simp: last_ptr_def)
  moreover obtain t where "HEAP_PRINT_STATUS fuel sb = Inr (sb\<lparr>trace := trace sb @ t\<rparr>)"
    using status_run(1) [OF b(2) fuel] by blast
  moreover have "Vga_Print huge_message \<in> set (trace sb)" using a(3) b(4) by (auto simp: prints_def)
  ultimately show thesis using that [of sa sb t] a(1) by (simp add: z)
qed

text \<open>
  C40. \<open>ultimate_test\<close> comes to its end on the heap that \<open>HEAP_INIT\<close> builds, with 510 rounds of its filling
  loop, and leaves the heap as it found it: one free block and nothing in use.  It fills the heap with 509
  blocks of 4096 bytes, and then takes for an error that a request of 100 bytes succeeds, although 2088
  bytes are still free; all other checks it makes pass.
\<close>

theorem ultimate_test_run:
  fixes s :: "'a old_heap_scheme"
  assumes np: "\<not> paging s" and fuel: "HEAP_FUEL \<le> fuel" and rounds: "510 \<le> rounds"
  shows "\<exists>s1 s2. HEAP_INIT s = Inr s1 \<and> ultimate_test rounds fuel s1 = Inr s2 \<and> heap_inv s2 whole_heap [] \<and>
    Vga_Print ` set test_messages \<subseteq> set (trace s2)"
proof -
  obtain s1 where s1: "HEAP_INIT s = Inr s1" "heap_inv s1 whole_heap []" using HEAP_INIT_inv [OF np] by blast
  define m1 where "m1 = [LF] @ ''[ULTIMATE] Testing heap boundaries...'' @ [LF]"
  define m2 where "m2 = ''[ULTIMATE] 2. Filling entire heap...'' @ [LF]"
  define m3 where "m3 = ''[ULTIMATE] '' @ check_mark @ '' All tests completed!'' @ [LF]"
  have "heap_inv (say [m1] s1) whole_heap []" using s1(2) by simp
  from filled_run [OF this fuel rounds, of "[m2]"] obtain sa sb t where b: "ultimate_huge fuel (say [m1] s1) = Inr sa"
      "fill_heap rounds fuel (replicate MAX_ALLOCS 0, 0) 0 0 (say [m2] sa) = Inr (filled 509, 2084864, ptr 508, sb)"
      "HEAP_PRINT_STATUS fuel sb = Inr (sb\<lparr>trace := trace sb @ t\<rparr>)"
      "heap_inv sb [tail 509] (ublks 509)" "rd32 (ram sb) (ptr 508) = 0xDEADBEEF"
      "Vga_Print ` set ([huge_message] @ full_message) \<subseteq> set (trace sb)" by blast
  define sc where "sc = sb\<lparr>trace := trace sb @ t\<rparr>"
  have c: "heap_inv sc [tail 509] (ublks 509)" "rd32 (ram sc) (ptr 508) = 0xDEADBEEF"
    using b(4,5) by (simp_all add: sc_def heap_inv_trace)
  from full_run [OF c(1) fuel c(2)] obtain sd where d: "ultimate_full fuel (filled 509) sc = Inr (filled 510, sd)"
      "heap_inv sd [(0x3FF848, 1956)] ((0x3FF7C4, 112) # ublks 509)" "rd32 (ram sd) (ptr 508) = 0xDEADBEEF"
      "prints sc sd" "Vga_Print full_error \<in> set (trace sd)" by blast
  from reuse_run [OF d(2) fuel d(3)] obtain se where e:
      "ultimate_reuse fuel (filled 510) (ptr 508) sd = Inr ((reused, 511), se)"
      "heap_inv se [(0x3FE834, 3964), (0x3FF848, 1956)] ((0x3FE7B0, 112) # (0x3FF7C4, 112) # ublks 508)"
      "prints sd se" "Vga_Print ` set reuse_messages \<subseteq> set (trace se)" by blast
  from fragments_run [OF e(2) fuel] obtain sf where f: "ultimate_fragments fuel (reused, 511) se = Inr ((final_table, 512), sf)"
      "heap_inv sf ((0x200814, 2028) # tl gaps) ((base 0, 2048) # odds)" "prints se sf"
      "Vga_Print medium_message \<in> set (trace sf)" by blast
  from cleanup_run [OF f(2) fuel] obtain sg where g: "ultimate_cleanup fuel (final_table, 512) sf = Inr sg"
      "heap_inv sg whole_heap []" "prints sf sg" "Vga_Print ` set cleanup_messages \<subseteq> set (trace sg)" by blast
  have "ultimate_test rounds fuel s1 = Inr (say [m3] sg)"
    unfolding ultimate_test_def Let_def m1_def [symmetric] m2_def [symmetric] m3_def [symmetric]
    by (simp only: b(1-3) sc_def [symmetric] d(1) e(1) f(1) g(1) bindE_simps prod.case)
  moreover have "Vga_Print ` set test_messages \<subseteq> set (trace sg)"
  proof -
    have sf: "set (trace sf) \<subseteq> set (trace sg)" using g(3) by (simp add: prints_def)
    then have se: "set (trace se) \<subseteq> set (trace sg)" using f(3) unfolding prints_def by (rule order_trans [rotated])
    then have sd: "set (trace sd) \<subseteq> set (trace sg)" using e(3) unfolding prints_def by (rule order_trans [rotated])
    then have sc: "set (trace sc) \<subseteq> set (trace sg)" using d(4) unfolding prints_def by (rule order_trans [rotated])
    then have sb: "set (trace sb) \<subseteq> set (trace sg)" by (simp add: sc_def)
    show ?thesis
      using order_trans [OF b(6) sb] subsetD [OF sd d(5)] order_trans [OF e(4) se]
        subsetD [OF sf f(4)] g(4) by (simp add: test_messages_def image_Un)
  qed
  ultimately show ?thesis using s1(1) g(2) by auto
qed

theorem ultimate_test_run_witness:
  "\<exists>s1 s2. HEAP_INIT sample_old_heap = Inr s1 \<and> ultimate_test 510 HEAP_FUEL s1 = Inr s2 \<and> heap_inv s2 whole_heap []"
  using ultimate_test_run [OF sample_np order_refl order_refl] by blast

end
