(* ===== verification/Spec2Isabelle.thy ===== *)
theory Spec2Isabelle
  imports Kernel GDT Heap_Run Old_Kernel Ultimate
begin

text \<open>
  Verification of Core86, a 32-bit x86 kernel in C.  The repository holds two kernels: the present one
  under \<open>Kernel/src\<close>, and its predecessor under \<open>old\<close>.  Both are modelled here; all paths below are
  under \<open>src/\<close>.

  \<^bold>\<open>The machine.\<close>  \<open>Prelude\<close> names the integer types of \<open>types.h\<close> and \<open>KSTINT.h\<close> as words of their width,
  and has the error monad (\<open>bindE\<close>, \<open>foldE\<close>), little-endian access to byte memory and the arithmetic of
  page frames, with the collections \<open>run_simps\<close>, \<open>frame_simps\<close> and \<open>mem_simps\<close>.  \<open>Machine\<close> is the
  processor as the C code sees it: RAM, \<open>CR0\<close> and \<open>CR3\<close>, the page walk, and the trace of what is
  visible outside.  Every pointer access of the C code goes through it, so an access to a page that is
  not mapped is the value \<open>Inl (Page_Fault a)\<close>; undefined behaviour and loops that do not end are values
  as well (\<open>Inl Undefined_Behaviour\<close>, \<open>Inl No_Return\<close>).  The static variables of a C file are a record
  that extends \<open>cpu\<close>; \<open>pmm\<close>, \<open>vmm\<close>, \<open>heap\<close>, \<open>timer\<close> and \<open>intr\<close> extend each other in the order of the
  calls, so that each operation works on every state that has its part.

  \<^bold>\<open>The kernel.\<close>
  \<^item> \<open>PMM\<close> is \<open>PMM.c\<close>, the allocator of physical frames with its bitmap in RAM; \<open>VMM\<close> is \<open>VMM.c\<close>, the page
    tables; \<open>HEAP\<close> is \<open>HEAP.c\<close>, the first-fit heap of linked headers in RAM, which takes pages from both.
    \<open>Heap_Growth\<close> follows its growth page by page, \<open>Heap_Run\<close> its runs.
  \<^item> \<open>Utils\<close> is \<open>utils.c\<close>; \<open>VGA\<close> is \<open>VGA.c\<close> and \<open>VGA.h\<close>, the text screen with its scroll-back; \<open>Console\<close> is
    \<open>serial.c\<close> and \<open>print.c\<close>, formatted printing to both serial ports and the screen.
  \<^item> \<open>PIC\<close>, \<open>PIT\<close>, \<open>IDT\<close> and \<open>GDT\<close> are \<open>pic.c\<close>, \<open>pit.c\<close>, \<open>idt.c\<close> and \<open>gdt.c\<close>.  What a driver achieves is read
    off the trace of its port writes by models of the 8259A and 8253 chips, and off its tables by the
    descriptor formats of the processor.
  \<^item> \<open>Kernel\<close> is \<open>kernel.c\<close>: \<open>k_init\<close>, the boot sequence over all of these, and its test routine.

  \<^bold>\<open>The old kernel.\<close>
  \<^item> \<open>Old_PMM\<close> is \<open>old/Include/PMM.c\<close>; \<open>Old_VMM\<close> is \<open>old/Include/VMM.c\<close> with the memory and printing
    helpers of \<open>UTILS.c\<close>, the number formatting of which is in \<open>Utils\<close>; \<open>Old_HEAP\<close> is \<open>old/Include/HEAP.c\<close>.
  \<^item> \<open>Keyboard\<close> is \<open>old/Include/PS2KB.c\<close> with \<open>OUTB.c\<close>.  The drivers of \<open>old/Include/PIC.c\<close>, \<open>PIT.c\<close> and \<open>IDT.c\<close>
    are in the theories of their successors.
  \<^item> \<open>Old_Debug\<close> is \<open>old/Include/DEBUG.c\<close>, the tests; \<open>Old_Kernel\<close> is \<open>old/KERNEL.c\<close>, the entry.

  \<^bold>\<open>Interfaces.\<close>  Where two components provide the same service, or one relies on another, the contract is a
  locale, and every locale is interpreted on the definitions of the model:
  \<^item> \<open>Frame_Allocator\<close>: a pool of frames, which of them are handed out, and what one allocation and one
    release change.  Provided by \<open>PMM\<close> (\<open>frames\<close>) and by \<open>Old_PMM\<close> (\<open>old_frames\<close>).
  \<^item> \<open>Page_Map\<close>: a partial function from addresses to addresses, and two operations that change it on one
    page.  Provided by \<open>VMM\<close> (\<open>pages\<close>), where the function is the page walk of the processor.
  \<^item> \<open>Heap_Interface\<close>: a list of free blocks, the first-fit allocation of one and its release.  Provided by
    \<open>HEAP\<close> (\<open>heap_blocks\<close>) and by \<open>Old_HEAP\<close> (\<open>old_heap\<close>).  Both represent the lists of \<open>Block_List\<close>, where
    the abstract operations \<open>take_fit\<close>, \<open>insert_block\<close> and \<open>merge_adjacent\<close> are defined on lists of
    (address, size) pairs, and a list is related to a doubly linked list of headers in RAM.  \<open>Coalesced\<close>
    adds that a list without touching blocks is determined by its bytes (and the locale of the heaps that
    merge a released block), \<open>Heap_Sharing\<close> how free blocks and blocks in use share out a region (\<open>shares\<close>).
  \<^item> \<open>Bounded_Log\<close>: a log that forgets its oldest entry, provided by the scroll-back of \<open>VGA\<close>
    (\<open>scrollback\<close>); \<open>Fifo\<close>: a bounded queue, provided by the ring buffer of \<open>Keyboard\<close> (\<open>kb\<close>).

  \<^bold>\<open>What the theorems show.\<close>
  \<^item> Memory: \<open>alloc_page\<close> and \<open>PMM_ALLOC_PAGE\<close> hand out unused frames until there is none; mapping and
    unmapping change the walk of the processor on one page; the address spaces that both kernels build;
    \<open>kmalloc\<close> and \<open>kfree\<close> refine the abstract operations on lists.  In every run of the kernel heap from the
    boot state on (\<open>Heap_Run\<close>: the inductive \<open>heap_run\<close>, with the invariant \<open>run_inv\<close>) the free blocks and the
    blocks in use share out the pages it has, also across growth, and a request that a free block or one
    more page can hold is served without touching what is stored.  In every run of the old heap in which
    no request finds a block with less than a header to spare (\<open>Old_Heap_Run\<close>: \<open>old_run\<close>, \<open>room\<close>, with
    \<open>heap_inv\<close>) the same holds of its 2 MiB, and no two free blocks touch.
  \<^item> Devices: the state in which the interrupt controllers, the timer, the interrupt table and the segment
    descriptors are left; that \<open>ksleep\<close> does not return early under any interleaving with the timer
    interrupt (\<open>sleeping\<close>).
  \<^item> Text: the number formatting reads back; printing never leaves the screen and the scroll-back and only
    appends to the latter; \<open>kprintf\<close> renders its format as a reference function says; the keyboard turns
    scan codes into the characters of its maps, in order, and its line editor returns the edited line.
  \<^item> Whole runs: \<open>k_init\<close> and \<open>kernel_main\<close> reach their final loops in the states given, those of the
    interrupt controllers and, for \<open>k_init\<close>, of the timer included; \<open>ultimate_test\<close>, the
    largest of the tests, ends and leaves the heap as it found it (\<open>Ultimate\<close>).
  \<^item> Faults of the code, each proved of the model: the bitmap of the allocator is itself handed out and then
    used as a page table; after paging is switched on the memory manager faults on its own tables wherever
    it touches them; the page
    fault handler faults; \<open>kmalloc\<close> never returns when memory is exhausted; the old heap cuts a block that
    is too small and hands out memory past its end; the live page tables of the old kernel are handed out;
    \<open>kprintf\<close> reads past its format.

  \<^bold>\<open>Loops.\<close>  Loops over an index are folds or recursive functions with a measure.  A loop that follows
  pointers or waits for a device takes fuel and is \<open>Inl No_Return\<close> without it.  For the lists of both heaps
  two more than the length of the list is enough, which is a premise of the theorems; for the old heap
  \<open>HEAP_FUEL\<close> (104860) is enough for every list that fits into its 2 MiB, since a block takes at least 20
  bytes, and for the kernel heap \<open>RUN_FUEL\<close> (196612) for every list within 768 pages.  That is the number of pages
  from \<open>TEST_HEAP_VIRT\<close> to the end of the window mapped at boot, and a bound of the theorems about growth
  and runs, not of the code, which goes on past it.  \<open>ksleep\<close> takes one step for each tick; the waits of
  the keyboard driver as many as it takes the controller to change its status; the filling loop of \<open>ultimate_test\<close> 510 rounds, one for each block of
  4096 bytes that fits and one to find the heap full.  \<open>kmalloc\<close> without memory calls itself for ever, and
  the theorem says so for every fuel.

  \<^bold>\<open>Parameters.\<close>  What is fixed by the linker, the assembly files or the devices is an argument: the addresses
  of handlers and tables, the code segment register, and what port reads return.  The hypotheses about them
  are stated with the theorems and hold in their witnesses: a data port of a controller reads back its mask,
  the status of the keyboard controller does not stay the same for ever.

  \<^bold>\<open>Assumptions on the machine.\<close>  RAM answers at every address: before paging is switched on the kernel heap
  lies at the physical address \<open>TEST_HEAP_VIRT\<close>, and its theorems are about machines with RAM there.

  \<^bold>\<open>Not modelled.\<close>  \<open>Mandatory/boot.s\<close>, \<open>old/INTERRUPTS.asm\<close> and the linker script, which are not C; the
  effect of the flags of \<open>build.sh\<close>; the block dump of \<open>HEAP.c\<close> under \<open>HEAP_DEBUG\<close>, which is not defined in
  the build; constants of \<open>config.h\<close> and declarations in headers that no modelled function uses; \<open>vga_memcpy\<close>,
  which has no caller.  \<open>old/Include/VGA.c\<close> and \<open>VGA_DRV.c\<close> are copies of \<open>VGA.c\<close> with other type names and
  comments, so the definitions of \<open>VGA\<close> stand for them too.  Outside \<open>Console\<close>, \<open>Keyboard\<close> and
  \<open>Old_Kernel\<close> a call that prints is an event of the trace.  Interrupts are modelled where code waits for
  them (\<open>ksleep\<close>, the line editor); other code takes none.
\<close>

end
